(* ===== verification/GG_Prelude.thy ===== *)
theory GG_Prelude
  imports Complex_Main "HOL-Library.AList" "HOL-Library.Word"
begin

text \<open>
  Shared vocabulary of the development. It names the machine types of the Rust sources, the
  arithmetic the sources use on them, the standard-library operations several components call
  (\<open>Iterator::min_by_key\<close>, \<open>Iterator::max_by_key\<close>, \<open>VecDeque::retain\<close>), IEEE comparisons of
  \<open>f32\<close> values, and the rule collections that the component theories extend.

  A \<open>usize\<close> or \<open>u64\<close> is a \<^typ>\<open>nat\<close> below \<open>2 ^ 64\<close>; the wrap-around of the atomic
  read-modify-write operations is written out with \<open>wrap_add\<close> and \<open>wrap_sub\<close>. An
  \<open>Instant\<close> is a \<^typ>\<open>nat\<close> in nanoseconds since the start of the process. A Rust
  \<open>Result\<close> is a sum whose left summand is the error. A hash table is an association list with
  distinct keys: the list order stands for the table's unspecified iteration order.
\<close>

named_theorems op_defs \<open>defining equations of the operations of the components\<close>
named_theorems inv_defs \<open>definitions of the well-formedness invariants\<close>
named_theorems inv_intros \<open>preservation of the well-formedness invariants\<close>

type_synonym usize = nat
type_synonym u64 = nat
type_synonym instant = nat
type_synonym byte = "8 word"
type_synonym u32 = "32 word"
type_synonym ('k, 'v) hash_map = "('k \<times> 'v) list"

section \<open>Machine arithmetic\<close>

definition two64 :: nat where
  "two64 = 2 ^ 64"

definition wrap_add :: "nat \<Rightarrow> nat \<Rightarrow> nat" where
  "wrap_add a b = (a + b) mod two64"

definition wrap_sub :: "nat \<Rightarrow> nat \<Rightarrow> nat" where
  "wrap_sub a b = (a + (two64 - b mod two64)) mod two64"

lemma two64_pos [simp]: "0 < two64"
  by (simp add: two64_def)

lemma two64_numeral: "two64 = 18446744073709551616"
  by (simp add: two64_def)

lemma wrap_add_less [simp]: "wrap_add a b < two64"
  by (simp add: wrap_add_def)

lemma wrap_sub_less [simp]: "wrap_sub a b < two64"
  by (simp add: wrap_sub_def)

lemma wrap_add_exact [simp]: "a + b < two64 \<Longrightarrow> wrap_add a b = a + b"
  by (simp add: wrap_add_def)

lemma wrap_sub_exact [simp]:
  assumes "b \<le> a" and "a < two64"
  shows "wrap_sub a b = a - b"
proof -
  have b: "b mod two64 = b"
    using assms by simp
  have "a + (two64 - b) = (a - b) + two64"
    using assms by simp
  then have "wrap_sub a b = ((a - b) + two64) mod two64"
    by (simp add: wrap_sub_def b)
  also have "\<dots> = (a - b) mod two64"
    by (rule mod_add_self2)
  also have "\<dots> = a - b"
    using assms by simp
  finally show ?thesis .
qed

text \<open>A \<open>fetch_add\<close> that is undone by \<open>fetch_sub\<close> restores the counter, whatever wrapped.\<close>

lemma wrap_sub_add [simp]:
  assumes "a < two64"
  shows "wrap_sub (wrap_add a b) b = a"
proof -
  define r where "r = b mod two64"
  have r: "r < two64"
    by (simp add: r_def)
  have "wrap_sub (wrap_add a b) b = ((a + b) + (two64 - r)) mod two64"
    unfolding wrap_sub_def wrap_add_def r_def [symmetric] by (rule mod_add_left_eq)
  also have "\<dots> = ((a + r) + (two64 - r)) mod two64"
    by (metis add.assoc add.commute mod_add_left_eq r_def)
  also have "(a + r) + (two64 - r) = a + two64"
    using r by simp
  finally show ?thesis
    using assms by simp
qed

section \<open>IEEE single-precision values\<close>

text \<open>
  A finite \<open>f32\<close> is an exact rational. Every comparison with a NaN is false, which is what the
  validation code of the sources meets when it is handed one.
\<close>

datatype f32 = F32 rat | F32_Inf | F32_NegInf | F32_NaN

fun f32_less :: "f32 \<Rightarrow> f32 \<Rightarrow> bool" where
  "f32_less F32_NaN _ = False"
| "f32_less _ F32_NaN = False"
| "f32_less (F32 a) (F32 b) = (a < b)"
| "f32_less F32_NegInf y = (y \<noteq> F32_NegInf)"
| "f32_less x F32_NegInf = False"
| "f32_less F32_Inf y = False"
| "f32_less (F32 a) F32_Inf = True"

definition f32_le :: "f32 \<Rightarrow> f32 \<Rightarrow> bool" where
  "f32_le x y = (f32_less x y \<or> x = y \<and> x \<noteq> F32_NaN)"

section \<open>Standard-library operations\<close>

text \<open>\<open>Iterator::min_by_key\<close> returns the first of several minimal elements.\<close>

fun min_by_key :: "('a \<Rightarrow> 'b::linorder) \<Rightarrow> 'a list \<Rightarrow> 'a option" where
  "min_by_key f [] = None"
| "min_by_key f (x # xs) =
     (case min_by_key f xs of
        None \<Rightarrow> Some x
      | Some y \<Rightarrow> Some (if f x \<le> f y then x else y))"

lemma min_by_key_None [simp]: "min_by_key f xs = None \<longleftrightarrow> xs = []"
  by (cases xs) (auto split: option.splits)

lemma min_by_key_Some:
  "min_by_key f xs = Some m \<Longrightarrow> m \<in> set xs \<and> (\<forall>x \<in> set xs. f m \<le> f x)"
proof (induction xs arbitrary: m)
  case Nil
  then show ?case by simp
next
  case (Cons x xs)
  show ?case
  proof (cases "min_by_key f xs")
    case None
    with Cons.prems show ?thesis by simp
  next
    case (Some y)
    with Cons.IH have "y \<in> set xs" and "\<forall>z \<in> set xs. f y \<le> f z"
      by blast+
    with Cons.prems Some show ?thesis
      by (auto split: if_splits intro: order_trans)
  qed
qed

lemmas min_by_key_mem = min_by_key_Some [THEN conjunct1]
lemmas min_by_key_least = min_by_key_Some [THEN conjunct2, rule_format]

text \<open>\<open>Iterator::max_by_key\<close> returns the last of several maximal elements.\<close>

fun max_by_key :: "('a \<Rightarrow> 'b::linorder) \<Rightarrow> 'a list \<Rightarrow> 'a option" where
  "max_by_key f [] = None"
| "max_by_key f (x # xs) =
     (case max_by_key f xs of
        None \<Rightarrow> Some x
      | Some y \<Rightarrow> Some (if f y < f x then x else y))"

lemma max_by_key_None [simp]: "max_by_key f xs = None \<longleftrightarrow> xs = []"
  by (cases xs) (auto split: option.splits)

lemma max_by_key_Some:
  "max_by_key f xs = Some m \<Longrightarrow> m \<in> set xs \<and> (\<forall>x \<in> set xs. f x \<le> f m)"
proof (induction xs arbitrary: m)
  case Nil
  then show ?case by simp
next
  case (Cons x xs)
  show ?case
  proof (cases "max_by_key f xs")
    case None
    with Cons.prems show ?thesis by simp
  next
    case (Some y)
    with Cons.IH have "y \<in> set xs" and "\<forall>z \<in> set xs. f z \<le> f y"
      by blast+
    with Cons.prems Some show ?thesis
      by (auto split: if_splits intro: order_trans less_imp_le)
  qed
qed

lemmas max_by_key_mem = max_by_key_Some [THEN conjunct1]
lemmas max_by_key_greatest = max_by_key_Some [THEN conjunct2, rule_format]

section \<open>Hash tables as association lists\<close>

definition wf_map :: "('k, 'v) hash_map \<Rightarrow> bool" where
  [inv_defs]: "wf_map m \<longleftrightarrow> distinct (map fst m)"

lemma wf_map_Nil [simp]: "wf_map []"
  by (simp add: wf_map_def)

lemma wf_map_update [simp, intro]: "wf_map m \<Longrightarrow> wf_map (AList.update k v m)"
  by (simp add: wf_map_def distinct_update)

lemma wf_map_delete [simp, intro]: "wf_map m \<Longrightarrow> wf_map (AList.delete k m)"
  by (simp add: wf_map_def distinct_delete)

lemma wf_map_filter [simp, intro]: "wf_map m \<Longrightarrow> wf_map (filter P m)"
  by (simp add: wf_map_def distinct_map_filter)

lemma wf_map_lookup: "wf_map m \<Longrightarrow> (k, v) \<in> set m \<longleftrightarrow> map_of m k = Some v"
  by (simp add: wf_map_def)

lemma lookup_update [simp]: "map_of (AList.update k v m) = (map_of m)(k \<mapsto> v)"
  by (simp add: update_conv')

lemma lookup_delete [simp]: "map_of (AList.delete k m) = (map_of m)(k := None)"
  by (simp add: delete_conv')

lemma length_update:
  "length (AList.update k v m) = (if k \<in> fst ` set m then length m else Suc (length m))"
  by (induction m) auto

lemma length_delete_mem:
  "wf_map m \<Longrightarrow> k \<in> fst ` set m \<Longrightarrow> Suc (length (AList.delete k m)) = length m"
proof (induction m)
  case Nil
  then show ?case by simp
next
  case (Cons p m)
  show ?case
  proof (cases "fst p = k")
    case True
    with Cons.prems have "k \<notin> fst ` set m"
      by (auto simp: wf_map_def)
    then have "AList.delete k m = m"
      by (simp add: AList.delete_id)
    with True show ?thesis by (cases p) simp
  next
    case False
    with Cons show ?thesis
      by (cases p) (auto simp: wf_map_def)
  qed
qed

lemma length_delete_le: "length (AList.delete k m) \<le> length m"
  by (rule AList.length_delete_le)

lemma map_of_filter_snd:
  "wf_map m \<Longrightarrow>
   map_of (filter (\<lambda>(k, v). P v) m) k =
     (case map_of m k of None \<Rightarrow> None | Some v \<Rightarrow> if P v then Some v else None)"
proof (induction m)
  case Nil
  then show ?case by simp
next
  case (Cons p m)
  then have IH: "map_of (filter (\<lambda>(k, v). P v) m) k =
      (case map_of m k of None \<Rightarrow> None | Some v \<Rightarrow> if P v then Some v else None)"
    and fresh: "fst p \<notin> fst ` set m"
    by (auto simp: wf_map_def)
  show ?case
  proof (cases "fst p = k")
    case True
    with fresh have "map_of m k = None"
      by (simp add: map_of_eq_None_iff)
    with True IH show ?thesis by (cases p) auto
  next
    case False
    with IH show ?thesis by (cases p) auto
  qed
qed

section \<open>Little-endian bytes\<close>

text \<open>\<open>to_le_bytes\<close> of an \<open>n\<close>-byte unsigned integer and \<open>from_le_bytes\<close>.\<close>

fun le_bytes :: "nat \<Rightarrow> nat \<Rightarrow> nat list" where
  "le_bytes 0 x = []"
| "le_bytes (Suc n) x = x mod 256 # le_bytes n (x div 256)"

fun of_le_bytes :: "nat list \<Rightarrow> nat" where
  "of_le_bytes [] = 0"
| "of_le_bytes (b # bs) = b + 256 * of_le_bytes bs"

lemma le_bytes_numeral: "le_bytes (numeral n) x = x mod 256 # le_bytes (pred_numeral n) (x div 256)"
  using le_bytes.simps(2) [of "pred_numeral n" x] by (simp only: numeral_eq_Suc [of n, symmetric])

lemma le_bytes_length [simp]: "length (le_bytes n x) = n"
  by (induction n arbitrary: x) auto

lemma le_bytes_inject: "x < 256 ^ n \<Longrightarrow> y < 256 ^ n \<Longrightarrow> le_bytes n x = le_bytes n y \<Longrightarrow> x = y"
proof (induction n arbitrary: x y)
  case 0
  then show ?case by simp
next
  case (Suc n)
  then have "x mod 256 = y mod 256" "le_bytes n (x div 256) = le_bytes n (y div 256)" by simp_all
  moreover have "x div 256 < 256 ^ n" "y div 256 < 256 ^ n"
    using Suc.prems(1,2) by (simp_all add: less_mult_imp_div_less mult.commute)
  ultimately show ?case using Suc.IH by (metis div_mod_decomp)
qed

lemma le_bytes_less: "b \<in> set (le_bytes n x) \<Longrightarrow> b < 256"
  by (induction n arbitrary: x) auto

lemma of_le_bytes_le_bytes: "of_le_bytes (le_bytes n x) = x mod 256 ^ n"
  by (induction n arbitrary: x) (auto simp: mod_mult2_eq)

lemma le_bytes_of_le_bytes: "\<forall>b \<in> set bs. b < 256 \<Longrightarrow> le_bytes (length bs) (of_le_bytes bs) = bs"
  by (induction bs) auto

lemma of_le_bytes_less: "\<forall>b \<in> set bs. b < 256 \<Longrightarrow> of_le_bytes bs < 256 ^ length bs"
proof (induction bs)
  case Nil
  then show ?case by simp
next
  case (Cons b bs)
  then have "of_le_bytes bs + 1 \<le> 256 ^ length bs" and "b < 256" by auto
  then have "256 * (of_le_bytes bs + 1) \<le> 256 * 256 ^ length bs" by (simp only: mult_le_mono2)
  with \<open>b < 256\<close> show ?case by simp
qed

section \<open>Bounds on sums\<close>

lemma sum_list_filter_le: "sum_list (map f (filter P xs)) \<le> (sum_list (map f xs) :: nat)"
  by (induction xs) auto

lemma sum_list_delete:
  "wf_map m \<Longrightarrow> map_of m k = Some v \<Longrightarrow>
   sum_list (map (f \<circ> snd) (AList.delete k m)) + f v = (sum_list (map (f \<circ> snd) m) :: nat)"
proof (induction m)
  case Nil
  then show ?case by simp
next
  case (Cons p m)
  obtain a b where p: "p = (a, b)" by (cases p)
  show ?case
  proof (cases "a = k")
    case True
    with Cons.prems p have "k \<notin> fst ` set m"
      by (auto simp: wf_map_def)
    then have "AList.delete k m = m"
      by (simp add: AList.delete_id)
    with True Cons.prems p show ?thesis by simp
  next
    case False
    with Cons p show ?thesis
      by (simp add: wf_map_def)
  qed
qed

end
