(* ===== verification/Priority_Queue.thy ===== *)
theory Priority_Queue
  imports GG_Prelude
begin

text \<open>
  The scheduler's priority queue (\<open>scheduler/priority.rs\<close>): priority levels, the ordering of
  \<open>PrioritizedItem\<close> and the queue over \<open>BinaryHeap\<close>. The heap is the list of its items in
  arrival order; \<open>BinaryHeap::pop\<close> removes a greatest item of the \<open>Ord\<close> instance.
  The locale \<open>prio_queue\<close> is the contract the request queue relies on: four FIFO lanes, of which
  \<open>pop\<close> serves the highest non-empty one. It is interpreted on the heap below.
\<close>

section \<open>Priority levels\<close>

datatype priority = Low | Normal | High | Critical

primrec priority_code :: "priority \<Rightarrow> nat" where
  "priority_code Low = 0"
| "priority_code Normal = 1"
| "priority_code High = 2"
| "priority_code Critical = 3"

definition priority_from_u8 :: "nat \<Rightarrow> priority" where
  "priority_from_u8 v =
     (if v = 0 then Low else if v = 1 then Normal else if v = 2 then High else Critical)"

definition priority_default :: priority where
  "priority_default = Normal"

lemma priority_code_inject [simp]: "priority_code p = priority_code q \<longleftrightarrow> p = q"
  by (cases p; cases q) simp_all

instantiation priority :: linorder
begin

definition less_eq_priority :: "priority \<Rightarrow> priority \<Rightarrow> bool" where
  "p \<le> q \<longleftrightarrow> priority_code p \<le> priority_code q"

definition less_priority :: "priority \<Rightarrow> priority \<Rightarrow> bool" where
  "p < q \<longleftrightarrow> priority_code p < priority_code q"

instance
  by standard (auto simp: less_eq_priority_def less_priority_def)

end

lemma priority_from_code: "priority_from_u8 (priority_code p) = p"
  by (cases p) (simp_all add: priority_from_u8_def)

text \<open>The levels from the most to the least urgent.\<close>

definition levels :: "priority list" where
  "levels = [Critical, High, Normal, Low]"

lemma set_levels [simp]: "set levels = UNIV"
proof -
  have "p \<in> set levels" for p
    by (cases p) (simp_all add: levels_def)
  then show ?thesis by blast
qed

lemma levels_simps [simp]:
  "Low < Normal" "Low < High" "Low < Critical" "Normal < High" "Normal < Critical"
  "High < Critical" "Low \<le> p" "p \<le> Critical"
  by (auto simp: less_priority_def less_eq_priority_def) (cases p, auto)

section \<open>The contract of a priority queue\<close>

locale prio_queue =
  fixes push :: "'q \<Rightarrow> 'a \<Rightarrow> priority \<Rightarrow> 'q"
    and pop :: "'q \<Rightarrow> ('a \<times> 'q) option"
    and lanes :: "'q \<Rightarrow> priority \<Rightarrow> 'a list"
    and invar :: "'q \<Rightarrow> bool"
    and room :: "'q \<Rightarrow> bool"
  assumes lanes_push: "invar q \<Longrightarrow> room q \<Longrightarrow> lanes (push q x p) = (lanes q)(p := lanes q p @ [x])"
    and invar_push: "invar q \<Longrightarrow> room q \<Longrightarrow> invar (push q x p)"
    and pop_None: "invar q \<Longrightarrow> pop q = None \<Longrightarrow> lanes q p = []"
    and pop_Some: "invar q \<Longrightarrow> pop q = Some (x, q') \<Longrightarrow>
          \<exists>p xs. lanes q p = x # xs \<and> (\<forall>p' > p. lanes q p' = []) \<and> lanes q' = (lanes q)(p := xs)"
    and invar_pop: "invar q \<Longrightarrow> pop q = Some (x, q') \<Longrightarrow> invar q'"
begin

text \<open>The order in which the waiting items will be served.\<close>

definition backlog :: "'q \<Rightarrow> 'a list" where
  "backlog q = concat (map (lanes q) levels)"

lemma backlog_eq: "backlog q = lanes q Critical @ lanes q High @ lanes q Normal @ lanes q Low"
  by (simp add: backlog_def levels_def)

lemma pop_backlog:
  assumes "invar q" and "pop q = Some (x, q')"
  shows "backlog q = x # backlog q'"
proof -
  obtain p xs where *: "lanes q p = x # xs" "\<forall>p' > p. lanes q p' = []" "lanes q' = (lanes q)(p := xs)"
    using pop_Some [OF assms] by blast
  then show ?thesis
    by (cases p) (simp_all add: backlog_eq)
qed

lemma pop_None_backlog:
  assumes "invar q" and "pop q = None"
  shows "backlog q = []"
  using pop_None [OF assms] by (simp add: backlog_eq)

lemma pop_iff_backlog: "invar q \<Longrightarrow> pop q = None \<longleftrightarrow> backlog q = []"
  using pop_None_backlog pop_backlog by (metis list.distinct(1) not_None_eq surj_pair)

text \<open>
  A new item enters behind every waiting item of its own or a higher priority and ahead of every
  item of a lower priority.
\<close>

lemma push_backlog:
  assumes "invar q" and "room q"
  shows "backlog (push q x p) =
    concat (map (lanes q) (filter (\<lambda>l. p \<le> l) levels)) @ [x] @
    concat (map (lanes q) (filter (\<lambda>l. l < p) levels))"
  by (cases p) (simp_all add: backlog_eq lanes_push [OF assms] levels_def less_eq_priority_def
      less_priority_def)

lemma length_push_backlog:
  assumes "invar q" and "room q"
  shows "length (backlog (push q x p)) = Suc (length (backlog q))"
  by (cases p) (simp_all add: backlog_eq lanes_push [OF assms])

lemma set_push_backlog:
  assumes "invar q" and "room q"
  shows "set (backlog (push q x p)) = insert x (set (backlog q))"
  by (cases p) (auto simp add: backlog_eq lanes_push [OF assms])

end

section \<open>The heap of prioritized items\<close>

datatype ordering = Less | Equal | Greater

definition cmp_nat :: "nat \<Rightarrow> nat \<Rightarrow> ordering" where
  "cmp_nat a b = (if a < b then Less else if a = b then Equal else Greater)"

record 'a prioritized_item =
  priority :: priority
  sequence :: u64
  item :: 'a

definition item_eq :: "'a prioritized_item \<Rightarrow> 'a prioritized_item \<Rightarrow> bool" where
  "item_eq a b \<longleftrightarrow> priority a = priority b \<and> sequence a = sequence b"

definition item_cmp :: "'a prioritized_item \<Rightarrow> 'a prioritized_item \<Rightarrow> ordering" where
  "item_cmp self other =
     (case cmp_nat (priority_code (priority self)) (priority_code (priority other)) of
        Equal \<Rightarrow> cmp_nat (sequence other) (sequence self)
      | ord \<Rightarrow> ord)"

record 'a priority_queue =
  heap :: "'a prioritized_item list"
  next_sequence :: u64

definition pq_new :: "'a priority_queue" where
  "pq_new = \<lparr>heap = [], next_sequence = 0\<rparr>"

definition pq_push :: "'a priority_queue \<Rightarrow> 'a \<Rightarrow> priority \<Rightarrow> 'a priority_queue" where
  "pq_push q x p =
     (let s = next_sequence q
      in q\<lparr>next_sequence := wrap_add s 1,
           heap := heap q @ [\<lparr>priority = p, sequence = s, item = x\<rparr>]\<rparr>)"

fun heap_max :: "'a prioritized_item list \<Rightarrow> 'a prioritized_item option" where
  "heap_max [] = None"
| "heap_max (x # xs) =
     (case heap_max xs of
        None \<Rightarrow> Some x
      | Some y \<Rightarrow> Some (if item_cmp x y = Greater then x else y))"

definition pq_pop :: "'a priority_queue \<Rightarrow> ('a \<times> 'a priority_queue) option" where
  "pq_pop q =
     (case heap_max (heap q) of
        None \<Rightarrow> None
      | Some m \<Rightarrow> Some (item m, q\<lparr>heap := remove1 m (heap q)\<rparr>))"

definition pq_peek :: "'a priority_queue \<Rightarrow> 'a option" where
  "pq_peek q = map_option item (heap_max (heap q))"

definition pq_len :: "'a priority_queue \<Rightarrow> usize" where
  "pq_len q = length (heap q)"

definition pq_is_empty :: "'a priority_queue \<Rightarrow> bool" where
  "pq_is_empty q = (heap q = [])"

definition pq_iter :: "'a priority_queue \<Rightarrow> 'a list" where
  "pq_iter q = map item (heap q)"

definition pq_lanes :: "'a priority_queue \<Rightarrow> priority \<Rightarrow> 'a list" where
  "pq_lanes q p = map item (filter (\<lambda>i. priority i = p) (heap q))"

definition pq_wf :: "'a priority_queue \<Rightarrow> bool" where
  [inv_defs]: "pq_wf q \<longleftrightarrow>
     sorted_wrt (<) (map sequence (heap q)) \<and> (\<forall>i \<in> set (heap q). sequence i < next_sequence q)"

definition pq_room :: "'a priority_queue \<Rightarrow> bool" where
  "pq_room q \<longleftrightarrow> Suc (next_sequence q) < two64"

lemmas pq_defs [op_defs] = pq_new_def pq_push_def pq_pop_def pq_peek_def pq_len_def
  pq_is_empty_def pq_iter_def

subsection \<open>The ordering\<close>

lemma cmp_nat_simps [simp]:
  "cmp_nat a b = Less \<longleftrightarrow> a < b"
  "cmp_nat a b = Equal \<longleftrightarrow> a = b"
  "cmp_nat a b = Greater \<longleftrightarrow> b < a"
  by (auto simp: cmp_nat_def)

lemma item_cmp_Greater:
  "item_cmp a b = Greater \<longleftrightarrow>
     priority b < priority a \<or> priority a = priority b \<and> sequence a < sequence b"
  by (cases "priority_code (priority a)" "priority_code (priority b)" rule: linorder_cases)
    (auto simp: item_cmp_def cmp_nat_def less_priority_def dest: less_imp_neq)

lemma item_cmp_Less:
  "item_cmp a b = Less \<longleftrightarrow>
     priority a < priority b \<or> priority a = priority b \<and> sequence b < sequence a"
  by (cases "priority_code (priority a)" "priority_code (priority b)" rule: linorder_cases)
    (auto simp: item_cmp_def cmp_nat_def less_priority_def dest: less_imp_neq)

lemma item_cmp_Equal: "item_cmp a b = Equal \<longleftrightarrow> item_eq a b"
  by (auto simp: item_cmp_def cmp_nat_def item_eq_def split: ordering.splits if_splits)

lemma heap_max_None [simp]: "heap_max h = None \<longleftrightarrow> h = []"
  by (cases h) (auto split: option.splits)

lemma heap_max_Some:
  "heap_max h = Some m \<Longrightarrow> m \<in> set h \<and> (\<forall>x \<in> set h. item_cmp x m \<noteq> Greater)"
proof (induction h arbitrary: m)
  case Nil
  then show ?case by simp
next
  case (Cons x xs)
  show ?case
  proof (cases "heap_max xs")
    case None
    with Cons.prems show ?thesis by (simp add: item_cmp_Greater)
  next
    case (Some y)
    with Cons.IH have y: "y \<in> set xs" "\<forall>z \<in> set xs. item_cmp z y \<noteq> Greater"
      by blast+
    have trans: "item_cmp z x \<noteq> Greater" if "item_cmp x y = Greater" "item_cmp z y \<noteq> Greater" for z
      using that by (auto simp: item_cmp_Greater)
    show ?thesis
    proof (cases "item_cmp x y = Greater")
      case True
      with Cons.prems Some y trans show ?thesis
        by (auto simp: item_cmp_Greater)
    next
      case False
      with Cons.prems Some y show ?thesis by auto
    qed
  qed
qed

subsection \<open>Lanes\<close>

lemma heap_max_first:
  assumes wf: "pq_wf q" and m: "heap_max (heap q) = Some m"
  obtains ys zs where "heap q = ys @ m # zs" "\<forall>i \<in> set ys. priority i \<noteq> priority m"
    "\<forall>i \<in> set (heap q). priority i \<le> priority m"
proof -
  have mem: "m \<in> set (heap q)" and max: "\<forall>x \<in> set (heap q). item_cmp x m \<noteq> Greater"
    using heap_max_Some [OF m] by auto
  obtain ys zs where split: "heap q = ys @ m # zs"
    using mem by (auto dest: split_list)
  have less: "sequence i < sequence m" if "i \<in> set ys" for i
    using wf that by (auto simp: pq_wf_def split sorted_wrt_append)
  have "\<forall>i \<in> set ys. priority i \<noteq> priority m"
    using less max by (force simp: split item_cmp_Greater)
  moreover have "\<forall>i \<in> set (heap q). priority i \<le> priority m"
    using max by (auto simp: item_cmp_Greater not_less)
  ultimately show thesis
    using that split by blast
qed

lemma pq_pop_lanes:
  assumes wf: "pq_wf q" and pop: "pq_pop q = Some (x, q')"
  shows "\<exists>p xs. pq_lanes q p = x # xs \<and> (\<forall>p' > p. pq_lanes q p' = []) \<and> pq_lanes q' = (pq_lanes q)(p := xs)"
proof -
  obtain m where m: "heap_max (heap q) = Some m" and x: "x = item m"
    and q': "q' = q\<lparr>heap := remove1 m (heap q)\<rparr>"
    using pop by (auto simp: pq_pop_def split: option.splits)
  obtain ys zs where split: "heap q = ys @ m # zs"
    and ys: "\<forall>i \<in> set ys. priority i \<noteq> priority m"
    and le: "\<forall>i \<in> set (heap q). priority i \<le> priority m"
    using heap_max_first [OF wf m] by blast
  have notin: "m \<notin> set ys"
    using ys by auto
  have rem: "heap q' = ys @ zs"
    using notin by (simp add: q' split remove1_append)
  have none: "filter (\<lambda>i. priority i = priority m) ys = []"
    using ys by (simp add: filter_empty_conv)
  let ?xs = "map item (filter (\<lambda>i. priority i = priority m) zs)"
  have "pq_lanes q (priority m) = x # ?xs"
    by (simp add: pq_lanes_def split none x)
  moreover have "\<forall>p' > priority m. pq_lanes q p' = []"
    using le by (auto simp: pq_lanes_def filter_empty_conv)
  moreover have "pq_lanes q' = (pq_lanes q)(priority m := ?xs)"
    by (rule ext) (simp add: pq_lanes_def rem split none)
  ultimately show ?thesis by blast
qed

lemma pq_wf_new [simp]: "pq_wf pq_new"
  by (simp add: pq_wf_def pq_new_def)

lemma pq_wf_push: "pq_wf q \<Longrightarrow> pq_room q \<Longrightarrow> pq_wf (pq_push q x p)"
  by (force simp: pq_wf_def pq_push_def pq_room_def Let_def sorted_wrt_append)

lemma pq_wf_pop:
  assumes "pq_wf q" and "pq_pop q = Some (x, q')"
  shows "pq_wf q'"
proof -
  obtain m where q': "q' = q\<lparr>heap := remove1 m (heap q)\<rparr>" and "m \<in> set (heap q)"
    using assms(2) by (auto simp: pq_pop_def split: option.splits dest: heap_max_Some)
  then obtain ys zs where "heap q = ys @ m # zs" "heap q' = ys @ zs"
    by (metis in_set_conv_decomp_first priority_queue.select_convs(1)
        priority_queue.simps(4) priority_queue.surjective remove1_split)
  then show ?thesis
    using assms(1) q' by (auto simp: pq_wf_def sorted_wrt_append)
qed

interpretation pq: prio_queue pq_push pq_pop pq_lanes pq_wf pq_room
proof unfold_locales
  fix q :: "'a priority_queue" and x p
  assume wf: "pq_wf q" and room: "pq_room q"
  show "pq_lanes (pq_push q x p) = (pq_lanes q)(p := pq_lanes q p @ [x])"
    by (rule ext) (simp add: pq_lanes_def pq_push_def Let_def)
  show "pq_wf (pq_push q x p)"
    using wf room by (rule pq_wf_push)
next
  fix q :: "'a priority_queue" and p
  assume "pq_wf q" and "pq_pop q = None"
  then show "pq_lanes q p = []"
    by (simp add: pq_pop_def pq_lanes_def split: option.splits)
next
  fix q q' :: "'a priority_queue" and x
  assume wf: "pq_wf q" and pop: "pq_pop q = Some (x, q')"
  show "\<exists>p xs. pq_lanes q p = x # xs \<and> (\<forall>p' > p. pq_lanes q p' = []) \<and> pq_lanes q' = (pq_lanes q)(p := xs)"
    using wf pop by (rule pq_pop_lanes)
  show "pq_wf q'"
    using wf pop by (rule pq_wf_pop)
qed

lemma length_lanes: "pq_len q = length (pq.backlog q)"
proof -
  have "length h = length (filter (\<lambda>i. priority i = Critical) h) + length (filter (\<lambda>i. priority i = High) h)
      + length (filter (\<lambda>i. priority i = Normal) h) + length (filter (\<lambda>i. priority i = Low) h)"
    for h :: "'a prioritized_item list"
  proof (induction h)
    case (Cons i h)
    then show ?case by (cases "priority i") simp_all
  qed simp
  from this [of "heap q"] show ?thesis
    by (simp add: pq_len_def pq.backlog_eq pq_lanes_def)
qed

lemma set_backlog: "set (pq.backlog q) = set (pq_iter q)"
proof -
  have "set (pq.backlog q) = item ` (\<Union>p \<in> set levels. {i \<in> set (heap q). priority i = p})"
    by (auto simp: pq.backlog_def pq_lanes_def)
  then show ?thesis
    by (auto simp: pq_iter_def)
qed

end
