(* ===== verification/Rust_Text.thy ===== *)
theory Rust_Text
  imports GG_Prelude
begin

text \<open>
  Rust strings. A \<open>String\<close> or \<open>&str\<close> is the list of its UTF-8 bytes, so \<open>len()\<close> is
  \<^const>\<open>length\<close> and an offset is a byte offset. This theory models the operations of the
  standard library that the sources apply to strings: \<open>is_char_boundary\<close>, the backward search
  for a boundary that \<open>truncate\<close> callers write as a loop, \<open>contains\<close>, \<open>find\<close>,
  \<open>replace\<close>, \<open>starts_with\<close>, ASCII lower-casing and the decimal \<open>Display\<close> of integers.
\<close>

section \<open>Character boundaries\<close>

text \<open>A continuation byte of UTF-8 has the form \<open>10xxxxxx\<close>.\<close>

abbreviation byte_val :: "char \<Rightarrow> nat" where
  "byte_val c \<equiv> of_char c"

definition is_continuation :: "char \<Rightarrow> bool" where
  "is_continuation c \<longleftrightarrow> 128 \<le> byte_val c \<and> byte_val c < 192"

definition is_char_boundary :: "string \<Rightarrow> usize \<Rightarrow> bool" where
  "is_char_boundary s i \<longleftrightarrow>
     i = 0 \<or> i = length s \<or> i < length s \<and> \<not> is_continuation (s ! i)"

text \<open>\<open>while cut > 0 && !text.is_char_boundary(cut) { cut -= 1; }\<close>\<close>

fun back_to_boundary :: "string \<Rightarrow> usize \<Rightarrow> usize" where
  "back_to_boundary s 0 = 0"
| "back_to_boundary s (Suc i) = (if is_char_boundary s (Suc i) then Suc i else back_to_boundary s i)"

lemma is_char_boundary_0 [simp]: "is_char_boundary s 0"
  by (simp add: is_char_boundary_def)

lemma is_char_boundary_length [simp]: "is_char_boundary s (length s)"
  by (simp add: is_char_boundary_def)

lemma back_to_boundary_le: "back_to_boundary s i \<le> i"
  by (induction i) auto

lemma back_to_boundary_boundary [simp]: "is_char_boundary s (back_to_boundary s i)"
  by (induction i) auto

lemma back_to_boundary_greatest:
  "j \<le> i \<Longrightarrow> is_char_boundary s j \<Longrightarrow> j \<le> back_to_boundary s i"
  by (induction i) (auto simp: le_Suc_eq)

text \<open>
  A well-formed UTF-8 string never has more than three continuation bytes in a row, so the
  backward search drops at most three bytes.
\<close>

definition utf8_runs :: "string \<Rightarrow> bool" where
  "utf8_runs s \<longleftrightarrow>
     (\<forall>i. i + 3 < length s \<longrightarrow> (\<exists>k \<le> 3. \<not> is_continuation (s ! (i + k))))"

lemma back_to_boundary_near:
  assumes runs: "utf8_runs s" and i: "i < length s"
  shows "i \<le> back_to_boundary s i + 3"
proof (cases "i < 3")
  case True
  then show ?thesis by simp
next
  case False
  then have "(i - 3) + 3 < length s"
    using i by simp
  then obtain k where k: "k \<le> 3" "\<not> is_continuation (s ! ((i - 3) + k))"
    using runs by (auto simp: utf8_runs_def)
  moreover have "(i - 3) + k < length s"
    using k(1) False i by linarith
  ultimately have "is_char_boundary s ((i - 3) + k)"
    by (simp add: is_char_boundary_def)
  moreover have "(i - 3) + k \<le> i"
    using k(1) False by simp
  ultimately have "(i - 3) + k \<le> back_to_boundary s i"
    by (intro back_to_boundary_greatest)
  then show ?thesis
    using False by simp
qed

section \<open>Characters and slices\<close>

text \<open>\<open>chars()\<close>, each character as its bytes: a leading byte with the continuation bytes after it.\<close>

function utf8_chars :: "string \<Rightarrow> string list" where
  "utf8_chars [] = []"
| "utf8_chars (c # s) = (c # takeWhile is_continuation s) # utf8_chars (dropWhile is_continuation s)"
  by pat_completeness auto
termination
  by (relation "measure length") (auto simp: le_imp_less_Suc length_dropWhile_le)

lemma concat_utf8_chars [simp]: "concat (utf8_chars s) = s"
  by (induction s rule: utf8_chars.induct) auto

text \<open>\<open>&s[a..b]\<close>; \<open>None\<close> is the panic of a slice that is out of range or splits a character.\<close>

definition str_slice :: "string \<Rightarrow> usize \<Rightarrow> usize \<Rightarrow> string option" where
  "str_slice s a b =
     (if a \<le> b \<and> b \<le> length s \<and> is_char_boundary s a \<and> is_char_boundary s b then Some (take (b - a) (drop a s))
      else None)"

section \<open>Searching and replacing\<close>

fun starts_with :: "string \<Rightarrow> string \<Rightarrow> bool" where
  "starts_with s [] = True"
| "starts_with [] (p # ps) = False"
| "starts_with (c # s) (p # ps) = (c = p \<and> starts_with s ps)"

fun contains_str :: "string \<Rightarrow> string \<Rightarrow> bool" where
  "contains_str [] pat = (pat = [])"
| "contains_str (c # s) pat = (starts_with (c # s) pat \<or> contains_str s pat)"

fun find_str :: "string \<Rightarrow> string \<Rightarrow> usize option" where
  "find_str [] pat = (if pat = [] then Some 0 else None)"
| "find_str (c # s) pat =
     (if starts_with (c # s) pat then Some 0 else map_option Suc (find_str s pat))"

text \<open>
  \<open>str::replace\<close>: leftmost, non-overlapping occurrences; an empty pattern matches before every
  character and at the end.
\<close>

function replace_from :: "string \<Rightarrow> string \<Rightarrow> string \<Rightarrow> string" where
  "replace_from [] pat r = []"
| "replace_from (c # s) pat r =
     (if pat \<noteq> [] \<and> starts_with (c # s) pat then r @ replace_from (drop (length pat) (c # s)) pat r
      else c # replace_from s pat r)"
  by pat_completeness auto
termination
  by (relation "measure (\<lambda>(s, pat, r). length s)") (auto simp: neq_Nil_conv)

definition replace_str :: "string \<Rightarrow> string \<Rightarrow> string \<Rightarrow> string" where
  "replace_str s pat r =
     (if pat = [] then r @ concat (map (\<lambda>ch. ch @ r) (utf8_chars s)) else replace_from s pat r)"

lemma starts_with_iff: "starts_with s p \<longleftrightarrow> (\<exists>t. s = p @ t)"
  by (induction s p rule: starts_with.induct) auto

lemma starts_with_append [simp]: "starts_with (p @ t) p"
  by (auto simp: starts_with_iff)

lemma contains_str_iff: "contains_str s p \<longleftrightarrow> (\<exists>u v. s = u @ p @ v)"
proof (induction s)
  case Nil
  then show ?case by auto
next
  case (Cons c s)
  have "(\<exists>u v. c # s = u @ p @ v) \<longleftrightarrow> (\<exists>v. c # s = p @ v) \<or> (\<exists>u v. s = u @ p @ v)"
    by (metis append_Cons append_Nil list.exhaust list.inject)
  then show ?case
    using Cons by (simp add: starts_with_iff)
qed

lemma contains_str_append1 [intro]: "contains_str s p \<Longrightarrow> contains_str (s @ t) p"
  by (auto simp: contains_str_iff) (metis append.assoc)

lemma contains_str_append2 [intro]: "contains_str t p \<Longrightarrow> contains_str (s @ t) p"
  by (auto simp: contains_str_iff) (metis append.assoc)

lemma contains_str_self [simp]: "contains_str s s"
  by (auto simp: contains_str_iff intro: exI [of _ "[]"])

lemma contains_str_set: "contains_str s p \<Longrightarrow> set p \<subseteq> set s"
  by (auto simp: contains_str_iff)

lemma find_str_contains: "find_str s p = None \<longleftrightarrow> \<not> contains_str s p"
  by (induction s) auto

lemma find_str_Some: "find_str s p = Some i \<Longrightarrow> i + length p \<le> length s \<and> starts_with (drop i s) p"
proof (induction s arbitrary: i)
  case Nil
  then show ?case by (simp split: if_splits)
next
  case (Cons c s)
  show ?case
  proof (cases "starts_with (c # s) p")
    case True
    then obtain t where "c # s = p @ t"
      by (auto simp: starts_with_iff)
    then have "length p \<le> length (c # s)"
      by (metis le_add1 length_append)
    with Cons.prems True show ?thesis by simp
  next
    case False
    with Cons show ?thesis by auto
  qed
qed

lemma replace_from_absent: "\<not> contains_str s pat \<Longrightarrow> replace_from s pat r = s"
  by (induction s pat r rule: replace_from.induct) auto

lemma contains_str_Nil [simp]: "contains_str s []"
  by (cases s) auto

lemma replace_str_absent: "\<not> contains_str s pat \<Longrightarrow> replace_str s pat r = s"
  by (auto simp: replace_str_def replace_from_absent)

section \<open>ASCII case folding and decimal display\<close>

definition ascii_lower :: "char \<Rightarrow> char" where
  "ascii_lower c =
     (if 65 \<le> byte_val c \<and> byte_val c \<le> 90 then char_of (byte_val c + 32) else c)"

definition to_ascii_lowercase :: "string \<Rightarrow> string" where
  "to_ascii_lowercase s = map ascii_lower s"

lemma ascii_lower_not_upper:
  "\<not> (65 \<le> byte_val (ascii_lower c) \<and> byte_val (ascii_lower c) \<le> 90)"
  by (auto simp: ascii_lower_def)

lemma length_to_ascii_lowercase [simp]: "length (to_ascii_lowercase s) = length s"
  by (simp add: to_ascii_lowercase_def)

text \<open>The decimal digits of an unsigned integer, as \<open>Display\<close> prints them.\<close>

definition digit_char :: "nat \<Rightarrow> char" where
  "digit_char d = char_of (48 + d)"

fun show_nat :: "nat \<Rightarrow> string" where
  "show_nat n = (if n < 10 then [digit_char n] else show_nat (n div 10) @ [digit_char (n mod 10)])"

declare show_nat.simps [simp del]

lemma show_nat_nonempty [simp]: "show_nat n \<noteq> []"
  by (subst show_nat.simps) simp

lemma show_nat_digits: "c \<in> set (show_nat n) \<Longrightarrow> 48 \<le> byte_val c \<and> byte_val c \<le> 57"
proof (induction n rule: show_nat.induct)
  case (1 n)
  show ?case
  proof (cases "n < 10")
    case True
    with "1.prems" show ?thesis
      by (simp add: show_nat.simps [of n] digit_char_def)
  next
    case False
    have "n mod 10 < 10" by simp
    then have "48 \<le> byte_val (digit_char (n mod 10)) \<and> byte_val (digit_char (n mod 10)) \<le> 57"
      by (simp add: digit_char_def del: mod_less_divisor)
    with False "1" show ?thesis
      by (auto simp: show_nat.simps [of n])
  qed
qed

end
