(* ===== verification/Engine_Types.thy ===== *)
theory Engine_Types
  imports Rust_Text
begin

text \<open>
  The value types every execution path shares: the two error enums and their \<open>Display\<close> texts
  (\<open>engine/inference_types.rs\<close>, \<open>engine/error.rs\<close>), request parameters and per-call
  configuration with their validation (\<open>engine/inference_types.rs\<close>, \<open>engine/config.rs\<close>),
  the stop control of one request (\<open>engine/request_control.rs\<close>), the degraded-mode policy
  (\<open>engine/degraded_mode.rs\<close>) and the frames of a token stream (\<open>engine/streaming.rs\<close>).

  A shared \<open>Arc<AtomicBool>\<close> is an address into a store of flags, because the caller, the queue
  and the worker hold the same flag; a clock reading is an argument of the operations that read it.
\<close>

section \<open>Errors\<close>

datatype inference_error =
    ModelNotLoaded string
  | InvalidParams string
  | ExecutionFailed string
  | ContextExceeded usize usize
  | MemoryExceeded usize usize
  | SecurityRejected string
  | Cancelled
  | DeadlineExceeded u64

primrec show_inference_error :: "inference_error \<Rightarrow> string" where
  "show_inference_error (ModelNotLoaded m) = ''Model not loaded: '' @ m"
| "show_inference_error (InvalidParams m) = ''Invalid parameters: '' @ m"
| "show_inference_error (ExecutionFailed m) = ''Inference failed: '' @ m"
| "show_inference_error (ContextExceeded mx got) =
     ''Context length exceeded: max '' @ show_nat mx @ '', got '' @ show_nat got"
| "show_inference_error (MemoryExceeded used limit) =
     ''Memory limit exceeded: used '' @ show_nat used @ '' bytes, limit '' @ show_nat limit @ '' bytes''"
| "show_inference_error (SecurityRejected m) = m"
| "show_inference_error Cancelled = ''Request cancelled''"
| "show_inference_error (DeadlineExceeded t) =
     ''Deadline exceeded: request did not complete within its '' @ show_nat t @ '' ms timeout''"

text \<open>The second enum of the same name, used by the resource limits and the model backends.\<close>

datatype engine_error =
    EModelNotLoaded string
  | EInputValidation string
  | EBatchItemValidation usize engine_error
  | ETimeout u64
  | EMemoryExceeded usize usize
  | EOutputFiltered string
  | EModelError string
  | ERateLimited
  | EQueueFull usize usize
  | ECapabilityNotSupported string
  | EHashMismatch string string string
  | EInvalidFormat string

primrec show_engine_error :: "engine_error \<Rightarrow> string" where
  "show_engine_error (EModelNotLoaded m) = ''Model not loaded: '' @ m"
| "show_engine_error (EInputValidation m) = ''Input validation failed: '' @ m"
| "show_engine_error (EBatchItemValidation i e) =
     ''Input validation failed for batch item '' @ show_nat i @ '': '' @ show_engine_error e"
| "show_engine_error (ETimeout t) = ''Inference timeout after '' @ show_nat t @ ''ms''"
| "show_engine_error (EMemoryExceeded used limit) =
     ''Memory limit exceeded: used '' @ show_nat used @ '' bytes, limit '' @ show_nat limit @ '' bytes''"
| "show_engine_error (EOutputFiltered r) = ''Output filter rejected: '' @ r"
| "show_engine_error (EModelError m) = ''Model error: '' @ m"
| "show_engine_error ERateLimited = ''Rate limit exceeded''"
| "show_engine_error (EQueueFull cur mx) =
     ''Queue full: '' @ show_nat cur @ ''/'' @ show_nat mx @ '' pending requests''"
| "show_engine_error (ECapabilityNotSupported c) = ''Capability not supported: '' @ c"
| "show_engine_error (EHashMismatch m e a) =
     ''Hash mismatch for model '' @ m @ '': expected '' @ e @ '', got '' @ a"
| "show_engine_error (EInvalidFormat m) = ''Invalid model format: '' @ m"

fun is_warning :: "engine_error \<Rightarrow> bool" where
  "is_warning ERateLimited = True"
| "is_warning (EQueueFull _ _) = True"
| "is_warning _ = False"

fun is_security_concern :: "engine_error \<Rightarrow> bool" where
  "is_security_concern (EHashMismatch _ _ _) = True"
| "is_security_concern (EInputValidation _) = True"
| "is_security_concern (EBatchItemValidation _ _) = True"
| "is_security_concern (EOutputFiltered _) = True"
| "is_security_concern _ = False"

section \<open>Parameters and configuration\<close>

record inference_config =
  c_max_tokens :: "nat option"
  c_temperature :: f32
  c_top_p :: f32
  c_top_k :: nat
  c_repetition_penalty :: f32
  c_timeout_ms :: u64
  c_max_memory_bytes :: "usize option"

text \<open>The nearest \<open>f32\<close> values of the decimal literals of the source.\<close>

definition f32_0_7 :: f32 where "f32_0_7 = F32 (11744051 / 16777216)"
definition f32_0_9 :: f32 where "f32_0_9 = F32 (15099494 / 16777216)"
definition f32_1_1 :: f32 where "f32_1_1 = F32 (9227469 / 8388608)"

definition config_default :: inference_config where
  "config_default = \<lparr>c_max_tokens = Some 256, c_temperature = f32_0_7, c_top_p = f32_0_9,
     c_top_k = 40, c_repetition_penalty = f32_1_1, c_timeout_ms = 30000,
     c_max_memory_bytes = Some (1024 * 1024 * 1024)\<rparr>"

definition config_validate :: "inference_config \<Rightarrow> engine_error + unit" where
  "config_validate c =
     (if f32_less (c_temperature c) (F32 0) \<or> f32_less (F32 2) (c_temperature c)
        then Inl (EInputValidation ''temperature must be between 0.0 and 2.0'')
      else if f32_le (c_top_p c) (F32 0) \<or> f32_less (F32 1) (c_top_p c)
        then Inl (EInputValidation ''top_p must be in range (0.0, 1.0]'')
      else if f32_less (c_repetition_penalty c) (F32 1)
        then Inl (EInputValidation ''repetition_penalty must be >= 1.0'')
      else if c_timeout_ms c = 0 then Inl (EInputValidation ''timeout_ms must be > 0'')
      else Inr ())"

definition config_for_classification :: inference_config where
  "config_for_classification = \<lparr>c_max_tokens = None, c_temperature = F32 0, c_top_p = F32 1,
     c_top_k = 0, c_repetition_penalty = F32 1, c_timeout_ms = 5000,
     c_max_memory_bytes = Some (512 * 1024 * 1024)\<rparr>"

definition config_for_embedding :: inference_config where
  "config_for_embedding = \<lparr>c_max_tokens = None, c_temperature = F32 0, c_top_p = F32 1,
     c_top_k = 0, c_repetition_penalty = F32 1, c_timeout_ms = 2000,
     c_max_memory_bytes = Some (256 * 1024 * 1024)\<rparr>"

record inference_params =
  p_max_tokens :: usize
  p_temperature :: f32
  p_top_p :: f32
  p_top_k :: usize
  p_stream :: bool
  p_timeout_ms :: "u64 option"

definition params_default :: inference_params where
  "params_default = \<lparr>p_max_tokens = 256, p_temperature = f32_0_7, p_top_p = f32_0_9, p_top_k = 40,
     p_stream = False, p_timeout_ms = None\<rparr>"

definition params_validate :: "inference_params \<Rightarrow> inference_error + unit" where
  "params_validate p =
     (if p_max_tokens p = 0 then Inl (InvalidParams ''max_tokens must be > 0'')
      else if f32_less (p_temperature p) (F32 0) then Inl (InvalidParams ''temperature must be >= 0'')
      else if f32_le (p_top_p p) (F32 0) \<or> f32_less (F32 1) (p_top_p p)
        then Inl (InvalidParams ''top_p must be in (0, 1]'')
      else if p_timeout_ms p = Some 0 then Inl (InvalidParams ''timeout_ms must be > 0'')
      else Inr ())"

text \<open>\<open>as u32\<close> keeps the low 32 bits of a \<open>usize\<close>.\<close>

definition as_u32 :: "usize \<Rightarrow> nat" where
  "as_u32 n = n mod 2 ^ 32"

definition to_config :: "inference_params \<Rightarrow> inference_config" where
  "to_config p = \<lparr>c_max_tokens = Some (as_u32 (p_max_tokens p)), c_temperature = p_temperature p,
     c_top_p = p_top_p p, c_top_k = as_u32 (p_top_k p), c_repetition_penalty = f32_1_1,
     c_timeout_ms = (case p_timeout_ms p of None \<Rightarrow> 30000 | Some t \<Rightarrow> t),
     c_max_memory_bytes = None\<rparr>"

record inference_result =
  r_output :: string
  r_tokens_generated :: usize
  r_finished :: bool

lemmas params_defs [op_defs] = params_validate_def config_validate_def to_config_def as_u32_def

section \<open>Stop control\<close>

type_synonym flag = nat
type_synonym flag_store = "flag \<Rightarrow> bool"

record stop_control =
  sc_cancelled :: "flag option"
  sc_deadline :: "instant option"
  sc_timeout_ms :: u64

definition sc_new :: "flag option \<Rightarrow> instant option \<Rightarrow> u64 \<Rightarrow> stop_control" where
  "sc_new c d t = \<lparr>sc_cancelled = c, sc_deadline = d, sc_timeout_ms = t\<rparr>"

text \<open>
  \<open>Duration::from_millis\<close> in nanoseconds, and \<open>Instant::checked_add\<close>: a timestamp has a signed
  64-bit count of seconds.
\<close>

definition from_millis :: "u64 \<Rightarrow> nat" where
  "from_millis ms = ms * 1000000"

definition instant_limit :: nat where
  "instant_limit = 2 ^ 63 * 1000000000"

definition instant_checked_add :: "instant \<Rightarrow> nat \<Rightarrow> instant option" where
  "instant_checked_add t d = (if t + d < instant_limit then Some (t + d) else None)"

definition sc_from_timeout :: "instant \<Rightarrow> flag option \<Rightarrow> u64 option \<Rightarrow> stop_control" where
  "sc_from_timeout now c t =
     sc_new c (Option.bind t (\<lambda>ms. instant_checked_add now (from_millis ms)))
       (case t of None \<Rightarrow> 0 | Some ms \<Rightarrow> ms)"

definition sc_is_cancelled :: "flag_store \<Rightarrow> stop_control \<Rightarrow> bool" where
  "sc_is_cancelled fl c = (case sc_cancelled c of None \<Rightarrow> False | Some f \<Rightarrow> fl f)"

definition sc_is_expired :: "instant \<Rightarrow> stop_control \<Rightarrow> bool" where
  "sc_is_expired now c = (case sc_deadline c of None \<Rightarrow> False | Some d \<Rightarrow> d \<le> now)"

definition should_stop :: "flag_store \<Rightarrow> instant \<Rightarrow> stop_control \<Rightarrow> bool" where
  "should_stop fl now c \<longleftrightarrow> sc_is_cancelled fl c \<or> sc_is_expired now c"

definition stop_error :: "flag_store \<Rightarrow> instant \<Rightarrow> stop_control \<Rightarrow> inference_error option" where
  "stop_error fl now c =
     (if sc_is_cancelled fl c then Some Cancelled
      else if sc_is_expired now c then Some (DeadlineExceeded (sc_timeout_ms c))
      else None)"

lemmas stop_defs [op_defs] = sc_new_def sc_from_timeout_def sc_is_cancelled_def sc_is_expired_def
  should_stop_def stop_error_def from_millis_def instant_checked_add_def

section \<open>Degraded mode\<close>

record degraded_config =
  allow_context_reduction :: bool
  min_context_tokens :: usize

definition degraded_default :: degraded_config where
  "degraded_default = \<lparr>allow_context_reduction = True, min_context_tokens = 16\<rparr>"

datatype resource_pressure =
    PContext usize usize
  | PMemory usize usize
  | PCapability string

datatype degraded_decision =
    ReduceContextTo usize string
  | Reject string

fun evaluate :: "degraded_config \<Rightarrow> resource_pressure \<Rightarrow> degraded_decision" where
  "evaluate cfg (PContext mx got) =
     (if allow_context_reduction cfg \<and> min_context_tokens cfg \<le> mx
      then ReduceContextTo mx (''context '' @ show_nat got @ '' tok over limit '' @ show_nat mx
             @ ''; reduced to '' @ show_nat mx @ '' (degraded mode)'')
      else Reject (''context '' @ show_nat got @ '' tok over limit '' @ show_nat mx
             @ ''; reduction disabled''))"
| "evaluate cfg (PMemory used limit) =
     Reject (''memory '' @ show_nat used @ ''B over limit '' @ show_nat limit
       @ ''B; no smaller model available'')"
| "evaluate cfg (PCapability name) =
     Reject (''capability '' @ [CHR 0x27] @ name @ [CHR 0x27] @ '' unsupported by the loaded backend'')"

definition truncate_on_char_boundary :: "string \<Rightarrow> usize \<Rightarrow> string" where
  "truncate_on_char_boundary s max_bytes =
     (if length s \<le> max_bytes then s else take (back_to_boundary s max_bytes) s)"

section \<open>Stream frames\<close>

datatype stream_terminal = TermComplete | TermRejected string | TermError string

datatype stream_item = ItemToken nat | ItemText string | ItemEnd stream_terminal

text \<open>
  The sending half of a token stream: what was sent, and which sends find the receiver still there
  (\<open>sk_open n\<close> for the send after \<open>n\<close> frames).
\<close>

record sink =
  sk_items :: "stream_item list"
  sk_open :: "nat \<Rightarrow> bool"

definition send_item :: "stream_item \<Rightarrow> sink \<Rightarrow> bool \<times> sink" where
  "send_item it sk =
     (if sk_open sk (length (sk_items sk)) then (True, sk\<lparr>sk_items := sk_items sk @ [it]\<rparr>) else (False, sk))"

text \<open>\<open>TokenStream::collect\<close>: the tokens up to the terminal; a dropped sender reads as an error.\<close>

fun collect_items :: "stream_item list \<Rightarrow> nat list \<times> stream_terminal" where
  "collect_items [] = ([], TermError ''stream dropped before terminal'')"
| "collect_items (ItemToken t # its) = (let (ts, e) = collect_items its in (t # ts, e))"
| "collect_items (ItemText _ # its) = collect_items its"
| "collect_items (ItemEnd e # its) = ([], e)"

section \<open>Facts the execution paths use\<close>

lemma stop_error_None [simp]: "stop_error fl now c = None \<longleftrightarrow> \<not> should_stop fl now c"
  by (simp add: stop_error_def should_stop_def)

lemma stop_error_cases:
  "stop_error fl now c = Some e \<Longrightarrow> e = Cancelled \<or> e = DeadlineExceeded (sc_timeout_ms c)"
  by (auto simp: stop_error_def split: if_splits)

lemma should_stop_mono:
  assumes "should_stop fl now c" and "now \<le> now'" and "\<And>f. fl f \<Longrightarrow> fl' f"
  shows "should_stop fl' now' c"
  using assms by (auto simp: should_stop_def sc_is_cancelled_def sc_is_expired_def split: option.splits)

lemma truncate_on_char_boundary_length: "length (truncate_on_char_boundary s n) \<le> n"
  using back_to_boundary_le [of s n] by (auto simp: truncate_on_char_boundary_def)

lemma truncate_on_char_boundary_prefix: "\<exists>t. s = truncate_on_char_boundary s n @ t"
  unfolding truncate_on_char_boundary_def by (metis append_Nil2 append_take_drop_id)

text \<open>
  A millisecond timeout of 64 bits never overflows the timestamp for a clock that has run for less
  than \<open>2 ^ 62\<close> seconds, so the unchecked deadline additions of the sources do not panic.
\<close>

lemma deadline_no_overflow:
  assumes "now < 2 ^ 62 * 1000000000" and "ms < two64"
  shows "instant_checked_add now (from_millis ms) = Some (now + from_millis ms)"
  using assms by (simp add: instant_checked_add_def from_millis_def instant_limit_def two64_def)

section \<open>Properties\<close>

text \<open>
  A stopped request always ends in an explicit failure, and stays stopped. Once the stop
  control of a request fires, every later check (later clock, more flags set) yields an error; that
  error is \<open>Cancelled\<close> exactly when the caller's flag is set, and otherwise names the
  request's own timeout.
\<close>

theorem stop_is_explicit_and_stable:
  assumes "should_stop fl now c" and "now \<le> now'" and "\<forall>f. fl f \<longrightarrow> fl' f"
  shows "\<exists>e. stop_error fl' now' c = Some e \<and> (e = Cancelled \<longleftrightarrow> sc_is_cancelled fl' c) \<and>
    (\<not> sc_is_cancelled fl' c \<longrightarrow> e = DeadlineExceeded (sc_timeout_ms c))"
proof -
  have "should_stop fl' now' c"
    using assms by (blast intro: should_stop_mono)
  then show ?thesis
    by (auto simp: stop_error_def should_stop_def)
qed

theorem stop_is_explicit_and_stable_witness:
  "\<exists>e. stop_error (\<lambda>_. False) 7 (sc_from_timeout 0 None (Some 0)) = Some e \<and>
     (e = Cancelled \<longleftrightarrow> sc_is_cancelled (\<lambda>_. False) (sc_from_timeout 0 None (Some 0))) \<and>
     (\<not> sc_is_cancelled (\<lambda>_. False) (sc_from_timeout 0 None (Some 0)) \<longrightarrow>
        e = DeadlineExceeded (sc_timeout_ms (sc_from_timeout 0 None (Some 0))))"
  by (rule stop_is_explicit_and_stable [where fl = "\<lambda>_. False" and now = 5])
    (simp_all add: stop_defs instant_limit_def)

text \<open>
  Accepted request parameters produce an acceptable configuration. If \<open>validate\<close> accepts the
  parameters, the temperature is a number of at most two and the token limit fits 32 bits, then
  \<open>to_config\<close> keeps the limits and its result passes \<open>InferenceConfig::validate\<close>.
\<close>

theorem to_config_valid:
  assumes "params_validate p = Inr ()" and "p_max_tokens p < 2 ^ 32" and "f32_le (p_temperature p) (F32 2)"
  shows "config_validate (to_config p) = Inr () \<and> c_max_tokens (to_config p) = Some (p_max_tokens p) \<and>
    0 < p_max_tokens p"
proof -
  have "\<not> f32_less (F32 2) (p_temperature p)"
    using assms(3) by (cases "p_temperature p") (auto simp: f32_le_def)
  then show ?thesis
    using assms(1,2)
    by (auto simp: params_defs f32_1_1_def split: if_splits option.splits)
qed

theorem to_config_valid_witness:
  "config_validate (to_config params_default) = Inr () \<and>
   c_max_tokens (to_config params_default) = Some (p_max_tokens params_default) \<and>
   0 < p_max_tokens params_default"
  by (rule to_config_valid)
    (simp_all add: params_validate_def params_default_def f32_0_7_def f32_0_9_def f32_le_def)

text \<open>
  The bound on the token limit cannot be dropped: a limit of \<open>2 ^ 32\<close> is accepted and then
  becomes zero, and a NaN temperature passes both validations.
\<close>

lemma max_tokens_wraps_to_zero:
  "params_validate (params_default\<lparr>p_max_tokens := 2 ^ 32\<rparr>) = Inr () \<and>
   c_max_tokens (to_config (params_default\<lparr>p_max_tokens := 2 ^ 32\<rparr>)) = Some 0"
  by (simp add: params_defs params_default_def f32_0_7_def f32_0_9_def f32_le_def)

lemma nan_temperature_accepted:
  "params_validate (params_default\<lparr>p_temperature := F32_NaN\<rparr>) = Inr () \<and>
   config_validate (to_config (params_default\<lparr>p_temperature := F32_NaN\<rparr>)) = Inr ()"
  by (simp add: params_defs params_default_def f32_0_9_def f32_1_1_def f32_le_def)

end
