(* ===== verification/Request_Queue.thy ===== *)
theory Request_Queue
  imports Priority_Queue Engine_Types "HOL-Library.Sublist"
begin

text \<open>
  The request queue of the scheduler (\<open>scheduler/queue.rs\<close>, \<open>scheduler/queued_request.rs\<close>,
  \<open>scheduler/streaming_queue.rs\<close>). Every operation runs under the queue mutex (both enqueue paths
  take it first, so neither sees the other half-done) and is one state transformer here. Cancel flags
  live in the shared store of flags and one-shot response channels in the shared store of replies,
  because the caller holds their other ends.

  The last section is the worker's wait loop against concurrent producers as a step relation: an
  enqueue pushes under the lock and notifies after it, so a notification may be outstanding while the
  worker decides to sleep.
\<close>

section \<open>Shared cells\<close>

type_synonym chan = nat
type_synonym reply = "string + inference_result"

record shared =
  flags :: flag_store
  next_flag :: flag
  replies :: "chan \<Rightarrow> reply option"

definition set_flag :: "flag \<Rightarrow> shared \<Rightarrow> shared" where
  "set_flag f sh = sh\<lparr>flags := (flags sh)(f := True)\<rparr>"

definition new_flag :: "shared \<Rightarrow> flag \<times> shared" where
  "new_flag sh =
     (next_flag sh,
      sh\<lparr>flags := (flags sh)(next_flag sh := False), next_flag := Suc (next_flag sh)\<rparr>)"

definition send_reply :: "chan option \<Rightarrow> reply \<Rightarrow> shared \<Rightarrow> shared" where
  "send_reply tx r sh =
     (case tx of None \<Rightarrow> sh | Some ch \<Rightarrow> sh\<lparr>replies := (replies sh)(ch \<mapsto> r)\<rparr>)"

section \<open>Queued requests\<close>

record queued_request =
  req_id :: u64
  model_id :: string
  prompt :: string
  params :: inference_params
  enqueued_at :: instant
  deadline :: "instant option"
  cancelled :: flag
  response_tx :: "chan option"

definition with_tx ::
  "instant \<Rightarrow> u64 \<Rightarrow> string \<Rightarrow> string \<Rightarrow> inference_params \<Rightarrow> chan option \<Rightarrow> shared \<Rightarrow> queued_request \<times> shared"
where
  "with_tx now i m p ps tx sh =
     (let (f, sh') = new_flag sh
      in (\<lparr>req_id = i, model_id = m, prompt = p, params = ps, enqueued_at = now,
            deadline = map_option (\<lambda>ms. now + from_millis ms) (p_timeout_ms ps),
            cancelled = f, response_tx = tx\<rparr>, sh'))"

definition request_new ::
  "instant \<Rightarrow> u64 \<Rightarrow> string \<Rightarrow> string \<Rightarrow> inference_params \<Rightarrow> shared \<Rightarrow> queued_request \<times> shared"
where
  "request_new now i m p ps sh = with_tx now i m p ps None sh"

definition is_cancelled :: "flag_store \<Rightarrow> queued_request \<Rightarrow> bool" where
  "is_cancelled fl r = fl (cancelled r)"

definition is_expired :: "instant \<Rightarrow> queued_request \<Rightarrow> bool" where
  "is_expired now r = (case deadline r of None \<Rightarrow> False | Some d \<Rightarrow> d < now)"

definition cancel_request :: "queued_request \<Rightarrow> shared \<Rightarrow> shared" where
  "cancel_request r sh = set_flag (cancelled r) sh"

definition stop_control_of :: "queued_request \<Rightarrow> stop_control" where
  "stop_control_of r =
     sc_new (Some (cancelled r)) (deadline r) (case p_timeout_ms (params r) of None \<Rightarrow> 0 | Some t \<Rightarrow> t)"

definition reject_unexecuted :: "instant \<Rightarrow> queued_request \<Rightarrow> shared \<Rightarrow> shared" where
  "reject_unexecuted now r sh =
     (let e = (case stop_error (flags sh) now (stop_control_of r) of None \<Rightarrow> Cancelled | Some e \<Rightarrow> e)
      in send_reply (response_tx r) (Inl (show_inference_error e)) sh)"

record streaming_request =
  st_id :: u64
  st_model_id :: string
  st_prompt :: string
  st_config :: inference_config
  st_enqueued_at :: instant
  st_deadline :: "instant option"
  st_cancelled :: flag
  st_sender :: chan

definition st_is_cancelled :: "flag_store \<Rightarrow> streaming_request \<Rightarrow> bool" where
  "st_is_cancelled fl r = fl (st_cancelled r)"

definition st_is_expired :: "instant \<Rightarrow> streaming_request \<Rightarrow> bool" where
  "st_is_expired now r = (case st_deadline r of None \<Rightarrow> False | Some d \<Rightarrow> d < now)"

section \<open>The queue\<close>

record queue_config =
  max_pending :: usize
  max_context_tokens :: usize

definition queue_config_default :: queue_config where
  "queue_config_default = \<lparr>max_pending = 256, max_context_tokens = 4096\<rparr>"

datatype queue_error =
    QueueFull
  | InvalidTimeout
  | ContextTooLarge usize usize

primrec show_queue_error :: "queue_error \<Rightarrow> string" where
  "show_queue_error QueueFull = ''request queue is full''"
| "show_queue_error InvalidTimeout = ''invalid streaming timeout''"
| "show_queue_error (ContextTooLarge est mx) =
     ''prompt too large: ~'' @ show_nat est @ '' tokens (max '' @ show_nat mx @ '')''"

record request_queue =
  rq_queue :: "queued_request priority_queue"
  rq_streaming :: "streaming_request list"
  rq_next_id :: u64
  rq_config :: queue_config
  rq_permit :: bool

definition queue_new :: "queue_config \<Rightarrow> request_queue" where
  "queue_new cfg = \<lparr>rq_queue = pq_new, rq_streaming = [], rq_next_id = 1, rq_config = cfg, rq_permit = False\<rparr>"

definition BYTES_PER_TOKEN_ESTIMATE :: nat where
  "BYTES_PER_TOKEN_ESTIMATE = 4"

definition check_context :: "string \<Rightarrow> usize \<Rightarrow> queue_error + unit" where
  "check_context p mx =
     (let estimated = length p div BYTES_PER_TOKEN_ESTIMATE
      in if mx < estimated then Inl (ContextTooLarge estimated mx) else Inr ())"

definition notify_one :: "request_queue \<Rightarrow> request_queue" where
  "notify_one rq = rq\<lparr>rq_permit := True\<rparr>"

text \<open>
  The part of \<open>enqueue_inner\<close> up to \<open>drop(queue)\<close>; the notification follows outside the lock.
\<close>

definition enqueue_locked ::
  "instant \<Rightarrow> string \<Rightarrow> string \<Rightarrow> inference_params \<Rightarrow> priority \<Rightarrow> chan option \<Rightarrow> flag option
   \<Rightarrow> request_queue \<Rightarrow> shared \<Rightarrow> (queue_error + u64 \<times> usize) \<times> request_queue \<times> shared"
where
  "enqueue_locked now m p ps prio tx canc rq sh =
     (case check_context p (max_context_tokens (rq_config rq)) of
        Inl e \<Rightarrow> (Inl e, rq, sh)
      | Inr _ \<Rightarrow>
          (let total = pq_len (rq_queue rq) + length (rq_streaming rq)
           in if max_pending (rq_config rq) \<le> total then (Inl QueueFull, rq, sh)
              else
                let i = rq_next_id rq;
                    (r, sh') = with_tx now i m p ps tx sh;
                    r' = (case canc of None \<Rightarrow> r | Some f \<Rightarrow> r\<lparr>cancelled := f\<rparr>);
                    position = pq_len (rq_queue rq)
                in (Inr (i, position),
                    rq\<lparr>rq_next_id := wrap_add i 1, rq_queue := pq_push (rq_queue rq) r' prio\<rparr>,
                    sh')))"

definition notify_if_ok :: "'e + 'a \<Rightarrow> request_queue \<Rightarrow> request_queue" where
  "notify_if_ok res rq = (case res of Inl _ \<Rightarrow> rq | Inr _ \<Rightarrow> notify_one rq)"

definition enqueue_inner ::
  "instant \<Rightarrow> string \<Rightarrow> string \<Rightarrow> inference_params \<Rightarrow> priority \<Rightarrow> chan option \<Rightarrow> flag option
   \<Rightarrow> request_queue \<Rightarrow> shared \<Rightarrow> (queue_error + u64 \<times> usize) \<times> request_queue \<times> shared"
where
  "enqueue_inner now m p ps prio tx canc rq sh =
     (case enqueue_locked now m p ps prio tx canc rq sh of
        (res, rq', sh') \<Rightarrow> (res, notify_if_ok res rq', sh'))"

definition enqueue ::
  "instant \<Rightarrow> string \<Rightarrow> string \<Rightarrow> inference_params \<Rightarrow> priority
   \<Rightarrow> request_queue \<Rightarrow> shared \<Rightarrow> (queue_error + u64 \<times> usize) \<times> request_queue \<times> shared"
where
  "enqueue now m p ps prio rq sh = enqueue_inner now m p ps prio None None rq sh"

definition enqueue_with_response ::
  "instant \<Rightarrow> string \<Rightarrow> string \<Rightarrow> inference_params \<Rightarrow> priority \<Rightarrow> chan
   \<Rightarrow> request_queue \<Rightarrow> shared \<Rightarrow> (queue_error + u64) \<times> request_queue \<times> shared"
where
  "enqueue_with_response now m p ps prio tx rq sh =
     (case enqueue_inner now m p ps prio (Some tx) None rq sh of
        (Inl e, rq', sh') \<Rightarrow> (Inl e, rq', sh')
      | (Inr (i, pos), rq', sh') \<Rightarrow> (Inr i, rq', sh'))"

definition enqueue_controlled ::
  "instant \<Rightarrow> string \<Rightarrow> string \<Rightarrow> inference_params \<Rightarrow> priority \<Rightarrow> chan \<Rightarrow> flag
   \<Rightarrow> request_queue \<Rightarrow> shared \<Rightarrow> (queue_error + u64) \<times> request_queue \<times> shared"
where
  "enqueue_controlled now m p ps prio tx f rq sh =
     (case enqueue_inner now m p ps prio (Some tx) (Some f) rq sh of
        (Inl e, rq', sh') \<Rightarrow> (Inl e, rq', sh')
      | (Inr (i, pos), rq', sh') \<Rightarrow> (Inr i, rq', sh'))"

fun cancel_first :: "u64 \<Rightarrow> queued_request list \<Rightarrow> shared \<Rightarrow> bool \<times> shared" where
  "cancel_first i [] sh = (False, sh)"
| "cancel_first i (r # rs) sh =
     (if req_id r = i then (True, cancel_request r sh) else cancel_first i rs sh)"

definition cancel :: "u64 \<Rightarrow> request_queue \<Rightarrow> shared \<Rightarrow> bool \<times> shared" where
  "cancel i rq sh = cancel_first i (pq_iter (rq_queue rq)) sh"

lemma pq_pop_length: "pq_pop q = Some (r, q') \<Longrightarrow> length (heap q') < length (heap q)"
  by (auto simp: pq_pop_def length_remove1 split: option.splits dest!: heap_max_Some)
    (metis Suc_pred length_pos_if_in_set lessI)

text \<open>
  The dequeue loop reads the clock once per examined request and once more when it rejects one;
  \<open>clk k\<close> is the \<open>k\<close>-th reading.
\<close>

function dequeue_loop ::
  "(nat \<Rightarrow> instant) \<Rightarrow> nat \<Rightarrow> queued_request priority_queue \<Rightarrow> shared
   \<Rightarrow> queued_request option \<times> queued_request priority_queue \<times> shared"
where
  "dequeue_loop clk k q sh =
     (case pq_pop q of
        None \<Rightarrow> (None, q, sh)
      | Some (r, q') \<Rightarrow>
          if is_cancelled (flags sh) r \<or> is_expired (clk k) r
          then dequeue_loop clk (k + 2) q' (reject_unexecuted (clk (k + 1)) r sh)
          else (Some r, q', sh))"
  by pat_completeness auto
termination
  by (relation "measure (\<lambda>(clk, k, q, sh). length (heap q))") (auto dest: pq_pop_length)

declare dequeue_loop.simps [simp del]

text \<open>Induction over the runs of the loop.\<close>

lemma dequeue_loop_run [consumes 1, case_names empty dead live]:
  assumes "dequeue_loop clk k q sh = (res, q', sh')"
    and "\<And>k q sh. pq_pop q = None \<Longrightarrow> P k q sh None q sh"
    and "\<And>k q sh r q1 res q' sh'. pq_pop q = Some (r, q1) \<Longrightarrow>
      is_cancelled (flags sh) r \<or> is_expired (clk k) r \<Longrightarrow>
      dequeue_loop clk (k + 2) q1 (reject_unexecuted (clk (k + 1)) r sh) = (res, q', sh') \<Longrightarrow>
      P (k + 2) q1 (reject_unexecuted (clk (k + 1)) r sh) res q' sh' \<Longrightarrow> P k q sh res q' sh'"
    and "\<And>k q sh r q1. pq_pop q = Some (r, q1) \<Longrightarrow> \<not> is_cancelled (flags sh) r \<Longrightarrow>
      \<not> is_expired (clk k) r \<Longrightarrow> P k q sh (Some r) q1 sh"
  shows "P k q sh res q' sh'"
  using assms
proof (induction clk k q sh rule: dequeue_loop.induct)
  case (1 clk k q sh)
  show ?case
  proof (cases "pq_pop q")
    case None
    with "1.prems"(1,2) show ?thesis by (simp add: dequeue_loop.simps [of clk k q sh])
  next
    case (Some rq)
    obtain r q1 where rq: "rq = (r, q1)" by (cases rq)
    show ?thesis
    proof (cases "is_cancelled (flags sh) r \<or> is_expired (clk k) r")
      case True
      then have step: "dequeue_loop clk (k + 2) q1 (reject_unexecuted (clk (k + 1)) r sh) = (res, q', sh')"
        using Some rq "1.prems"(1) by (simp add: dequeue_loop.simps [of clk k q sh])
      have "P (k + 2) q1 (reject_unexecuted (clk (k + 1)) r sh) res q' sh'"
        by (rule "1.IH" [OF Some rq [symmetric] True step]) (fact "1.prems"(2-4))+
      with Some rq True step show ?thesis
        by (intro "1.prems"(3) [of q r q1 sh k res q' sh']) simp_all
    next
      case False
      with Some rq "1.prems"(1,4) show ?thesis
        by (auto simp: dequeue_loop.simps [of clk k q sh])
    qed
  qed
qed

definition dequeue ::
  "(nat \<Rightarrow> instant) \<Rightarrow> request_queue \<Rightarrow> shared \<Rightarrow> queued_request option \<times> request_queue \<times> shared"
where
  "dequeue clk rq sh =
     (case dequeue_loop clk 0 (rq_queue rq) sh of (r, q, sh') \<Rightarrow> (r, rq\<lparr>rq_queue := q\<rparr>, sh'))"

definition wake :: "request_queue \<Rightarrow> request_queue" where
  "wake rq = notify_one rq"

definition rq_len :: "request_queue \<Rightarrow> usize" where
  "rq_len rq = pq_len (rq_queue rq)"

definition rq_is_empty :: "request_queue \<Rightarrow> bool" where
  "rq_is_empty rq = pq_is_empty (rq_queue rq)"

definition enqueue_streaming_locked ::
  "instant \<Rightarrow> instant \<Rightarrow> string \<Rightarrow> string \<Rightarrow> inference_config \<Rightarrow> chan \<Rightarrow> flag
   \<Rightarrow> request_queue \<Rightarrow> (queue_error + u64) \<times> request_queue"
where
  "enqueue_streaming_locked now now' m p cfg tx f rq =
     (case check_context p (max_context_tokens (rq_config rq)) of
        Inl e \<Rightarrow> (Inl e, rq)
      | Inr _ \<Rightarrow>
          if c_timeout_ms cfg = 0 then (Inl InvalidTimeout, rq)
          else
            (case instant_checked_add now (from_millis (c_timeout_ms cfg)) of
               None \<Rightarrow> (Inl InvalidTimeout, rq)
             | Some d \<Rightarrow>
                 if max_pending (rq_config rq) \<le> pq_len (rq_queue rq) + length (rq_streaming rq)
                 then (Inl QueueFull, rq)
                 else
                   let i = rq_next_id rq;
                       r = \<lparr>st_id = i, st_model_id = m, st_prompt = p, st_config = cfg,
                            st_enqueued_at = now', st_deadline = Some d, st_cancelled = f, st_sender = tx\<rparr>
                   in (Inr i, rq\<lparr>rq_next_id := wrap_add i 1, rq_streaming := rq_streaming rq @ [r]\<rparr>)))"

definition enqueue_streaming_controlled ::
  "instant \<Rightarrow> instant \<Rightarrow> string \<Rightarrow> string \<Rightarrow> inference_config \<Rightarrow> chan \<Rightarrow> flag
   \<Rightarrow> request_queue \<Rightarrow> (queue_error + u64) \<times> request_queue"
where
  "enqueue_streaming_controlled now now' m p cfg tx f rq =
     (case enqueue_streaming_locked now now' m p cfg tx f rq of
        (res, rq') \<Rightarrow> (res, notify_if_ok res rq'))"

definition enqueue_streaming ::
  "instant \<Rightarrow> instant \<Rightarrow> string \<Rightarrow> string \<Rightarrow> inference_config \<Rightarrow> chan
   \<Rightarrow> request_queue \<Rightarrow> shared \<Rightarrow> (queue_error + u64) \<times> request_queue \<times> shared"
where
  "enqueue_streaming now now' m p cfg tx rq sh =
     (let (f, sh') = new_flag sh;
          (res, rq') = enqueue_streaming_controlled now now' m p cfg tx f rq
      in (res, rq', sh'))"

definition dequeue_streaming :: "request_queue \<Rightarrow> streaming_request option \<times> request_queue" where
  "dequeue_streaming rq =
     (case rq_streaming rq of
        [] \<Rightarrow> (None, rq)
      | r # rs \<Rightarrow> (Some r, rq\<lparr>rq_streaming := rs\<rparr>))"

definition streaming_len :: "request_queue \<Rightarrow> usize" where
  "streaming_len rq = length (rq_streaming rq)"

lemmas rq_defs [op_defs] = queue_new_def notify_one_def notify_if_ok_def wake_def rq_len_def streaming_len_def
  dequeue_streaming_def

section \<open>Serving order\<close>

definition service_order :: "request_queue \<Rightarrow> queued_request list" where
  "service_order rq = concat (map (pq_lanes (rq_queue rq)) levels)"

lemma service_order_backlog: "service_order rq = pq.backlog (rq_queue rq)"
  by (simp add: service_order_def pq.backlog_def)

text \<open>A reply that tells the caller its request was stopped before it ran.\<close>

definition stop_reply :: "reply option \<Rightarrow> bool" where
  "stop_reply v \<longleftrightarrow>
     (\<exists>e. v = Some (Inl (show_inference_error e)) \<and> (e = Cancelled \<or> (\<exists>t. e = DeadlineExceeded t)))"

lemma flags_send_reply [simp]: "flags (send_reply tx r sh) = flags sh"
  by (simp add: send_reply_def split: option.splits)

lemma flags_reject [simp]: "flags (reject_unexecuted now r sh) = flags sh"
  by (simp add: reject_unexecuted_def Let_def)

lemma reject_replies:
  assumes "response_tx r = Some ch"
  shows "stop_reply (replies (reject_unexecuted now r sh) ch)"
proof -
  let ?e = "case stop_error (flags sh) now (stop_control_of r) of None \<Rightarrow> Cancelled | Some e \<Rightarrow> e"
  have "?e = Cancelled \<or> (\<exists>t. ?e = DeadlineExceeded t)"
    by (simp add: stop_error_def)
  moreover have "replies (reject_unexecuted now r sh) ch = Some (Inl (show_inference_error ?e))"
    using assms by (simp add: reject_unexecuted_def Let_def send_reply_def)
  ultimately show ?thesis
    unfolding stop_reply_def by blast
qed

lemma reject_keeps_stop_reply:
  "stop_reply (replies sh ch) \<Longrightarrow> stop_reply (replies (reject_unexecuted now r sh) ch)"
  using reject_replies [of r ch now sh]
  by (cases "response_tx r = Some ch")
    (auto simp: reject_unexecuted_def Let_def send_reply_def split: option.splits)

lemma dequeue_loop_keeps_stop_reply:
  assumes "dequeue_loop clk k q sh = (res, q', sh')" and "stop_reply (replies sh ch)"
  shows "stop_reply (replies sh' ch)"
  using assms by (induction rule: dequeue_loop_run) (auto intro: reject_keeps_stop_reply)

text \<open>
  The loop splits the service order into a prefix of dead requests, each of which is answered with an
  explicit failure, and a live request that it returns.
\<close>

definition dequeue_splits ::
  "(nat \<Rightarrow> instant) \<Rightarrow> nat \<Rightarrow> queued_request list \<Rightarrow> shared \<Rightarrow> queued_request option
   \<Rightarrow> queued_request list \<Rightarrow> shared \<Rightarrow> bool"
where
  "dequeue_splits clk k waiting sh res waiting' sh' \<longleftrightarrow>
     (\<exists>dead rest. waiting = dead @ rest \<and>
        (\<forall>i < length dead. is_cancelled (flags sh) (dead ! i) \<or> is_expired (clk (k + 2 * i)) (dead ! i)) \<and>
        res = (case rest of [] \<Rightarrow> None | r # _ \<Rightarrow> Some r) \<and> waiting' = tl rest \<and>
        (\<forall>r. res = Some r \<longrightarrow>
           \<not> is_cancelled (flags sh) r \<and> \<not> is_expired (clk (k + 2 * length dead)) r) \<and>
        (\<forall>r \<in> set dead. \<forall>ch. response_tx r = Some ch \<longrightarrow> stop_reply (replies sh' ch)))"

lemma dequeue_splits_Cons:
  assumes dead: "is_cancelled (flags sh) r \<or> is_expired (clk k) r"
    and rest: "dequeue_splits clk (k + 2) ws sh1 res ws' sh'" and "flags sh1 = flags sh"
    and reply: "\<And>ch. response_tx r = Some ch \<Longrightarrow> stop_reply (replies sh' ch)"
  shows "dequeue_splits clk k (r # ws) sh res ws' sh'"
proof -
  obtain ds rest where *: "ws = ds @ rest"
    "\<forall>i < length ds. is_cancelled (flags sh) (ds ! i) \<or> is_expired (clk (k + 2 + 2 * i)) (ds ! i)"
    "res = (case rest of [] \<Rightarrow> None | r # _ \<Rightarrow> Some r)" "ws' = tl rest"
    "\<forall>r. res = Some r \<longrightarrow> \<not> is_cancelled (flags sh) r \<and> \<not> is_expired (clk (k + 2 + 2 * length ds)) r"
    "\<forall>r \<in> set ds. \<forall>ch. response_tx r = Some ch \<longrightarrow> stop_reply (replies sh' ch)"
    using rest assms(3) unfolding dequeue_splits_def by auto
  have "is_cancelled (flags sh) ((r # ds) ! i) \<or> is_expired (clk (k + 2 * i)) ((r # ds) ! i)"
    if "i < length (r # ds)" for i
    using that dead *(2) by (cases i) auto
  then show ?thesis
    unfolding dequeue_splits_def using * reply
    by (intro exI [of _ "r # ds"] exI [of _ rest]) auto
qed

lemma dequeue_splits_live:
  "\<not> is_cancelled (flags sh) r \<Longrightarrow> \<not> is_expired (clk k) r \<Longrightarrow>
   dequeue_splits clk k (r # ws) sh (Some r) ws sh'"
  unfolding dequeue_splits_def by (intro exI [of _ "[]"] exI [of _ "r # ws"]) simp

lemma dequeue_loop_spec:
  assumes "dequeue_loop clk k q sh = (res, q', sh')" and "pq_wf q"
  shows "pq_wf q' \<and> flags sh' = flags sh \<and>
    dequeue_splits clk k (pq.backlog q) sh res (pq.backlog q') sh'"
  using assms
proof (induction rule: dequeue_loop_run)
  case (empty k q sh)
  then have "pq.backlog q = []"
    by (simp add: pq.pop_None_backlog)
  with empty show ?case by (auto simp: dequeue_splits_def)
next
  case (dead k q sh r q1 res q' sh')
  let ?sh = "reject_unexecuted (clk (k + 1)) r sh"
  have bl: "pq.backlog q = r # pq.backlog q1" and "pq_wf q1"
    using dead by (auto intro: pq.pop_backlog pq_wf_pop)
  then have IH: "pq_wf q'" "flags sh' = flags sh"
    "dequeue_splits clk (k + 2) (pq.backlog q1) ?sh res (pq.backlog q') sh'"
    using dead(4) by simp_all
  have "stop_reply (replies sh' ch)" if "response_tx r = Some ch" for ch
    using dead(3) reject_replies [OF that] by (rule dequeue_loop_keeps_stop_reply)
  with IH dead(2) show ?case
    unfolding bl by (auto intro!: dequeue_splits_Cons [where ?sh1.0 = ?sh])
next
  case (live k q sh r q1)
  then show ?case by (auto simp: pq.pop_backlog dequeue_splits_live intro: pq_wf_pop)
qed

section \<open>Reachable queues\<close>

text \<open>
  The two counters of a queue are 64 bits wide; \<open>rq_room\<close> says that neither is about to wrap, which
  takes \<open>2 ^ 64\<close> admissions.
\<close>

definition rq_room :: "request_queue \<Rightarrow> bool" where
  "rq_room rq \<longleftrightarrow> pq_room (rq_queue rq) \<and> Suc (rq_next_id rq) < two64"

definition waiting_ids :: "request_queue \<Rightarrow> u64 list" where
  "waiting_ids rq = map req_id (pq_iter (rq_queue rq)) @ map st_id (rq_streaming rq)"

definition rq_wf :: "request_queue \<Rightarrow> bool" where
  [inv_defs]: "rq_wf rq \<longleftrightarrow>
     pq_wf (rq_queue rq) \<and> rq_len rq + streaming_len rq \<le> max_pending (rq_config rq) \<and>
     distinct (waiting_ids rq) \<and> set (waiting_ids rq) \<subseteq> {..<rq_next_id rq}"

inductive rq_step :: "request_queue \<times> shared \<Rightarrow> request_queue \<times> shared \<Rightarrow> bool" where
  step_enqueue:
    "rq_room rq \<Longrightarrow> (\<And>f. canc = Some f \<Longrightarrow> f < next_flag sh) \<Longrightarrow>
     enqueue_inner now m p ps prio tx canc rq sh = (res, rq', sh') \<Longrightarrow> rq_step (rq, sh) (rq', sh')"
| step_streaming:
    "rq_room rq \<Longrightarrow> enqueue_streaming_controlled now now' m p cfg stx f rq = (sres, rq') \<Longrightarrow>
     rq_step (rq, sh) (rq', sh)"
| step_cancel: "cancel i rq sh = (b, sh') \<Longrightarrow> rq_step (rq, sh) (rq, sh')"
| step_client_cancel: "rq_step (rq, sh) (rq, set_flag f sh)"
| step_dequeue: "dequeue clk rq sh = (r, rq', sh') \<Longrightarrow> rq_step (rq, sh) (rq', sh')"
| step_dequeue_streaming: "dequeue_streaming rq = (sr, rq') \<Longrightarrow> rq_step (rq, sh) (rq', sh)"
| step_wake: "rq_step (rq, sh) (wake rq, sh)"
| step_notified: "rq_permit rq \<Longrightarrow> rq_step (rq, sh) (rq\<lparr>rq_permit := False\<rparr>, sh)"

lemma subseq_remove1: "subseq (remove1 x xs) xs"
  by (induction xs) auto

lemma subseq_distinct: "subseq xs ys \<Longrightarrow> distinct ys \<Longrightarrow> distinct xs"
  by (induction rule: list_emb.induct) (auto dest: list_emb_set)

lemma subseq_set: "subseq xs ys \<Longrightarrow> set xs \<subseteq> set ys"
  by (auto dest: list_emb_set)

lemma pq_pop_subseq: "pq_pop q = Some (x, q') \<Longrightarrow> subseq (heap q') (heap q)"
  by (auto simp: pq_pop_def subseq_remove1 split: option.splits)

lemma dequeue_loop_subseq:
  assumes "dequeue_loop clk k q sh = (res, q', sh')"
  shows "subseq (heap q') (heap q)"
  using assms
  by (induction rule: dequeue_loop_run) (auto dest: pq_pop_subseq intro: subseq_order.trans)

lemma dequeue_subseq:
  assumes "dequeue clk rq sh = (res, rq', sh')"
  shows "subseq (waiting_ids rq') (waiting_ids rq)" "subseq (pq_iter (rq_queue rq')) (pq_iter (rq_queue rq))"
    "rq_len rq' \<le> rq_len rq" "rq_streaming rq' = rq_streaming rq" "rq_config rq' = rq_config rq"
    "rq_next_id rq' = rq_next_id rq" "rq_permit rq' = rq_permit rq"
  using assms
  by (auto simp: dequeue_def waiting_ids_def pq_iter_def rq_len_def pq_len_def
      intro!: subseq_map list_emb_append_mono list_emb_length split: prod.splits dest!: dequeue_loop_subseq)

definition admitted_request ::
  "instant \<Rightarrow> string \<Rightarrow> string \<Rightarrow> inference_params \<Rightarrow> chan option \<Rightarrow> flag option
   \<Rightarrow> request_queue \<Rightarrow> shared \<Rightarrow> queued_request"
where
  "admitted_request now m p ps tx canc rq sh =
     \<lparr>req_id = rq_next_id rq, model_id = m, prompt = p, params = ps, enqueued_at = now,
      deadline = map_option (\<lambda>ms. now + from_millis ms) (p_timeout_ms ps),
      cancelled = (case canc of None \<Rightarrow> next_flag sh | Some f \<Rightarrow> f), response_tx = tx\<rparr>"

lemma enqueue_locked_cases:
  assumes "enqueue_locked now m p ps prio tx canc rq sh = (res, rq', sh')"
  obtains (rejected) e where "res = Inl e" "rq' = rq" "sh' = sh"
  | (admitted) "res = Inr (rq_next_id rq, rq_len rq)" "sh' = snd (new_flag sh)"
      "length p div BYTES_PER_TOKEN_ESTIMATE \<le> max_context_tokens (rq_config rq)"
      "rq_len rq + streaming_len rq < max_pending (rq_config rq)"
      "rq' = rq\<lparr>rq_next_id := wrap_add (rq_next_id rq) 1,
        rq_queue := pq_push (rq_queue rq) (admitted_request now m p ps tx canc rq sh) prio\<rparr>"
  using assms
  by (auto simp: enqueue_locked_def check_context_def Let_def with_tx_def new_flag_def rq_len_def
      streaming_len_def not_le admitted_request_def split: if_splits option.splits)

definition admitted_stream ::
  "instant \<Rightarrow> instant \<Rightarrow> string \<Rightarrow> string \<Rightarrow> inference_config \<Rightarrow> chan \<Rightarrow> flag \<Rightarrow> request_queue \<Rightarrow> streaming_request"
where
  "admitted_stream d now' m p cfg tx f rq =
     \<lparr>st_id = rq_next_id rq, st_model_id = m, st_prompt = p, st_config = cfg,
      st_enqueued_at = now', st_deadline = Some d, st_cancelled = f, st_sender = tx\<rparr>"

lemma enqueue_streaming_locked_Inl:
  "enqueue_streaming_locked now now' m p cfg tx f rq = (Inl e, rq') \<Longrightarrow> rq' = rq"
  by (simp add: enqueue_streaming_locked_def Let_def split: if_splits option.splits sum.splits)

lemma enqueue_streaming_locked_Inr:
  "enqueue_streaming_locked now now' m p cfg tx f rq = (Inr i, rq') \<Longrightarrow>
   i = rq_next_id rq \<and> c_timeout_ms cfg \<noteq> 0 \<and>
   rq_len rq + streaming_len rq < max_pending (rq_config rq) \<and>
   rq' = rq\<lparr>rq_next_id := wrap_add (rq_next_id rq) 1,
        rq_streaming := rq_streaming rq @
          [admitted_stream (now + from_millis (c_timeout_ms cfg)) now' m p cfg tx f rq]\<rparr>"
  by (auto simp add: enqueue_streaming_locked_def check_context_def Let_def rq_len_def
      streaming_len_def not_le admitted_stream_def instant_checked_add_def split: if_splits)

lemma enqueue_streaming_locked_cases:
  assumes "enqueue_streaming_locked now now' m p cfg tx f rq = (res, rq')"
  obtains (rejected) e where "res = Inl e" "rq' = rq"
  | (admitted) "res = Inr (rq_next_id rq)" "c_timeout_ms cfg \<noteq> 0"
      "rq_len rq + streaming_len rq < max_pending (rq_config rq)"
      "rq' = rq\<lparr>rq_next_id := wrap_add (rq_next_id rq) 1,
        rq_streaming := rq_streaming rq @
          [admitted_stream (now + from_millis (c_timeout_ms cfg)) now' m p cfg tx f rq]\<rparr>"
proof (cases res)
  case (Inl e)
  with assms show thesis
    using enqueue_streaming_locked_Inl that(1) by blast
next
  case (Inr i)
  with assms show thesis
    using enqueue_streaming_locked_Inr that(2) by blast
qed

text \<open>Notifying, waking and consuming a permit change nothing that the invariant reads.\<close>

lemma rq_wf_permit [simp]: "rq_wf (rq\<lparr>rq_permit := b\<rparr>) \<longleftrightarrow> rq_wf rq"
  by (simp add: rq_wf_def waiting_ids_def rq_len_def streaming_len_def)

lemma rq_wf_notify [simp]: "rq_wf (notify_one rq) \<longleftrightarrow> rq_wf rq" "rq_wf (notify_if_ok res rq) \<longleftrightarrow> rq_wf rq"
  by (simp_all add: notify_one_def notify_if_ok_def split: sum.splits)

lemma rq_wf_new: "rq_wf (queue_new cfg)"
  by (simp add: rq_wf_def queue_new_def waiting_ids_def rq_len_def streaming_len_def pq_defs pq_wf_def)

lemma pq_iter_push [simp]: "pq_iter (pq_push q x p) = pq_iter q @ [x]"
  by (simp add: pq_iter_def pq_push_def Let_def)

lemma pq_len_push [simp]: "pq_len (pq_push q x p) = Suc (pq_len q)"
  by (simp add: pq_len_def pq_push_def Let_def)

lemma rq_wf_enqueue_locked:
  assumes "rq_wf rq" and "rq_room rq" and "enqueue_locked now m p ps prio tx canc rq sh = (res, rq', sh')"
  shows "rq_wf rq'"
  using assms(3)
proof (cases rule: enqueue_locked_cases)
  case admitted
  with assms(1,2) show ?thesis
    by (auto simp: rq_wf_def waiting_ids_def rq_len_def streaming_len_def admitted_request_def
        rq_room_def pq_wf_push)
qed (use assms in simp)

lemma rq_wf_enqueue_streaming_locked:
  assumes "rq_wf rq" and "rq_room rq" and "enqueue_streaming_locked now now' m p cfg tx f rq = (res, rq')"
  shows "rq_wf rq'"
  using assms(3)
proof (cases rule: enqueue_streaming_locked_cases)
  case admitted
  with assms(1,2) show ?thesis
    by (auto simp: rq_wf_def waiting_ids_def rq_len_def streaming_len_def rq_room_def admitted_stream_def)
qed (use assms in simp)

lemma rq_wf_dequeue:
  assumes "rq_wf rq" and deq: "dequeue clk rq sh = (res, rq', sh')"
  shows "rq_wf rq'"
proof -
  have "pq_wf (rq_queue rq')"
    using assms by (auto simp: dequeue_def rq_wf_def split: prod.splits dest: dequeue_loop_spec)
  with assms(1) dequeue_subseq [OF deq] show ?thesis
    by (auto simp: rq_wf_def streaming_len_def dest: subseq_distinct subseq_set)
qed

lemma rq_wf_dequeue_streaming:
  assumes "rq_wf rq" and "dequeue_streaming rq = (res, rq')"
  shows "rq_wf rq'"
proof (cases "rq_streaming rq")
  case (Cons r rs)
  with assms(2) have rq': "rq' = rq\<lparr>rq_streaming := rs\<rparr>"
    by (simp add: dequeue_streaming_def)
  have "subseq (waiting_ids rq') (waiting_ids rq)"
    by (auto simp: waiting_ids_def rq' Cons intro: list_emb_append_mono)
  with assms(1) Cons show ?thesis
    by (auto simp: rq_wf_def rq_len_def streaming_len_def rq' dest: subseq_distinct subseq_set)
qed (use assms in \<open>simp add: dequeue_streaming_def\<close>)

lemma rq_config_notify [simp]: "rq_config (notify_if_ok res rq) = rq_config rq"
  by (simp add: notify_if_ok_def notify_one_def split: sum.splits)

lemma rq_config_enqueue_locked:
  "enqueue_locked now m p ps prio tx canc rq sh = (res, rq', sh') \<Longrightarrow> rq_config rq' = rq_config rq"
  by (erule enqueue_locked_cases) simp_all

lemma rq_config_enqueue_streaming_locked:
  "enqueue_streaming_locked now now' m p cfg tx f rq = (res, rq') \<Longrightarrow> rq_config rq' = rq_config rq"
  by (erule enqueue_streaming_locked_cases) simp_all

lemma rq_config_dequeue_streaming:
  "dequeue_streaming rq = (res, rq') \<Longrightarrow> rq_config rq' = rq_config rq"
  by (auto simp: dequeue_streaming_def split: list.splits)

lemma rq_wf_step:
  assumes "rq_step (rq, sh) (rq', sh')" and "rq_wf rq"
  shows "rq_wf rq' \<and> rq_config rq' = rq_config rq"
  using assms
proof (cases rule: rq_step.cases)
  case (step_enqueue canc now m p ps prio tx res)
  obtain q where "enqueue_locked now m p ps prio tx canc rq sh = (res, q, sh')"
    and "rq' = notify_if_ok res q"
    using step_enqueue by (auto simp: enqueue_inner_def split: prod.splits)
  with step_enqueue(1) assms(2) show ?thesis
    by (simp add: rq_wf_enqueue_locked rq_config_enqueue_locked)
next
  case (step_streaming now now' m p cfg stx f sres)
  obtain q where "enqueue_streaming_locked now now' m p cfg stx f rq = (sres, q)"
    and "rq' = notify_if_ok sres q"
    using step_streaming by (auto simp: enqueue_streaming_controlled_def split: prod.splits)
  with step_streaming(2) assms(2) show ?thesis
    by (simp add: rq_wf_enqueue_streaming_locked rq_config_enqueue_streaming_locked)
next
  case step_dequeue
  with assms(2) show ?thesis by (blast intro: rq_wf_dequeue dest: dequeue_subseq(5))
next
  case step_dequeue_streaming
  with assms(2) show ?thesis by (blast intro: rq_wf_dequeue_streaming dest: rq_config_dequeue_streaming)
qed (simp_all add: wake_def notify_one_def)

lemma rq_wf_reach:
  assumes "rq_step\<^sup>*\<^sup>* (queue_new cfg, sh0) (rq, sh)"
  shows "rq_wf rq \<and> rq_config rq = cfg"
  using assms
proof (induction rule: rtranclp_induct2)
  case refl
  then show ?case by (simp add: rq_wf_new) (simp add: queue_new_def)
next
  case step
  then show ?case by (auto dest: rq_wf_step)
qed

subsection \<open>Cancellation\<close>

text \<open>
  The requests with an id in \<open>I\<close> are cancelled, and will stay so: flags are allocated above \<open>next_flag\<close>
  and ids above \<open>rq_next_id\<close>.
\<close>

definition marked :: "u64 set \<Rightarrow> request_queue \<Rightarrow> shared \<Rightarrow> bool" where
  "marked I rq sh \<longleftrightarrow> I \<subseteq> {..<rq_next_id rq} \<and>
     (\<forall>r \<in> set (pq_iter (rq_queue rq)). cancelled r < next_flag sh \<and>
        (req_id r \<in> I \<longrightarrow> flags sh (cancelled r)))"

lemma cancel_first_spec:
  "cancel_first i rs sh = (b, sh') \<Longrightarrow>
   (b \<longleftrightarrow> i \<in> req_id ` set rs) \<and> next_flag sh' = next_flag sh \<and> replies sh' = replies sh \<and>
   (\<forall>f. flags sh f \<longrightarrow> flags sh' f)"
  by (induction rs) (auto simp: cancel_request_def set_flag_def split: if_splits)

lemma cancel_first_sets:
  "cancel_first i rs sh = (b, sh') \<Longrightarrow> distinct (map req_id rs) \<Longrightarrow> r \<in> set rs \<Longrightarrow> req_id r = i \<Longrightarrow>
   flags sh' (cancelled r)"
  by (induction rs) (auto simp: cancel_request_def set_flag_def split: if_splits)

lemma marked_mono:
  assumes "marked I rq sh" and "\<And>f. flags sh f \<Longrightarrow> f < next_flag sh \<Longrightarrow> flags sh' f"
    and "next_flag sh \<le> next_flag sh'" and "set (pq_iter (rq_queue rq')) \<subseteq> set (pq_iter (rq_queue rq))"
    and "rq_next_id rq \<le> rq_next_id rq'"
  shows "marked I rq' sh'"
  using assms(1,4,5) unfolding marked_def by (force intro: assms(2) order.strict_trans2 [OF _ assms(3)])

lemma marked_notify [simp]: "marked I (notify_if_ok res rq) sh \<longleftrightarrow> marked I rq sh"
  by (simp add: marked_def notify_if_ok_def notify_one_def split: sum.splits)

lemma admitted_request_id [simp]: "req_id (admitted_request now m p ps tx canc rq sh) = rq_next_id rq"
  by (simp add: admitted_request_def)

lemma admitted_request_flag:
  "(\<And>f. canc = Some f \<Longrightarrow> f < next_flag sh) \<Longrightarrow>
   cancelled (admitted_request now m p ps tx canc rq sh) < Suc (next_flag sh)"
  by (cases canc) (auto simp: admitted_request_def less_Suc_eq)

lemma marked_enqueue_locked:
  assumes "marked I rq sh" and "rq_room rq" and "\<And>f. canc = Some f \<Longrightarrow> f < next_flag sh"
    and "enqueue_locked now m p ps prio tx canc rq sh = (res, rq', sh')"
  shows "marked I rq' sh'"
  using assms(4)
proof (cases rule: enqueue_locked_cases)
  case admitted
  with assms(1,2) admitted_request_flag [OF assms(3)] show ?thesis
    by (auto simp: marked_def rq_room_def new_flag_def less_Suc_eq)
qed (use assms in simp)

lemma marked_enqueue_streaming_locked:
  assumes "marked I rq sh" and "rq_room rq"
    and "enqueue_streaming_locked now now' m p cfg tx f rq = (res, rq')"
  shows "marked I rq' sh"
  using assms(3)
proof (cases rule: enqueue_streaming_locked_cases)
  case admitted
  with assms(1,2) show ?thesis by (auto simp: marked_def rq_room_def)
qed (use assms in simp)

lemma next_flag_reject [simp]: "next_flag (reject_unexecuted now r sh) = next_flag sh"
  by (simp add: reject_unexecuted_def send_reply_def Let_def split: option.splits)

lemma dequeue_loop_flags:
  assumes "dequeue_loop clk k q sh = (res, q', sh')"
  shows "flags sh' = flags sh \<and> next_flag sh' = next_flag sh"
  using assms by (induction rule: dequeue_loop_run) simp_all

lemma dequeue_flags: "dequeue clk rq sh = (res, rq', sh') \<Longrightarrow> flags sh' = flags sh \<and> next_flag sh' = next_flag sh"
  by (auto simp: dequeue_def split: prod.splits dest: dequeue_loop_flags)

lemma marked_step:
  assumes "rq_step (rq, sh) (rq', sh')" and "marked I rq sh"
  shows "marked I rq' sh'"
  using assms
proof (cases rule: rq_step.cases)
  case (step_enqueue canc now m p ps prio tx res)
  obtain q where q: "enqueue_locked now m p ps prio tx canc rq sh = (res, q, sh')"
    and "rq' = notify_if_ok res q"
    using step_enqueue by (auto simp: enqueue_inner_def split: prod.splits)
  then show ?thesis
    using marked_enqueue_locked [OF assms(2) step_enqueue(1) step_enqueue(2) q] by simp
next
  case (step_streaming now now' m p cfg stx f sres)
  obtain q where "enqueue_streaming_locked now now' m p cfg stx f rq = (sres, q)"
    and "rq' = notify_if_ok sres q"
    using step_streaming by (auto simp: enqueue_streaming_controlled_def split: prod.splits)
  with step_streaming(1,2) assms(2) show ?thesis
    by (simp add: marked_enqueue_streaming_locked)
next
  case (step_cancel j b)
  then show ?thesis
    by (intro marked_mono [OF assms(2)]) (auto simp: cancel_def dest!: cancel_first_spec)
next
  case (step_dequeue clk r)
  from dequeue_subseq [OF step_dequeue] dequeue_flags [OF step_dequeue] subseq_set
  show ?thesis by (intro marked_mono [OF assms(2)]) auto
next
  case step_dequeue_streaming
  with assms(2) show ?thesis by (auto simp: marked_def dequeue_streaming_def split: list.splits)
qed (auto simp: marked_def wake_def notify_one_def set_flag_def)

lemma marked_steps:
  assumes "rq_step\<^sup>*\<^sup>* (rq, sh) (rq', sh')" and "marked I rq sh"
  shows "marked I rq' sh'"
  using assms by (induction rule: rtranclp_induct2) (auto dest: marked_step)

lemma pq_pop_mem: "pq_pop q = Some (r, q') \<Longrightarrow> r \<in> set (pq_iter q) \<and> set (pq_iter q') \<subseteq> set (pq_iter q)"
  by (auto simp: pq_pop_def pq_iter_def split: option.splits dest: heap_max_Some
      intro: set_remove1_subset [THEN subsetD, THEN imageI])

lemma dequeue_loop_result:
  assumes "dequeue_loop clk k q sh = (res, q', sh')" and "res = Some r"
  shows "r \<in> set (pq_iter q) \<and> \<not> flags sh (cancelled r)"
  using assms by (induction rule: dequeue_loop_run) (auto simp: is_cancelled_def dest: pq_pop_mem)

lemma dequeue_result:
  "dequeue clk rq sh = (Some r, rq', sh') \<Longrightarrow>
   r \<in> set (pq_iter (rq_queue rq)) \<and> \<not> flags sh (cancelled r)"
  by (auto simp: dequeue_def split: prod.splits dest: dequeue_loop_result)

lemma marked_reach:
  "rq_step\<^sup>*\<^sup>* (queue_new cfg, sh0) (rq, sh) \<Longrightarrow> marked {} rq sh"
  by (erule marked_steps) (simp add: marked_def queue_new_def pq_defs)

lemma marked_cancel:
  assumes "rq_wf rq" and "marked {} rq sh" and "cancel i rq sh = (True, sh')"
  shows "marked {i} rq sh'"
proof -
  have dist: "distinct (map req_id (pq_iter (rq_queue rq)))"
    and ids: "req_id ` set (pq_iter (rq_queue rq)) \<subseteq> {..<rq_next_id rq}"
    using assms(1) by (auto simp: rq_wf_def waiting_ids_def)
  with assms(2,3) cancel_first_sets [of i "pq_iter (rq_queue rq)" sh True sh', OF _ dist]
    cancel_first_spec [of i "pq_iter (rq_queue rq)" sh True sh']
  show ?thesis by (auto simp: marked_def cancel_def)
qed

section \<open>Properties of the queue\<close>

text \<open>
  C27: Bounded admission with unique identities. In every queue reachable from a new one by any
  sequence of admissions (ordinary and streaming), cancellations, dequeues and wake-ups, the two
  queues together never hold more than \<open>max_pending\<close> requests, and the ids handed to clients are
  pairwise distinct across both queues.
\<close>

theorem queue_bounded_and_ids_unique:
  assumes "rq_step\<^sup>*\<^sup>* (queue_new cfg, sh0) (rq, sh)"
  shows "rq_len rq + streaming_len rq \<le> max_pending cfg \<and> distinct (waiting_ids rq) \<and>
    (\<forall>i. i \<in> set (waiting_ids rq) \<longrightarrow> i < rq_next_id rq)"
  using rq_wf_reach [OF assms] by (auto simp: rq_wf_def)

text \<open>
  C15: \<open>dequeue\<close> serves the first live request. The waiting requests, in service order (priority first,
  arrival order within a priority), split into a prefix of requests that were cancelled or past their
  deadline when examined, and the rest: the call returns the head of the rest (nothing if there is
  none), which is live, keeps the remainder in order, and every request of the dropped prefix that has
  a response channel is answered there with an explicit cancelled or deadline failure.
\<close>

theorem dequeue_serves_first_live:
  assumes "pq_wf (rq_queue rq)" and "dequeue clk rq sh = (res, rq', sh')"
  shows "\<exists>dead rest. service_order rq = dead @ rest \<and>
    (\<forall>i < length dead. is_cancelled (flags sh) (dead ! i) \<or> is_expired (clk (2 * i)) (dead ! i)) \<and>
    res = (case rest of [] \<Rightarrow> None | r # _ \<Rightarrow> Some r) \<and> service_order rq' = tl rest \<and>
    (\<forall>r. res = Some r \<longrightarrow>
       \<not> is_cancelled (flags sh) r \<and> \<not> is_expired (clk (2 * length dead)) r) \<and>
    (\<forall>r \<in> set dead. \<forall>ch. response_tx r = Some ch \<longrightarrow> stop_reply (replies sh' ch))"
proof -
  obtain q where "dequeue_loop clk 0 (rq_queue rq) sh = (res, q, sh')" "rq_queue rq' = q"
    using assms(2) by (auto simp: dequeue_def split: prod.splits)
  with assms(1) have "dequeue_splits clk 0 (service_order rq) sh res (service_order rq') sh'"
    using dequeue_loop_spec by (auto simp: service_order_backlog)
  then show ?thesis by (simp add: dequeue_splits_def)
qed

text \<open>
  An admitted request enters the service order behind every waiting request of its own or a higher
  priority and ahead of every request of a lower priority; the reported position is the number of
  requests that were waiting; an error leaves the queue and the shared cells untouched.
\<close>

theorem enqueue_places_by_priority:
  assumes "pq_wf (rq_queue rq)" and "rq_room rq"
    and "enqueue_inner now m p ps prio tx canc rq sh = (res, rq', sh')"
  shows "(case res of
      Inl e \<Rightarrow> rq' = rq \<and> sh' = sh
    | Inr (i, position) \<Rightarrow> i = rq_next_id rq \<and> position = length (service_order rq) \<and> rq_permit rq' \<and>
        rq_streaming rq' = rq_streaming rq \<and>
        service_order rq' =
          concat (map (pq_lanes (rq_queue rq)) (filter (\<lambda>l. prio \<le> l) levels)) @
          [admitted_request now m p ps tx canc rq sh] @
          concat (map (pq_lanes (rq_queue rq)) (filter (\<lambda>l. l < prio) levels)))"
proof -
  obtain q where q: "enqueue_locked now m p ps prio tx canc rq sh = (res, q, sh')"
    and rq': "rq' = notify_if_ok res q"
    using assms(3) by (auto simp: enqueue_inner_def split: prod.splits)
  from q show ?thesis
  proof (cases rule: enqueue_locked_cases)
    case admitted
    with assms(1,2) show ?thesis
      by (simp add: rq' notify_if_ok_def notify_one_def service_order_backlog pq.push_backlog
          rq_room_def rq_len_def length_lanes)
  qed (simp add: rq' notify_if_ok_def)
qed

text \<open>
  A cancelled request is never executed. Once \<open>cancel\<close> has reported success for an id, no later
  \<open>dequeue\<close>, after any further operations on the queue, hands that request to the worker.
\<close>

theorem cancelled_never_dequeued:
  assumes "rq_step\<^sup>*\<^sup>* (queue_new cfg, sh0) (rq, sh)" and "cancel i rq sh = (True, sh1)"
    and "rq_step\<^sup>*\<^sup>* (rq, sh1) (rq2, sh2)" and "dequeue clk rq2 sh2 = (Some r, rq3, sh3)"
  shows "req_id r \<noteq> i"
proof -
  have "marked {i} rq sh1"
    using rq_wf_reach [OF assms(1)] marked_reach [OF assms(1)] assms(2) by (blast intro: marked_cancel)
  then have "marked {i} rq2 sh2"
    by (rule marked_steps [OF assms(3)])
  with dequeue_result [OF assms(4)] show ?thesis
    by (auto simp: marked_def)
qed

subsection \<open>A queue with two requests\<close>

definition shared_init :: shared where
  "shared_init = \<lparr>flags = (\<lambda>_. False), next_flag = 0, replies = (\<lambda>_. None)\<rparr>"

definition sample_request :: "u64 \<Rightarrow> flag \<Rightarrow> queued_request" where
  "sample_request i f =
     \<lparr>req_id = i, model_id = ''m'', prompt = ''hi'', params = params_default, enqueued_at = 0,
      deadline = None, cancelled = f, response_tx = Some f\<rparr>"

definition sample_queue :: request_queue where
  "sample_queue =
     \<lparr>rq_queue = \<lparr>heap = [\<lparr>priority = Normal, sequence = 0, item = sample_request 1 0\<rparr>,
                         \<lparr>priority = High, sequence = 1, item = sample_request 2 1\<rparr>],
                 next_sequence = 2\<rparr>,
      rq_streaming = [], rq_next_id = 3, rq_config = queue_config_default, rq_permit = True\<rparr>"

definition sample_shared :: shared where
  "sample_shared = shared_init\<lparr>flags := (\<lambda>_. False)(0 := False, 1 := False), next_flag := 2\<rparr>"

lemmas sample_defs = sample_queue_def sample_shared_def sample_request_def shared_init_def
  queue_config_default_def params_default_def

lemmas enqueue_eval = enqueue_inner_def enqueue_locked_def check_context_def with_tx_def new_flag_def
  notify_if_ok_def notify_one_def queue_new_def pq_defs BYTES_PER_TOKEN_ESTIMATE_def Let_def

lemma sample_reach: "rq_step\<^sup>*\<^sup>* (queue_new queue_config_default, shared_init) (sample_queue, sample_shared)"
proof -
  let ?enq = "\<lambda>pr tx. enqueue_inner 0 ''m'' ''hi'' params_default pr (Some tx) None"
  obtain rq1 sh1 where s1: "?enq Normal 0 (queue_new queue_config_default) shared_init = (Inr (1, 0), rq1, sh1)"
    and s2: "?enq High 1 rq1 sh1 = (Inr (2, 1), sample_queue, sample_shared)" and room: "rq_room rq1"
    by (simp add: enqueue_eval sample_defs rq_room_def pq_room_def wrap_add_exact two64_def)
  have "rq_step (queue_new queue_config_default, shared_init) (rq1, sh1)"
    by (rule step_enqueue [OF _ _ s1]) (simp_all add: rq_room_def pq_room_def queue_new_def pq_defs two64_def)
  moreover have "rq_step (rq1, sh1) (sample_queue, sample_shared)"
    by (rule step_enqueue [OF room _ s2]) simp
  ultimately show ?thesis by auto
qed

theorem queue_bounded_and_ids_unique_witness:
  "rq_len sample_queue + streaming_len sample_queue \<le> 256 \<and> waiting_ids sample_queue = [1, 2]"
  using queue_bounded_and_ids_unique [OF sample_reach]
  by (simp add: sample_defs waiting_ids_def pq_defs)

lemma sample_cancel: "cancel 1 sample_queue sample_shared = (True, set_flag 0 sample_shared)"
  by (simp add: cancel_def sample_defs pq_defs cancel_request_def)

lemma sample_dequeue:
  "dequeue (\<lambda>_. 5) sample_queue (set_flag 0 sample_shared) =
     (Some (sample_request 2 1),
      sample_queue\<lparr>rq_queue := \<lparr>heap = [\<lparr>priority = Normal, sequence = 0, item = sample_request 1 0\<rparr>],
                              next_sequence = 2\<rparr>\<rparr>, set_flag 0 sample_shared)"
  by (simp add: dequeue_def dequeue_loop.simps pq_defs item_cmp_def cmp_nat_def sample_defs
      is_cancelled_def is_expired_def set_flag_def)

theorem cancelled_never_dequeued_witness:
  "\<exists>r rq sh. dequeue (\<lambda>_. 5) sample_queue (set_flag 0 sample_shared) = (Some r, rq, sh) \<and> req_id r \<noteq> 1"
  using cancelled_never_dequeued [OF sample_reach sample_cancel rtranclp.rtrancl_refl sample_dequeue]
    sample_dequeue by blast

theorem dequeue_serves_first_live_witness:
  "\<exists>dead rest. service_order sample_queue = dead @ rest \<and> rest \<noteq> [] \<and> hd rest = sample_request 2 1"
proof -
  have "pq_wf (rq_queue sample_queue)"
    by (simp add: sample_defs pq_wf_def)
  from dequeue_serves_first_live [OF this sample_dequeue]
  obtain dead rest where "service_order sample_queue = dead @ rest"
    "Some (sample_request 2 1) = (case rest of [] \<Rightarrow> None | r # _ \<Rightarrow> Some r)" by blast
  then show ?thesis by (intro exI [of _ dead] exI [of _ rest]) (auto split: list.splits)
qed

theorem enqueue_places_by_priority_witness:
  "\<exists>rq' sh'. enqueue_inner 0 ''m'' ''hi'' params_default Critical None None sample_queue sample_shared =
      (Inr (3, 2), rq', sh') \<and>
    map req_id (service_order rq') = [3, 2, 1]"
proof -
  obtain rq' sh' where e: "enqueue_inner 0 ''m'' ''hi'' params_default Critical None None sample_queue
      sample_shared = (Inr (3, 2), rq', sh')"
    by (simp add: enqueue_eval sample_defs)
  have "pq_wf (rq_queue sample_queue)" "rq_room sample_queue"
    by (simp_all add: sample_defs pq_wf_def rq_room_def pq_room_def two64_def)
  from enqueue_places_by_priority [OF this e] e show ?thesis
    by (simp add: levels_def less_eq_priority_def less_priority_def pq_lanes_def sample_defs)
qed

section \<open>Waiting for work\<close>

text \<open>
  The worker's loop (\<open>worker_loop\<close> with \<open>wait_and_dequeue\<close> inlined) against any number of producers and
  cancelling clients. A producer first pushes under the lock and notifies afterwards: \<open>ws_pending\<close>
  counts the producers between the two. \<open>Notify\<close> stores at most one permit; waiting consumes it.
\<close>

datatype worker_pc = Check_Streaming | Try_Dequeue | Check_Len | Waiting | Stopped

record wait_state =
  ws_queue :: request_queue
  ws_shared :: shared
  ws_pending :: nat
  ws_pc :: worker_pc

inductive wait_step :: "wait_state \<Rightarrow> wait_state \<Rightarrow> bool" where
  push_main:
    "enqueue_locked now m p ps prio tx canc (ws_queue s) (ws_shared s) = (Inr x, rq', sh') \<Longrightarrow>
     wait_step s (s\<lparr>ws_queue := rq', ws_shared := sh', ws_pending := Suc (ws_pending s)\<rparr>)"
| push_streaming:
    "enqueue_streaming_locked now now' m p cfg stx f (ws_queue s) = (Inr i, rq') \<Longrightarrow>
     wait_step s (s\<lparr>ws_queue := rq', ws_pending := Suc (ws_pending s)\<rparr>)"
| notify:
    "ws_pending s = Suc n \<Longrightarrow> wait_step s (s\<lparr>ws_queue := notify_one (ws_queue s), ws_pending := n\<rparr>)"
| client_cancels: "wait_step s (s\<lparr>ws_shared := set_flag f (ws_shared s)\<rparr>)"
| wakes: "wait_step s (s\<lparr>ws_queue := wake (ws_queue s)\<rparr>)"
| streaming_some:
    "ws_pc s = Check_Streaming \<Longrightarrow> dequeue_streaming (ws_queue s) = (Some r, rq') \<Longrightarrow>
     wait_step s (s\<lparr>ws_queue := rq'\<rparr>)"
| streaming_none:
    "ws_pc s = Check_Streaming \<Longrightarrow> dequeue_streaming (ws_queue s) = (None, rq') \<Longrightarrow>
     wait_step s (s\<lparr>ws_pc := Try_Dequeue\<rparr>)"
| dequeued:
    "ws_pc s = Try_Dequeue \<Longrightarrow> dequeue clk (ws_queue s) (ws_shared s) = (Some q, rq', sh') \<Longrightarrow>
     wait_step s (s\<lparr>ws_queue := rq', ws_shared := sh', ws_pc := Check_Streaming\<rparr>)"
| nothing_live:
    "ws_pc s = Try_Dequeue \<Longrightarrow> dequeue clk (ws_queue s) (ws_shared s) = (None, rq', sh') \<Longrightarrow>
     wait_step s (s\<lparr>ws_queue := rq', ws_shared := sh', ws_pc := Check_Len\<rparr>)"
| streaming_pending:
    "ws_pc s = Check_Len \<Longrightarrow> 0 < streaming_len (ws_queue s) \<Longrightarrow> wait_step s (s\<lparr>ws_pc := Check_Streaming\<rparr>)"
| go_to_sleep:
    "ws_pc s = Check_Len \<Longrightarrow> streaming_len (ws_queue s) = 0 \<Longrightarrow> wait_step s (s\<lparr>ws_pc := Waiting\<rparr>)"
| notified:
    "ws_pc s = Waiting \<Longrightarrow> rq_permit (ws_queue s) \<Longrightarrow>
     wait_step s (s\<lparr>ws_queue := (ws_queue s)\<lparr>rq_permit := False\<rparr>, ws_pc := Try_Dequeue\<rparr>)"
| shutdown:
    "ws_pc s \<in> {Try_Dequeue, Check_Len, Waiting} \<Longrightarrow> wait_step s (s\<lparr>ws_pc := Stopped\<rparr>)"

definition wait_init :: "queue_config \<Rightarrow> shared \<Rightarrow> wait_state" where
  "wait_init cfg sh = \<lparr>ws_queue = queue_new cfg, ws_shared = sh, ws_pending = 0, ws_pc = Check_Streaming\<rparr>"

definition wake_owed :: "wait_state \<Rightarrow> bool" where
  "wake_owed s \<longleftrightarrow> rq_permit (ws_queue s) \<or> 0 < ws_pending s"

definition no_lost_wakeup :: "wait_state \<Rightarrow> bool" where
  "no_lost_wakeup s \<longleftrightarrow>
     (ws_pc s = Check_Len \<longrightarrow> 0 < rq_len (ws_queue s) \<longrightarrow> wake_owed s) \<and>
     (ws_pc s = Waiting \<longrightarrow> 0 < rq_len (ws_queue s) + streaming_len (ws_queue s) \<longrightarrow> wake_owed s)"

lemma dequeue_loop_None_empty:
  assumes "dequeue_loop clk k q sh = (res, q', sh')" and "res = None"
  shows "pq_len q' = 0"
  using assms by (induction rule: dequeue_loop_run) (auto simp: pq_pop_def pq_len_def split: option.splits)

lemma dequeue_None_empty: "dequeue clk rq sh = (None, rq', sh') \<Longrightarrow> rq_len rq' = 0"
  by (auto simp: dequeue_def rq_len_def split: prod.splits dest: dequeue_loop_None_empty)

lemma no_lost_wakeup_step: "wait_step s s' \<Longrightarrow> no_lost_wakeup s \<Longrightarrow> no_lost_wakeup s'"
  by (induction rule: wait_step.induct)
    (auto simp: no_lost_wakeup_def wake_owed_def notify_one_def wake_def streaming_len_def
      rq_len_def dest: dequeue_None_empty [unfolded rq_len_def])

text \<open>
  C4: No lost wake-up. However enqueues, notifications, cancellations and the worker's own steps
  interleave, when the worker sleeps on the notifier with no permit stored and no producer still about to
  notify, both queues are empty; so no request can wait behind a sleeping worker.
\<close>

theorem sleeping_worker_has_no_work:
  assumes "wait_step\<^sup>*\<^sup>* (wait_init cfg sh) s" and "ws_pc s = Waiting"
    and "\<not> rq_permit (ws_queue s)" and "ws_pending s = 0"
  shows "rq_len (ws_queue s) = 0 \<and> streaming_len (ws_queue s) = 0"
proof -
  have "no_lost_wakeup (wait_init cfg sh)"
    by (simp add: no_lost_wakeup_def wait_init_def)
  with assms(1) have "no_lost_wakeup s"
    by (induction rule: rtranclp_induct) (auto intro: no_lost_wakeup_step)
  with assms(2-4) show ?thesis by (auto simp: no_lost_wakeup_def wake_owed_def)
qed

theorem sleeping_worker_has_no_work_witness:
  "let s = (wait_init queue_config_default shared_init)\<lparr>ws_pc := Waiting\<rparr>
   in rq_len (ws_queue s) = 0 \<and> streaming_len (ws_queue s) = 0"
proof -
  let ?s = "wait_init queue_config_default shared_init"
  have "dequeue_streaming (ws_queue ?s) = (None, ws_queue ?s)"
    by (simp add: wait_init_def queue_new_def dequeue_streaming_def)
  moreover have "dequeue (\<lambda>_. 0) (ws_queue ?s) (ws_shared ?s) = (None, ws_queue ?s, ws_shared ?s)"
    by (simp add: wait_init_def queue_new_def dequeue_def dequeue_loop.simps pq_defs)
  ultimately have "wait_step ?s (?s\<lparr>ws_pc := Try_Dequeue\<rparr>)"
    "wait_step (?s\<lparr>ws_pc := Try_Dequeue\<rparr>) (?s\<lparr>ws_pc := Check_Len\<rparr>)"
    "wait_step (?s\<lparr>ws_pc := Check_Len\<rparr>) (?s\<lparr>ws_pc := Waiting\<rparr>)"
    using streaming_none [of ?s] nothing_live [of "?s\<lparr>ws_pc := Try_Dequeue\<rparr>" "\<lambda>_. 0"]
      go_to_sleep [of "?s\<lparr>ws_pc := Check_Len\<rparr>"]
    by (auto simp: wait_init_def queue_new_def streaming_len_def)
  then have "wait_step\<^sup>*\<^sup>* ?s (?s\<lparr>ws_pc := Waiting\<rparr>)"
    by (meson converse_rtranclp_into_rtranclp r_into_rtranclp)
  from sleeping_worker_has_no_work [OF this] show ?thesis
    by (simp add: wait_init_def queue_new_def)
qed

end
