(* ===== verification/Resource_Limits.thy ===== *)
theory Resource_Limits
  imports Engine_Types
begin

text \<open>
  Admission by shared atomic counters: the per-call resource limits (\<open>memory/limits.rs\<close>), the GPU
  memory tracker (\<open>memory/gpu.rs\<close>) and the connection pool (\<open>ipc/connections.rs\<close>).

  Each operation is given twice: as a function, which is what a caller that runs alone sees, and as
  a thread program over the individual atomic instructions, so that the bounds are proved for every
  interleaving of any number of threads. The locale \<open>gauge\<close> is the contract the three counters
  share: a thread in phase \<open>p\<close> accounts for \<open>weight p\<close> of the counter, of which \<open>granted p\<close> is a
  claim its caller may use.
\<close>

section \<open>Counters shared by threads\<close>

lemma sum_fun_upd:
  fixes w :: "'p \<Rightarrow> nat"
  assumes "finite T" and "t \<in> T"
  shows "(\<Sum>i\<in>T. w ((ph(t := p)) i)) + w (ph t) = (\<Sum>i\<in>T. w (ph i)) + w p"
proof -
  have "(\<Sum>i\<in>T. w ((ph(t := p)) i)) = w p + (\<Sum>i\<in>T - {t}. w (ph i))"
    using assms by (simp add: sum.remove [of T t])
  moreover have "(\<Sum>i\<in>T. w (ph i)) = w (ph t) + (\<Sum>i\<in>T - {t}. w (ph i))"
    using assms by (simp add: sum.remove [of T t])
  ultimately show ?thesis by simp
qed

locale gauge =
  fixes weight :: "'p \<Rightarrow> nat"
    and granted :: "'p \<Rightarrow> nat"
    and ok :: "'p \<Rightarrow> bool"
    and cap :: nat
    and maxw :: nat
    and top :: nat
    and step :: "nat \<Rightarrow> 'p \<Rightarrow> nat \<Rightarrow> 'p \<Rightarrow> bool"
  assumes granted_le: "granted p \<le> weight p"
    and weight_bound: "ok p \<Longrightarrow> weight p \<le> maxw"
    and ok_step: "ok p \<Longrightarrow> step g p g' p' \<Longrightarrow> ok p'"
    and step_weight: "ok p \<Longrightarrow> step g p g' p' \<Longrightarrow> weight p \<le> g \<Longrightarrow> g < top \<Longrightarrow>
          g - weight p + weight p' < top \<Longrightarrow> g' = g - weight p + weight p'"
    and step_grant: "ok p \<Longrightarrow> step g p g' p' \<Longrightarrow> granted p < granted p' \<Longrightarrow>
          g - weight p + weight p' < top \<Longrightarrow> g' \<le> cap"
begin

definition balanced :: "'t set \<Rightarrow> nat \<Rightarrow> ('t \<Rightarrow> 'p) \<Rightarrow> bool" where
  "balanced T g ph \<longleftrightarrow> (\<forall>t\<in>T. ok (ph t)) \<and> g = (\<Sum>t\<in>T. weight (ph t)) \<and> (\<Sum>t\<in>T. granted (ph t)) \<le> cap"

lemma balanced_step:
  assumes fin: "finite T" "t \<in> T" and small: "card T * maxw < top"
    and bal: "balanced T g ph" and step: "step g (ph t) g' p'"
  shows "balanced T g' (ph(t := p'))"
proof -
  let ?ph = "ph(t := p')"
  have ok: "\<forall>i\<in>T. ok (?ph i)"
    using bal step fin ok_step by (auto simp: balanced_def)
  have bound: "(\<Sum>i\<in>T. weight (h i)) < top" if "\<forall>i\<in>T. ok (h i)" for h
    using sum_bounded_above [of T "\<lambda>i. weight (h i)" maxw] that weight_bound small by fastforce
  have g: "g = (\<Sum>i\<in>T. weight (ph i))" and t: "ok (ph t)"
    using bal fin by (auto simp: balanced_def)
  have le: "weight (ph t) \<le> g"
    using member_le_sum [OF fin(2) _ fin(1), of "\<lambda>i. weight (ph i)"] g by simp
  have upd: "(\<Sum>i\<in>T. weight (?ph i)) = g - weight (ph t) + weight p'"
    using sum_fun_upd [OF fin, of weight ph p'] g le by simp
  then have no_wrap: "g - weight (ph t) + weight p' < top"
    using bound [OF ok] by simp
  have g': "g' = (\<Sum>i\<in>T. weight (?ph i))"
    using step_weight [OF t step le _ no_wrap] bound [of ph] bal upd g by (simp add: balanced_def)
  have "(\<Sum>i\<in>T. granted (?ph i)) \<le> cap"
  proof (cases "granted (ph t) < granted p'")
    case True
    have "(\<Sum>i\<in>T. granted (?ph i)) \<le> (\<Sum>i\<in>T. weight (?ph i))"
      by (rule sum_mono) (rule granted_le)
    with g' step_grant [OF t step True no_wrap] show ?thesis by simp
  next
    case False
    with sum_fun_upd [OF fin, of granted ph p'] bal show ?thesis
      by (simp add: balanced_def)
  qed
  with ok g' show ?thesis by (simp add: balanced_def)
qed

end

section \<open>Per-call memory and concurrency limits\<close>

record limits_config =
  max_memory_per_call :: usize
  max_total_memory :: usize
  max_concurrent :: usize

definition limits_default :: limits_config where
  "limits_default =
     \<lparr>max_memory_per_call = 1024 * 1024 * 1024, max_total_memory = 2 * 1024 * 1024 * 1024, max_concurrent = 2\<rparr>"

record limits =
  lim_config :: limits_config
  current_memory :: usize
  current_concurrent :: usize

record resource_guard =
  memory_bytes :: usize

definition limits_new :: "limits_config \<Rightarrow> limits" where
  "limits_new cfg = \<lparr>lim_config = cfg, current_memory = 0, current_concurrent = 0\<rparr>"

definition try_acquire :: "usize \<Rightarrow> limits \<Rightarrow> (engine_error + resource_guard) \<times> limits" where
  "try_acquire m L =
     (let cfg = lim_config L
      in if max_memory_per_call cfg < m then (Inl (EMemoryExceeded m (max_memory_per_call cfg)), L)
         else
           let prev_memory = current_memory L;
               L1 = L\<lparr>current_memory := wrap_add prev_memory m\<rparr>
           in if max_total_memory cfg < wrap_add prev_memory m
              then (Inl (EMemoryExceeded (wrap_add prev_memory m) (max_total_memory cfg)),
                    L1\<lparr>current_memory := wrap_sub (current_memory L1) m\<rparr>)
              else
                let prev_concurrent = current_concurrent L1;
                    L2 = L1\<lparr>current_concurrent := wrap_add prev_concurrent 1\<rparr>
                in if max_concurrent cfg \<le> prev_concurrent
                   then (Inl (EQueueFull (wrap_add prev_concurrent 1) (max_concurrent cfg)),
                         L2\<lparr>current_concurrent := wrap_sub (current_concurrent L2) 1,
                            current_memory := wrap_sub (current_memory L2) m\<rparr>)
                   else (Inr \<lparr>memory_bytes = m\<rparr>, L2))"

definition drop_guard :: "resource_guard \<Rightarrow> limits \<Rightarrow> limits" where
  "drop_guard g L =
     L\<lparr>current_memory := wrap_sub (current_memory L) (memory_bytes g),
       current_concurrent := wrap_sub (current_concurrent L) 1\<rparr>"

subsection \<open>The atomic instructions\<close>

text \<open>
  The phases of one caller between its atomic instructions. A check on the value an instruction
  returned is local to the thread and is part of that instruction's step.
\<close>

datatype acquire_phase =
    Idle
  | Mem_Over usize
  | Mem_Ok usize
  | Slot_Over usize
  | Slot_Undone usize
  | Holding usize
  | Releasing usize

inductive acq_step ::
  "limits_config \<Rightarrow> nat \<times> nat \<times> acquire_phase \<Rightarrow> nat \<times> nat \<times> acquire_phase \<Rightarrow> bool"
  for cfg where
  mem_ok: "m \<le> max_memory_per_call cfg \<Longrightarrow> wrap_add cm m \<le> max_total_memory cfg \<Longrightarrow>
    acq_step cfg (cm, cc, Idle) (wrap_add cm m, cc, Mem_Ok m)"
| mem_over: "m \<le> max_memory_per_call cfg \<Longrightarrow> max_total_memory cfg < wrap_add cm m \<Longrightarrow>
    acq_step cfg (cm, cc, Idle) (wrap_add cm m, cc, Mem_Over m)"
| mem_undo: "acq_step cfg (cm, cc, Mem_Over m) (wrap_sub cm m, cc, Idle)"
| slot_ok: "cc < max_concurrent cfg \<Longrightarrow> acq_step cfg (cm, cc, Mem_Ok m) (cm, wrap_add cc 1, Holding m)"
| slot_over: "max_concurrent cfg \<le> cc \<Longrightarrow> acq_step cfg (cm, cc, Mem_Ok m) (cm, wrap_add cc 1, Slot_Over m)"
| slot_undo: "acq_step cfg (cm, cc, Slot_Over m) (cm, wrap_sub cc 1, Slot_Undone m)"
| slot_mem_undo: "acq_step cfg (cm, cc, Slot_Undone m) (wrap_sub cm m, cc, Idle)"
| drop_memory: "acq_step cfg (cm, cc, Holding m) (wrap_sub cm m, cc, Releasing m)"
| drop_slot: "acq_step cfg (cm, cc, Releasing m) (cm, wrap_sub cc 1, Idle)"

inductive_cases acq_stepE: "acq_step cfg (cm, cc, p) (cm', cc', p')"

inductive limits_step ::
  "limits_config \<Rightarrow> 't set \<Rightarrow> nat \<times> nat \<times> ('t \<Rightarrow> acquire_phase) \<Rightarrow> nat \<times> nat \<times> ('t \<Rightarrow> acquire_phase) \<Rightarrow> bool"
  for cfg T where
  thread_step: "t \<in> T \<Longrightarrow> acq_step cfg (cm, cc, ph t) (cm', cc', p') \<Longrightarrow>
    limits_step cfg T (cm, cc, ph) (cm', cc', ph(t := p'))"

fun phase_bytes :: "acquire_phase \<Rightarrow> nat" where
  "phase_bytes Idle = 0"
| "phase_bytes (Mem_Over m) = m"
| "phase_bytes (Mem_Ok m) = m"
| "phase_bytes (Slot_Over m) = m"
| "phase_bytes (Slot_Undone m) = m"
| "phase_bytes (Holding m) = m"
| "phase_bytes (Releasing m) = m"

definition mem_weight :: "acquire_phase \<Rightarrow> nat" where
  "mem_weight p = (case p of Releasing m \<Rightarrow> 0 | _ \<Rightarrow> phase_bytes p)"

definition mem_granted :: "acquire_phase \<Rightarrow> nat" where
  "mem_granted p = (case p of Releasing m \<Rightarrow> 0 | Mem_Over m \<Rightarrow> 0 | _ \<Rightarrow> phase_bytes p)"

definition slot_weight :: "acquire_phase \<Rightarrow> nat" where
  "slot_weight p = (case p of Slot_Over m \<Rightarrow> 1 | Holding m \<Rightarrow> 1 | Releasing m \<Rightarrow> 1 | _ \<Rightarrow> 0)"

definition slot_granted :: "acquire_phase \<Rightarrow> nat" where
  "slot_granted p = (case p of Holding m \<Rightarrow> 1 | Releasing m \<Rightarrow> 1 | _ \<Rightarrow> 0)"

definition phase_ok :: "limits_config \<Rightarrow> acquire_phase \<Rightarrow> bool" where
  "phase_ok cfg p \<longleftrightarrow> phase_bytes p \<le> max_memory_per_call cfg"

definition held_bytes :: "acquire_phase \<Rightarrow> nat" where
  "held_bytes p = (case p of Holding m \<Rightarrow> m | _ \<Rightarrow> 0)"

lemmas phase_defs = mem_weight_def mem_granted_def slot_weight_def slot_granted_def phase_ok_def held_bytes_def

lemma wrap_add_le: "wrap_add a b \<le> a + b"
  by (simp add: wrap_add_def)

interpretation mem: gauge mem_weight mem_granted "phase_ok cfg" "max_total_memory cfg"
  "max_memory_per_call cfg" two64 "\<lambda>g p g' p'. \<exists>cc cc'. acq_step cfg (g, cc, p) (g', cc', p')" for cfg
  by unfold_locales
    (auto simp: phase_defs elim!: acq_stepE split: acquire_phase.splits)

interpretation slot: gauge slot_weight slot_granted "phase_ok cfg" "max_concurrent cfg"
  1 two64 "\<lambda>g p g' p'. \<exists>cm cm'. acq_step cfg (cm, g, p) (cm', g', p')" for cfg
  by unfold_locales
    (auto simp: phase_defs elim!: acq_stepE split: acquire_phase.splits intro: order_trans [OF wrap_add_le])

lemma limits_balanced:
  assumes "(limits_step cfg T)\<^sup>*\<^sup>* (0, 0, \<lambda>_. Idle) (cm, cc, ph)"
    and "finite T" and "card T * max_memory_per_call cfg < two64" and "card T < two64"
  shows "mem.balanced cfg T cm ph \<and> slot.balanced cfg T cc ph"
  using assms(1)
proof (induction "(cm, cc, ph)" arbitrary: cm cc ph rule: rtranclp_induct)
  case base
  then show ?case by (simp add: mem.balanced_def slot.balanced_def phase_defs)
next
  case (step s)
  obtain cm0 cc0 ph0 t p' where s: "s = (cm0, cc0, ph0)" and t: "t \<in> T"
    and a: "acq_step cfg (cm0, cc0, ph0 t) (cm, cc, p')" and ph: "ph = ph0(t := p')"
    using step(2) by (auto elim: limits_step.cases)
  have bal: "mem.balanced cfg T cm0 ph0" "slot.balanced cfg T cc0 ph0"
    using step(3) [OF s] by auto
  have "mem.balanced cfg T cm (ph0(t := p'))"
    by (rule mem.balanced_step [OF assms(2) t assms(3) bal(1)]) (use a in blast)
  moreover have "slot.balanced cfg T cc (ph0(t := p'))"
    by (rule slot.balanced_step [OF assms(2) t _ bal(2)]) (use a assms(4) in \<open>auto intro: exI\<close>)
  ultimately show ?case by (simp add: ph)
qed

lemma sum_eq_card: "finite T \<Longrightarrow> (\<Sum>t\<in>T. if P t then 1 else 0 :: nat) = card {t \<in> T. P t}"
  by (simp add: sum.If_cases Int_def conj_commute)

text \<open>
  C11: Admission control is exact under concurrency. For any number of threads acquiring and dropping
  guards, interleaved at every atomic instruction, the memory of the guards that are held never exceeds
  \<open>max_total_memory\<close>, at most \<open>max_concurrent\<close> guards are held, no guard exceeds the per-call limit, and
  when every thread is idle again both counters are back at zero. The counters do not overflow as
  long as the number of threads times the per-call limit fits in 64 bits.
\<close>

theorem admission_respects_limits:
  assumes "(limits_step cfg T)\<^sup>*\<^sup>* (0, 0, \<lambda>_. Idle) (cm, cc, ph)"
    and "finite T" and "card T * max_memory_per_call cfg < two64" and "card T < two64"
  shows "(\<Sum>t\<in>T. held_bytes (ph t)) \<le> max_total_memory cfg \<and>
    card {t \<in> T. \<exists>m. ph t = Holding m} \<le> max_concurrent cfg \<and>
    (\<forall>t m. t \<in> T \<and> ph t = Holding m \<longrightarrow> m \<le> max_memory_per_call cfg) \<and>
    ((\<forall>t. t \<in> T \<longrightarrow> ph t = Idle) \<longrightarrow> cm = 0 \<and> cc = 0)"
proof -
  have bal: "mem.balanced cfg T cm ph" "slot.balanced cfg T cc ph"
    using limits_balanced [OF assms] by auto
  have "(\<Sum>t\<in>T. held_bytes (ph t)) \<le> (\<Sum>t\<in>T. mem_granted (ph t))"
    by (rule sum_mono) (simp add: phase_defs split: acquire_phase.splits)
  moreover have "card {t \<in> T. \<exists>m. ph t = Holding m} \<le> (\<Sum>t\<in>T. slot_granted (ph t))"
    unfolding sum_eq_card [OF assms(2), symmetric]
    by (rule sum_mono) (simp add: phase_defs split: acquire_phase.splits)
  ultimately show ?thesis
    using bal by (fastforce simp: mem.balanced_def slot.balanced_def phase_defs)
qed

theorem admission_respects_limits_witness:
  "(\<Sum>t\<in>{0::nat, 2}. held_bytes (if t = 0 then Holding 5 else Idle)) \<le> max_total_memory limits_default"
proof -
  let ?ph = "(\<lambda>_. Idle)(0 := Mem_Ok 5) :: nat \<Rightarrow> acquire_phase"
  have "limits_step limits_default {0, 2} (0, 0, \<lambda>_. Idle) (5, 0, ?ph)"
    using thread_step [of 0 "{0, 2}" limits_default 0 0 "\<lambda>_. Idle" 5 0 "Mem_Ok 5"]
      mem_ok [of 5 limits_default 0 0] by (simp add: limits_default_def two64_numeral)
  moreover have "limits_step limits_default {0, 2} (5, 0, ?ph) (5, 1, ?ph(0 := Holding 5))"
    using thread_step [of 0 "{0, 2}" limits_default 5 0 ?ph 5 1 "Holding 5"]
      slot_ok [of 0 limits_default 5 5] by (simp add: limits_default_def two64_numeral)
  ultimately have "(limits_step limits_default {0, 2})\<^sup>*\<^sup>* (0, 0, \<lambda>_. Idle) (5, 1, ?ph(0 := Holding 5))"
    by (meson converse_rtranclp_into_rtranclp r_into_rtranclp)
  from admission_respects_limits [OF this] show ?thesis
    by (simp add: limits_default_def two64_numeral)
qed

lemma acq_steps:
  "acq_step cfg a b \<Longrightarrow> (acq_step cfg)\<^sup>*\<^sup>* b c \<Longrightarrow> (acq_step cfg)\<^sup>*\<^sup>* a c"
  "acq_step cfg a b \<Longrightarrow> (acq_step cfg)\<^sup>*\<^sup>* a b"
  by auto

text \<open>
  C31: A lone \<open>try_acquire\<close> is a run of those instructions: on success it ends holding the guard, with
  both counters as the function leaves them, and on every error path the counters are restored exactly.
\<close>

theorem try_acquire_refines_steps:
  assumes "current_memory L < two64" and "current_concurrent L < two64"
    and "try_acquire m L = (res, L')"
  shows "(case res of
      Inr g \<Rightarrow> memory_bytes g = m \<and>
        (acq_step (lim_config L))\<^sup>*\<^sup>* (current_memory L, current_concurrent L, Idle)
          (current_memory L', current_concurrent L', Holding m)
    | Inl e \<Rightarrow> L' = L \<and>
        (acq_step (lim_config L))\<^sup>*\<^sup>* (current_memory L, current_concurrent L, Idle)
          (current_memory L', current_concurrent L', Idle))"
proof -
  let ?cfg = "lim_config L" and ?m0 = "current_memory L" and ?c0 = "current_concurrent L"
  note steps = acq_steps
  consider (big) "max_memory_per_call ?cfg < m"
    | (mem) "m \<le> max_memory_per_call ?cfg" "max_total_memory ?cfg < wrap_add ?m0 m"
    | (slot) "m \<le> max_memory_per_call ?cfg" "wrap_add ?m0 m \<le> max_total_memory ?cfg" "max_concurrent ?cfg \<le> ?c0"
    | (fits) "m \<le> max_memory_per_call ?cfg" "wrap_add ?m0 m \<le> max_total_memory ?cfg" "?c0 < max_concurrent ?cfg"
    by linarith
  then show ?thesis
  proof cases
    case big
    with assms(3) show ?thesis by (auto simp: try_acquire_def Let_def)
  next
    case mem
    have "(acq_step ?cfg)\<^sup>*\<^sup>* (?m0, ?c0, Idle) (wrap_sub (wrap_add ?m0 m) m, ?c0, Idle)"
      by (rule steps(1) [OF mem_over [OF mem] steps(2) [OF mem_undo]])
    with mem assms show ?thesis by (auto simp: try_acquire_def Let_def)
  next
    case slot
    have "(acq_step ?cfg)\<^sup>*\<^sup>* (?m0, ?c0, Idle)
        (wrap_sub (wrap_add ?m0 m) m, wrap_sub (wrap_add ?c0 1) 1, Idle)"
      by (rule steps(1) [OF mem_ok [OF slot(1,2)] steps(1) [OF slot_over [OF slot(3)]
            steps(1) [OF slot_undo steps(2) [OF slot_mem_undo]]]])
    with slot assms show ?thesis by (auto simp: try_acquire_def Let_def)
  next
    case fits
    have "(acq_step ?cfg)\<^sup>*\<^sup>* (?m0, ?c0, Idle) (wrap_add ?m0 m, wrap_add ?c0 1, Holding m)"
      by (rule steps(1) [OF mem_ok [OF fits(1,2)] steps(2) [OF slot_ok [OF fits(3)]]])
    with fits assms(3) show ?thesis by (auto simp: try_acquire_def Let_def)
  qed
qed

theorem try_acquire_refines_steps_witness:
  "(acq_step limits_default)\<^sup>*\<^sup>* (0, 0, Idle) (7, 1, Holding 7)"
  using try_acquire_refines_steps [of "limits_new limits_default" 7]
  by (simp add: try_acquire_def limits_new_def limits_default_def Let_def two64_numeral)

text \<open>A guard that is acquired and dropped alone leaves both counters as they were.\<close>

lemma drop_after_acquire:
  "try_acquire m L = (Inr g, L') \<Longrightarrow> current_memory L < two64 \<Longrightarrow> current_concurrent L < two64 \<Longrightarrow>
   drop_guard g L' = L"
  by (auto simp: try_acquire_def drop_guard_def Let_def split: if_splits)

text \<open>
  Outside the no-overflow condition the check is unsound: with no memory limits configured, a
  request whose size wraps the counter is admitted.
\<close>

lemma try_acquire_admits_wrapped_request:
  "try_acquire (two64 - 1)
     \<lparr>lim_config = \<lparr>max_memory_per_call = two64 - 1, max_total_memory = two64 - 1, max_concurrent = 2\<rparr>,
      current_memory = 2, current_concurrent = 1\<rparr> =
   (Inr \<lparr>memory_bytes = two64 - 1\<rparr>,
    \<lparr>lim_config = \<lparr>max_memory_per_call = two64 - 1, max_total_memory = two64 - 1, max_concurrent = 2\<rparr>,
     current_memory = 1, current_concurrent = 2\<rparr>)"
  by (simp add: try_acquire_def Let_def wrap_add_def two64_numeral)

section \<open>GPU memory\<close>

record gpu_memory =
  gpu_allocated :: usize
  gpu_max_bytes :: usize

datatype gpu_error = GpuOutOfMemory usize usize

definition gpu_default_max :: usize where
  "gpu_default_max = 4 * 1024 * 1024 * 1024"

definition gpu_new :: "usize \<Rightarrow> gpu_memory" where
  "gpu_new mx = \<lparr>gpu_allocated = 0, gpu_max_bytes = mx\<rparr>"

definition gpu_reserve :: "usize \<Rightarrow> gpu_memory \<Rightarrow> (gpu_error + usize) \<times> gpu_memory" where
  "gpu_reserve bytes G =
     (let current = gpu_allocated G;
          G1 = G\<lparr>gpu_allocated := wrap_add current bytes\<rparr>;
          new_total = wrap_add current bytes
      in if gpu_max_bytes G < new_total
         then (Inl (GpuOutOfMemory bytes (gpu_max_bytes G - current)),
               G1\<lparr>gpu_allocated := wrap_sub (gpu_allocated G1) bytes\<rparr>)
         else (Inr bytes, G1))"

definition gpu_release :: "usize \<Rightarrow> gpu_memory \<Rightarrow> gpu_memory" where
  "gpu_release bytes G = G\<lparr>gpu_allocated := wrap_sub (gpu_allocated G) bytes\<rparr>"

definition gpu_available :: "gpu_memory \<Rightarrow> usize" where
  "gpu_available G = gpu_max_bytes G - gpu_allocated G"

datatype gpu_phase = GIdle | GOver usize | GHeld usize

text \<open>\<open>mr\<close> bounds the size of a single reservation.\<close>

inductive gpu_step :: "usize \<Rightarrow> usize \<Rightarrow> nat \<Rightarrow> gpu_phase \<Rightarrow> nat \<Rightarrow> gpu_phase \<Rightarrow> bool" for mx mr where
  gpu_ok: "b \<le> mr \<Longrightarrow> wrap_add g b \<le> mx \<Longrightarrow> gpu_step mx mr g GIdle (wrap_add g b) (GHeld b)"
| gpu_over: "b \<le> mr \<Longrightarrow> mx < wrap_add g b \<Longrightarrow> gpu_step mx mr g GIdle (wrap_add g b) (GOver b)"
| gpu_undo: "gpu_step mx mr g (GOver b) (wrap_sub g b) GIdle"
| gpu_free: "gpu_step mx mr g (GHeld b) (wrap_sub g b) GIdle"

inductive_cases gpu_stepE: "gpu_step mx mr g p g' p'"

definition gpu_weight :: "gpu_phase \<Rightarrow> nat" where
  "gpu_weight p = (case p of GIdle \<Rightarrow> 0 | GOver b \<Rightarrow> b | GHeld b \<Rightarrow> b)"

definition gpu_granted :: "gpu_phase \<Rightarrow> nat" where
  "gpu_granted p = (case p of GHeld b \<Rightarrow> b | _ \<Rightarrow> 0)"

definition gpu_fits :: "usize \<Rightarrow> gpu_phase \<Rightarrow> bool" where
  "gpu_fits mr p \<longleftrightarrow> gpu_weight p \<le> mr"

interpretation gpu: gauge gpu_weight gpu_granted "gpu_fits mr" mx mr two64 "gpu_step mx mr" for mx mr
  by unfold_locales
    (auto simp: gpu_fits_def gpu_weight_def gpu_granted_def elim!: gpu_stepE split: gpu_phase.splits)

text \<open>
  A counter driven by the threads of \<open>T\<close>: the system of the GPU tracker and of the connection pool.
\<close>

inductive counter_step ::
  "(nat \<Rightarrow> 'p \<Rightarrow> nat \<Rightarrow> 'p \<Rightarrow> bool) \<Rightarrow> 't set \<Rightarrow> nat \<times> ('t \<Rightarrow> 'p) \<Rightarrow> nat \<times> ('t \<Rightarrow> 'p) \<Rightarrow> bool"
  for step T where
  one_thread: "t \<in> T \<Longrightarrow> step g (ph t) g' p' \<Longrightarrow> counter_step step T (g, ph) (g', ph(t := p'))"

context gauge
begin

lemma balanced_reach:
  assumes "(counter_step step T)\<^sup>*\<^sup>* (g0, ph0) (g, ph)" and "balanced T g0 ph0"
    and "finite T" and "card T * maxw < top"
  shows "balanced T g ph"
  using assms(1,2)
proof (induction rule: rtranclp_induct2)
  case refl
  then show ?case .
next
  case (step g1 ph1 g2 ph2)
  obtain t p' where "t \<in> T" "step g1 (ph1 t) g2 p'" "ph2 = ph1(t := p')"
    using step(2) by (auto elim: counter_step.cases)
  with step(3) [OF step(4)] show ?case
    using balanced_step [OF assms(3) _ assms(4)] by blast
qed

end

text \<open>
  Reserved GPU memory never exceeds the configured maximum, whatever the interleaving of
  reservations and releases, and the counter equals the held plus the not-yet-undone reservations.
\<close>

theorem gpu_reservations_bounded:
  assumes "(counter_step (gpu_step mx mr) T)\<^sup>*\<^sup>* (0, \<lambda>_. GIdle) (g, ph)"
    and "finite T" and "card T * mr < two64"
  shows "(\<Sum>t\<in>T. gpu_granted (ph t)) \<le> mx \<and> g = (\<Sum>t\<in>T. gpu_weight (ph t))"
proof -
  have "gpu.balanced mr mx T g ph"
    by (rule gpu.balanced_reach [OF assms(1) _ assms(2,3)])
      (simp add: gpu.balanced_def gpu_fits_def gpu_weight_def gpu_granted_def)
  then show ?thesis by (simp add: gpu.balanced_def)
qed

theorem gpu_reservations_bounded_witness:
  "\<exists>g ph. (counter_step (gpu_step 16 16) {0::nat})\<^sup>*\<^sup>* (0, \<lambda>_. GIdle) (g, ph) \<and> ph 0 = GHeld 10 \<and>
    (\<Sum>t\<in>{0}. gpu_granted (ph t)) \<le> 16 \<and> g = (\<Sum>t\<in>{0}. gpu_weight (ph t))"
proof -
  have "counter_step (gpu_step 16 16) {0::nat} (0, \<lambda>_. GIdle) (10, (\<lambda>_. GIdle)(0 := GHeld 10))"
    using one_thread [of 0 "{0::nat}" "gpu_step 16 16" 0 "\<lambda>_. GIdle" 10 "GHeld 10"] gpu_ok [of 10 16 0 16]
    by (simp add: two64_numeral)
  then have reach: "(counter_step (gpu_step 16 16) {0::nat})\<^sup>*\<^sup>* (0, \<lambda>_. GIdle) (10, (\<lambda>_. GIdle)(0 := GHeld 10))"
    by (rule r_into_rtranclp)
  with gpu_reservations_bounded [OF reach] show ?thesis
    by (intro exI [of _ 10] exI [of _ "(\<lambda>_. GIdle)(0 := GHeld 10)"]) (simp add: two64_numeral)
qed

lemma gpu_reserve_restores:
  "gpu_reserve b G = (Inl e, G') \<Longrightarrow> gpu_allocated G < two64 \<Longrightarrow> G' = G"
  by (auto simp: gpu_reserve_def Let_def split: if_splits)

lemma gpu_release_reserve:
  "gpu_reserve b G = (Inr h, G') \<Longrightarrow> gpu_allocated G < two64 \<Longrightarrow> gpu_release h G' = G"
  by (auto simp: gpu_reserve_def gpu_release_def Let_def split: if_splits)

lemma gpu_admits_wrapped_request:
  "gpu_reserve (two64 - 1) \<lparr>gpu_allocated = 2, gpu_max_bytes = 4\<rparr> =
     (Inr (two64 - 1), \<lparr>gpu_allocated = 1, gpu_max_bytes = 4\<rparr>)"
  by (simp add: gpu_reserve_def Let_def wrap_add_def two64_numeral)

section \<open>Connection slots\<close>

record connection_pool =
  cp_active :: usize
  cp_max_connections :: usize

definition connection_config_default :: usize where
  "connection_config_default = 64"

definition ipc_server_config_default :: usize where
  "ipc_server_config_default = 16 * 1024 * 1024"

definition cp_new :: "usize \<Rightarrow> connection_pool" where
  "cp_new mx = \<lparr>cp_active = 0, cp_max_connections = mx\<rparr>"

text \<open>Run alone, the compare-and-swap succeeds at the first attempt.\<close>

definition cp_try_acquire :: "connection_pool \<Rightarrow> bool \<times> connection_pool" where
  "cp_try_acquire P =
     (if cp_max_connections P \<le> cp_active P then (False, P)
      else (True, P\<lparr>cp_active := cp_active P + 1\<rparr>))"

definition cp_release :: "connection_pool \<Rightarrow> connection_pool" where
  "cp_release P = P\<lparr>cp_active := wrap_sub (cp_active P) 1\<rparr>"

datatype conn_phase = CIdle | CLoaded nat | CHeld

inductive conn_step :: "usize \<Rightarrow> nat \<Rightarrow> conn_phase \<Rightarrow> nat \<Rightarrow> conn_phase \<Rightarrow> bool" for mx where
  conn_full: "mx \<le> g \<Longrightarrow> conn_step mx g CIdle g CIdle"
| conn_load: "g < mx \<Longrightarrow> conn_step mx g CIdle g (CLoaded g)"
| conn_cas_ok: "conn_step mx n (CLoaded n) (Suc n) CHeld"
| conn_cas_retry: "g \<noteq> n \<Longrightarrow> conn_step mx g (CLoaded n) g CIdle"
| conn_drop: "conn_step mx g CHeld (wrap_sub g 1) CIdle"

inductive_cases conn_stepE: "conn_step mx g p g' p'"

definition conn_weight :: "conn_phase \<Rightarrow> nat" where
  "conn_weight p = (if p = CHeld then 1 else 0)"

definition conn_ok :: "usize \<Rightarrow> conn_phase \<Rightarrow> bool" where
  "conn_ok mx p = (case p of CLoaded n \<Rightarrow> n < mx | _ \<Rightarrow> True)"

interpretation conn: gauge conn_weight conn_weight "conn_ok mx" mx 1 two64 "conn_step mx" for mx
  by unfold_locales
    (auto simp: conn_weight_def conn_ok_def elim!: conn_stepE split: conn_phase.splits if_splits)

text \<open>
  The connection pool admits at most \<open>max_connections\<close> at a time and its counter is exactly the
  number of live guards, for every interleaving of the load, compare-and-swap and release
  instructions of any number of accepting tasks; while fewer than the maximum are live, a task that
  is not disturbed between its load and its compare-and-swap gets a slot.
\<close>

theorem connections_bounded:
  assumes "(counter_step (conn_step mx) T)\<^sup>*\<^sup>* (0, \<lambda>_. CIdle) (g, ph)"
    and "finite T" and "card T < two64"
  shows "g = card {t \<in> T. ph t = CHeld} \<and> g \<le> mx \<and>
    (g < mx \<longrightarrow> conn_step mx g CIdle g (CLoaded g) \<and> conn_step mx g (CLoaded g) (g + 1) CHeld)"
proof -
  have "conn.balanced mx T g ph"
    by (rule conn.balanced_reach [OF assms(1) _ assms(2)])
      (use assms(3) in \<open>simp_all add: conn.balanced_def conn_weight_def conn_ok_def\<close>)
  then show ?thesis
    by (auto simp: conn.balanced_def conn_weight_def sum_eq_card [OF assms(2)] intro: conn_step.intros)
qed

theorem connections_bounded_witness:
  "\<exists>g ph. (counter_step (conn_step 64) {0::nat})\<^sup>*\<^sup>* (0, \<lambda>_. CIdle) (g, ph) \<and> ph 0 = CHeld \<and>
    g = card {t \<in> {0}. ph t = CHeld} \<and> g \<le> 64"
proof -
  let ?ph = "(\<lambda>_. CIdle)(0 := CLoaded 0) :: nat \<Rightarrow> conn_phase"
  have "counter_step (conn_step 64) {0} (0, \<lambda>_. CIdle) (0, ?ph)"
    using one_thread [of 0 "{0}" "conn_step 64" 0 "\<lambda>_. CIdle" 0 "CLoaded 0"] conn_load [of 0 64] by simp
  moreover have "counter_step (conn_step 64) {0} (0, ?ph) (1, ?ph(0 := CHeld))"
    using one_thread [of 0 "{0}" "conn_step 64" 0 ?ph 1 CHeld] conn_cas_ok [of 64 0] by simp
  ultimately have "(counter_step (conn_step 64) {0})\<^sup>*\<^sup>* (0, \<lambda>_. CIdle) (1, ?ph(0 := CHeld))"
    by (meson converse_rtranclp_into_rtranclp r_into_rtranclp)
  with connections_bounded [OF this] show ?thesis
    by (intro exI [of _ 1] exI [of _ "?ph(0 := CHeld)"]) (simp add: two64_numeral)
qed

lemma cp_try_acquire_step:
  "cp_try_acquire P = (True, P') \<Longrightarrow>
   conn_step (cp_max_connections P) (cp_active P) CIdle (cp_active P) (CLoaded (cp_active P)) \<and>
   conn_step (cp_max_connections P) (cp_active P) (CLoaded (cp_active P)) (cp_active P') CHeld"
  by (auto simp: cp_try_acquire_def split: if_splits intro: conn_step.intros)

end
