(* ===== verification/Security_Egress.thy ===== *)
theory Security_Egress
  imports Security_Ingress
begin

text \<open>
  The egress half of the security pipeline: PII detection and redaction (\<open>security/pii_detector.rs\<close>,
  \<open>security/pii_patterns.rs\<close>), content rules (\<open>security/sanitizer_rules.rs\<close>), the output
  sanitizer (\<open>security/output_sanitizer.rs\<close>) and its place in the pipeline (\<open>security/pipeline.rs\<close>).

  The regular-expression engine and Unicode normalisation are third-party crates: a pattern is the function
  that its \<open>find_iter\<close> computes, and \<open>nfkc\<close> is an argument.
\<close>

section \<open>PII matches\<close>

datatype pii_type =
    CreditCard | SSN | Email | Phone | IPAddress | MACAddress | DateOfBirth | Address | Passport
  | DriverLicense | BankAccount | MedicalRecord | APIKey

primrec pii_name :: "pii_type \<Rightarrow> string" where
  "pii_name CreditCard = ''Credit Card''"
| "pii_name SSN = ''Social Security Number''"
| "pii_name Email = ''Email Address''"
| "pii_name Phone = ''Phone Number''"
| "pii_name IPAddress = ''IP Address''"
| "pii_name MACAddress = ''MAC Address''"
| "pii_name DateOfBirth = ''Date of Birth''"
| "pii_name Address = ''Street Address''"
| "pii_name Passport = ''Passport Number''"
| "pii_name DriverLicense = ''Driver'' @ [CHR 0x27] @ ''s License''"
| "pii_name BankAccount = ''Bank Account''"
| "pii_name MedicalRecord = ''Medical Record''"
| "pii_name APIKey = ''API Key''"

primrec pii_severity :: "pii_type \<Rightarrow> nat" where
  "pii_severity SSN = 5"
| "pii_severity CreditCard = 5"
| "pii_severity Passport = 5"
| "pii_severity BankAccount = 5"
| "pii_severity MedicalRecord = 5"
| "pii_severity APIKey = 5"
| "pii_severity DriverLicense = 4"
| "pii_severity DateOfBirth = 4"
| "pii_severity Email = 3"
| "pii_severity Phone = 3"
| "pii_severity Address = 3"
| "pii_severity IPAddress = 2"
| "pii_severity MACAddress = 2"

record pii_match =
  pm_type :: pii_type
  pm_text :: string
  pm_start :: usize
  pm_end :: usize
  pm_confidence :: f32

text \<open>The patterns of \<open>build_patterns\<close> in order: a type, and the ranges its expression finds in a text.\<close>

type_synonym pii_patterns = "(pii_type \<times> (string \<Rightarrow> (usize \<times> usize) list)) list"

definition is_ascii_digit :: "char \<Rightarrow> bool" where
  "is_ascii_digit c \<longleftrightarrow> 48 \<le> byte_val c \<and> byte_val c \<le> 57"

definition digit_val :: "char \<Rightarrow> nat" where
  "digit_val c = byte_val c - 48"

section \<open>Luhn check\<close>

definition luhn_double :: "nat \<Rightarrow> nat" where
  "luhn_double d = (if 9 < d * 2 then d * 2 - 9 else d * 2)"

text \<open>The loop over the digits from the right; \<open>double\<close> flips at every digit.\<close>

fun luhn_sum :: "bool \<Rightarrow> nat list \<Rightarrow> nat" where
  "luhn_sum double [] = 0"
| "luhn_sum double (d # ds) = (if double then luhn_double d else d) + luhn_sum (\<not> double) ds"

definition luhn_check :: "string \<Rightarrow> bool" where
  "luhn_check number =
     (let digits = map digit_val (filter is_ascii_digit number) in
      if length digits < 13 \<or> 19 < length digits then False
      else luhn_sum False (rev digits) mod 10 = 0)"

section \<open>Confidence and overlaps\<close>

definition f32_0_95 :: f32 where "f32_0_95 = F32 (15938355 / 16777216)"
definition f32_0_5 :: f32 where "f32_0_5 = F32 (1 / 2)"
definition f32_0_6 :: f32 where "f32_0_6 = F32 (5033165 / 8388608)"
definition f32_0_85 :: f32 where "f32_0_85 = F32 (7130317 / 8388608)"
definition f32_0_98 :: f32 where "f32_0_98 = F32 (2055209 / 2097152)"
definition f32_0_75 :: f32 where "f32_0_75 = F32 (3 / 4)"

lemmas f32_consts = f32_0_95_def f32_0_5_def f32_0_6_def f32_0_85_def f32_0_98_def f32_0_75_def f32_0_7_def f32_0_9_def

text \<open>\<open>area < "900"\<close> on three digits compares the bytes lexicographically.\<close>

definition area_below_900 :: "string \<Rightarrow> bool" where
  "area_below_900 area \<longleftrightarrow> digit_val (area ! 0) < 9"

fun calculate_confidence :: "pii_type \<Rightarrow> string \<Rightarrow> f32" where
  "calculate_confidence Email text =
     (if CHR 0x40 \<in> set text \<and> CHR 0x2E \<in> set text then f32_0_95 else f32_0_7)"
| "calculate_confidence CreditCard text = f32_0_95"
| "calculate_confidence SSN text =
     (let digits = filter is_ascii_digit text in
      if length digits = 9 then
        (let area = take 3 digits in
         if area \<noteq> ''000'' \<and> area \<noteq> ''666'' \<and> area_below_900 area then f32_0_9 else f32_0_5)
      else f32_0_6)"
| "calculate_confidence Phone text =
     (if starts_with text ''+'' \<or> length (filter is_ascii_digit text) = 10 then f32_0_85 else f32_0_6)"
| "calculate_confidence APIKey text =
     (if starts_with text ''sk-'' \<or> starts_with text ''ghp_'' \<or> starts_with text ''xox'' then f32_0_98 else f32_0_7)"
| "calculate_confidence _ text = f32_0_75"

fun overlap_loop :: "pii_match \<Rightarrow> pii_match list \<Rightarrow> pii_match list" where
  "overlap_loop current [] = [current]"
| "overlap_loop current (m # ms) =
     (if pm_start m < pm_end current
      then overlap_loop (if f32_less (pm_confidence current) (pm_confidence m) then m else current) ms
      else current # overlap_loop m ms)"

fun remove_overlaps :: "pii_match list \<Rightarrow> pii_match list" where
  "remove_overlaps [] = []"
| "remove_overlaps (m # ms) = overlap_loop m ms"

section \<open>Detection\<close>

definition pattern_matches :: "string \<Rightarrow> pii_type \<times> (string \<Rightarrow> (usize \<times> usize) list) \<Rightarrow> pii_match list" where
  "pattern_matches normalized = (\<lambda>(ty, find).
     concat (map (\<lambda>(s, e).
         let matched = take (e - s) (drop s normalized) in
         if ty = CreditCard \<and> \<not> luhn_check (filter is_ascii_digit matched) then []
         else [\<lparr>pm_type = ty, pm_text = matched, pm_start = s, pm_end = e,
                pm_confidence = calculate_confidence ty matched\<rparr>])
       (find normalized)))"

text \<open>\<open>sort_by_key\<close> is stable, and so is \<^const>\<open>sort_key\<close>.\<close>

definition detect :: "(string \<Rightarrow> string) \<Rightarrow> pii_patterns \<Rightarrow> string \<Rightarrow> pii_match list" where
  "detect nfkc pats text =
     remove_overlaps (sort_key pm_start (concat (map (pattern_matches (nfkc text)) pats)))"

definition contains_pii :: "(string \<Rightarrow> string) \<Rightarrow> pii_patterns \<Rightarrow> string \<Rightarrow> bool" where
  "contains_pii nfkc pats text \<longleftrightarrow> (\<exists>(ty, find) \<in> set pats. find (nfkc text) \<noteq> [])"

section \<open>Redaction\<close>

definition redaction :: "pii_match \<Rightarrow> string" where
  "redaction m = ''[REDACTED:'' @ pii_name (pm_type m) @ '']''"

text \<open>
  The loop of \<open>redact_all\<close> over the detected matches: each range is shifted by the change in length so
  far, and left alone when it does not fall on character boundaries. The check makes \<open>replace_range\<close> safe.
\<close>

fun redact_loop :: "(pii_match \<Rightarrow> bool) \<Rightarrow> pii_match list \<Rightarrow> string \<Rightarrow> int \<Rightarrow> nat \<Rightarrow> string \<times> nat" where
  "redact_loop wanted [] result off count = (result, count)"
| "redact_loop wanted (m # ms) result off count =
     (if \<not> wanted m then redact_loop wanted ms result off count
      else
        let start = usize_of (int (pm_start m) + off);
            fin = usize_of (int (pm_end m) + off)
        in if start < length result \<and> fin \<le> length result \<and> is_char_boundary result start \<and> is_char_boundary result fin
           then redact_loop wanted ms (take start result @ redaction m @ drop fin result)
                  (off + int (length (redaction m)) - int (pm_end m - pm_start m)) (Suc count)
           else redact_loop wanted ms result off count)"

record sanitizer_config =
  redact_pii :: bool
  filter_content :: bool
  max_length :: usize
  pii_confidence_threshold :: f32
  redact_types :: "pii_type list"

definition sanitizer_config_default :: sanitizer_config where
  "sanitizer_config_default = \<lparr>redact_pii = True, filter_content = True, max_length = 100000,
     pii_confidence_threshold = f32_0_7,
     redact_types = [SSN, CreditCard, Email, Phone, APIKey, Passport, BankAccount, MedicalRecord]\<rparr>"

definition wanted :: "sanitizer_config \<Rightarrow> pii_match \<Rightarrow> bool" where
  "wanted cfg m \<longleftrightarrow> pm_type m \<in> set (redact_types cfg) \<and> \<not> f32_less (pm_confidence m) (pii_confidence_threshold cfg)"

definition redact_all :: "(string \<Rightarrow> string) \<Rightarrow> pii_patterns \<Rightarrow> sanitizer_config \<Rightarrow> string \<Rightarrow> string \<times> nat" where
  "redact_all nfkc pats cfg text =
     (let normalized = nfkc text;
          (result, count) = redact_loop (wanted cfg) (detect nfkc pats normalized) normalized 0 0
      in if count = 0 then (text, 0) else (result, count))"

text \<open>\<open>PIIDetector::redact\<close> has no boundary check: the replacement panics on a split character.\<close>

fun detector_redact_loop :: "pii_match list \<Rightarrow> string \<Rightarrow> int \<Rightarrow> string option" where
  "detector_redact_loop [] result off = Some result"
| "detector_redact_loop (m # ms) result off =
     (let start = usize_of (int (pm_start m) + off);
          fin = usize_of (int (pm_end m) + off)
      in if start < length result \<and> fin \<le> length result
         then Option.bind (replace_range result start fin (redaction m)) (\<lambda>result'.
                detector_redact_loop ms result' (off + int (length (redaction m)) - int (pm_end m - pm_start m)))
         else detector_redact_loop ms result off)"

definition detector_redact :: "(string \<Rightarrow> string) \<Rightarrow> pii_patterns \<Rightarrow> string \<Rightarrow> string option" where
  "detector_redact nfkc pats text =
     (let normalized = nfkc text; ms = detect nfkc pats normalized
      in if ms = [] then Some text else detector_redact_loop ms normalized 0)"

section \<open>Content rules\<close>

definition helpline :: string where
  "helpline = ''If you'' @ [CHR 0x27] @ ''re having thoughts of self-harm, please reach out to a crisis helpline: 988''"

definition get_content_filter_patterns :: "(string \<times> string) list" where
  "get_content_filter_patterns =
    [(''I want to kill myself'', helpline), (''I want to die'', helpline),
     (''how to make a bomb'', ''[CONTENT FILTERED: Dangerous content]''),
     (''how to create a virus'', ''[CONTENT FILTERED: Dangerous content]'')]"

fun filter_patterns_loop :: "(string \<Rightarrow> string) \<Rightarrow> (string \<times> string) list \<Rightarrow> string \<Rightarrow> nat \<Rightarrow> string \<times> nat" where
  "filter_patterns_loop lower [] result count = (result, count)"
| "filter_patterns_loop lower ((pat, r) # ps) result count =
     (if contains_str (lower result) pat
      then filter_patterns_loop lower ps (replace_str result pat r) (Suc count)
      else filter_patterns_loop lower ps result count)"

definition filter_content_patterns :: "(string \<Rightarrow> string) \<Rightarrow> string \<Rightarrow> string \<times> nat" where
  "filter_content_patterns lower text = filter_patterns_loop lower get_content_filter_patterns text 0"

text \<open>\<open>split_whitespace\<close> is an argument; the windows of three consecutive words are counted.\<close>

definition windows3 :: "string list \<Rightarrow> string list" where
  "windows3 ws = map (\<lambda>i. ws ! i @ '' '' @ ws ! (i + 1) @ '' '' @ ws ! (i + 2)) [0..<length ws - 2]"

definition has_excessive_repetition :: "(string \<Rightarrow> string list) \<Rightarrow> string \<Rightarrow> bool" where
  "has_excessive_repetition split_whitespace text =
     (let ws = split_whitespace text in
      if length ws < 10 then False else (\<exists>p \<in> set (windows3 ws). 5 < count_list (windows3 ws) p))"

definition validate_format :: "(string \<Rightarrow> string list) \<Rightarrow> string \<Rightarrow> string + unit" where
  "validate_format split_whitespace out =
     (if CHR 0x00 \<in> set out then Inl ''Output contains null characters''
      else if has_excessive_repetition split_whitespace out then Inl ''Output contains excessive repetition''
      else if contains_str out (utf8 [0xC3, 0x83]) \<or> contains_str out (utf8 [0xC3, 0x82])
        then Inl ''Output may have encoding issues''
      else Inr ())"

section \<open>The sanitizer\<close>

record sanitization_result =
  sr_output :: string
  sr_modified :: bool
  sr_pii_redacted :: nat
  sr_content_filtered :: nat
  sr_warnings :: "string list"

definition truncate_to_limit :: "sanitizer_config \<Rightarrow> string \<Rightarrow> string \<times> bool" where
  "truncate_to_limit cfg text =
     (if length text \<le> max_length cfg then (text, False) else (take (back_to_boundary text (max_length cfg)) text, True))"

definition sanitize ::
  "(string \<Rightarrow> string) \<Rightarrow> (string \<Rightarrow> string) \<Rightarrow> pii_patterns \<Rightarrow> sanitizer_config \<Rightarrow> string \<Rightarrow> sanitization_result" where
  "sanitize lower nfkc pats cfg out =
     (let (r1, cut) = truncate_to_limit cfg out;
          (r2, n) = (if redact_pii cfg then redact_all nfkc pats cfg r1 else (r1, 0));
          r2 = (if 0 < n then r2 else r1);
          (r3, k) = (if filter_content cfg then filter_content_patterns lower r2 else (r2, 0));
          r3 = (if 0 < k then r3 else r2)
      in \<lparr>sr_output = r3, sr_modified = (cut \<or> 0 < n \<or> 0 < k), sr_pii_redacted = n, sr_content_filtered = k,
          sr_warnings = (if cut then [''Output truncated to '' @ show_nat (max_length cfg) @ '' characters''] else [])\<rparr>)"

definition egress_from_config :: "security_config \<Rightarrow> sanitizer_config option" where
  "egress_from_config cfg =
     (if enable_pii_detection cfg then Some (sanitizer_config_default\<lparr>redact_pii := cfg_redact_pii cfg\<rparr>) else None)"

record sanitized_output =
  so_output :: string
  so_modified :: bool
  so_redactions :: nat

definition sanitize_output ::
  "(string \<Rightarrow> string) \<Rightarrow> (string \<Rightarrow> string) \<Rightarrow> pii_patterns \<Rightarrow> sanitizer_config option \<Rightarrow> string \<Rightarrow> sanitized_output" where
  "sanitize_output lower nfkc pats egress out =
     (case egress of
        None \<Rightarrow> \<lparr>so_output = out, so_modified = False, so_redactions = 0\<rparr>
      | Some cfg \<Rightarrow>
          let r = sanitize lower nfkc pats cfg out in
          \<lparr>so_output = sr_output r, so_modified = sr_modified r,
           so_redactions = sr_pii_redacted r + sr_content_filtered r\<rparr>)"

section \<open>Overlap removal\<close>

text \<open>What the regular-expression crate guarantees of a match: a non-empty range on character boundaries.\<close>

definition valid_range :: "string \<Rightarrow> usize \<Rightarrow> usize \<Rightarrow> bool" where
  "valid_range text s e \<longleftrightarrow> s < e \<and> e \<le> length text \<and> is_char_boundary text s \<and> is_char_boundary text e"

definition patterns_ok :: "pii_patterns \<Rightarrow> bool" where
  "patterns_ok pats \<longleftrightarrow> (\<forall>(ty, find) \<in> set pats. \<forall>text. \<forall>(s, e) \<in> set (find text). valid_range text s e)"

fun disjoint_from :: "usize \<Rightarrow> pii_match list \<Rightarrow> bool" where
  "disjoint_from pos [] = True"
| "disjoint_from pos (m # ms) = (pos \<le> pm_start m \<and> disjoint_from (pm_end m) ms)"

abbreviation valid_match :: "string \<Rightarrow> pii_match \<Rightarrow> bool" where
  "valid_match text m \<equiv> valid_range text (pm_start m) (pm_end m)"

lemma disjoint_from_mono: "disjoint_from pos ms \<Longrightarrow> pos' \<le> pos \<Longrightarrow> disjoint_from pos' ms"
  by (cases ms) auto

lemma disjoint_from_filter:
  "disjoint_from pos ms \<Longrightarrow> \<forall>m \<in> set ms. valid_match text m \<Longrightarrow> disjoint_from pos (filter P ms)"
proof (induction ms arbitrary: pos)
  case Nil
  then show ?case by simp
next
  case (Cons m ms)
  then have "disjoint_from (pm_end m) (filter P ms)" by simp
  moreover have "pos \<le> pm_end m" using Cons.prems by (auto simp: valid_range_def)
  ultimately show ?case using Cons.prems(1) by (auto intro: disjoint_from_mono)
qed

lemma overlap_loop_props:
  assumes "sorted (map pm_start (current # ms))" and "\<forall>m \<in> set (current # ms). valid_match text m" and "b \<le> pm_start current"
  shows "disjoint_from b (overlap_loop current ms) \<and> set (overlap_loop current ms) \<subseteq> set (current # ms)"
  using assms
proof (induction current ms arbitrary: b rule: overlap_loop.induct)
  case (1 current)
  then show ?case by simp
next
  case (2 current m ms)
  show ?case
  proof (cases "pm_start m < pm_end current")
    case True
    define c where "c = (if f32_less (pm_confidence current) (pm_confidence m) then m else current)"
    have "disjoint_from b (overlap_loop c ms) \<and> set (overlap_loop c ms) \<subseteq> set (c # ms)"
      unfolding c_def using True "2.prems" by (intro "2.IH") auto
    then show ?thesis using True by (auto simp: c_def split: if_splits)
  next
    case False
    then have "disjoint_from (pm_end current) (overlap_loop m ms) \<and> set (overlap_loop m ms) \<subseteq> set (m # ms)"
      using "2.prems" by (intro "2.IH") auto
    then show ?thesis using False "2.prems" by auto
  qed
qed

lemma detect_props:
  assumes "patterns_ok pats"
  shows "disjoint_from 0 (detect nfkc pats text) \<and> (\<forall>m \<in> set (detect nfkc pats text). valid_match (nfkc text) m)"
proof -
  define all where "all = concat (map (pattern_matches (nfkc text)) pats)"
  have valid: "\<forall>m \<in> set all. valid_match (nfkc text) m"
    using assms unfolding all_def pattern_matches_def patterns_ok_def
    by (fastforce simp: Let_def split: if_splits)
  show ?thesis
  proof (cases "sort_key pm_start all")
    case Nil
    then show ?thesis by (simp add: detect_def all_def [symmetric])
  next
    case (Cons m ms)
    have "sorted (map pm_start (sort_key pm_start all))" "set (sort_key pm_start all) = set all" by simp_all
    then have "sorted (map pm_start (m # ms))" "\<forall>x \<in> set (m # ms). valid_match (nfkc text) x"
      using valid unfolding Cons by auto
    from overlap_loop_props [OF this, of 0] this(2) Cons show ?thesis
      by (auto simp: detect_def all_def [symmetric])
  qed
qed

section \<open>Redaction is a splice\<close>

text \<open>The reference: copy the text, with the range of each match replaced by its label.\<close>

fun splice :: "usize \<Rightarrow> string \<Rightarrow> pii_match list \<Rightarrow> string" where
  "splice pos text [] = drop pos text"
| "splice pos text (m # ms) = take (pm_start m - pos) (drop pos text) @ redaction m @ splice (pm_end m) text ms"

lemma boundary_drop:
  assumes "is_char_boundary text p" and "p \<le> q" and "q \<le> length text" and "p = 0 \<longrightarrow> A = []"
  shows "is_char_boundary (A @ drop p text) (length A + (q - p)) \<longleftrightarrow>
    is_char_boundary text q \<or> q = p"
proof (cases "q = length text")
  case True
  then show ?thesis using assms by (simp add: is_char_boundary_def)
next
  case False
  then have q: "q < length text" using assms by simp
  have "(A @ drop p text) ! (length A + (q - p)) = text ! q"
    unfolding nth_append_length_plus using assms q by simp
  then show ?thesis using assms q by (auto simp: is_char_boundary_def)
qed

lemma redaction_length: "length (redaction m) \<le> 33"
  by (cases "pm_type m") (simp_all add: redaction_def)

lemma usize_of_nat: "n < 2 ^ 64 \<Longrightarrow> usize_of (int n) = n"
  by (simp add: usize_of_def)

lemma redact_loop_splice:
  assumes "disjoint_from pos ms" and "\<forall>m \<in> set ms. valid_match text m" and "is_char_boundary text pos" and "pos \<le> length text"
    and "length A \<le> 34 * pos" and "length text < 2 ^ 58"
  shows "redact_loop W ms (A @ drop pos text) (int (length A) - int pos) k =
    (A @ splice pos text (filter W ms), k + length (filter W ms))"
  using assms(1-5)
proof (induction ms arbitrary: pos A k)
  case Nil
  then show ?case by simp
next
  case (Cons m ms)
  have m: "pm_start m < pm_end m" "pm_end m \<le> length text" "is_char_boundary text (pm_start m)" "is_char_boundary text (pm_end m)"
    "pos \<le> pm_start m" and rest: "disjoint_from (pm_end m) ms"
    using Cons.prems by (auto simp: valid_range_def)
  show ?case
  proof (cases "W m")
    case False
    have "disjoint_from pos ms" using rest m by (auto intro: disjoint_from_mono)
    then show ?thesis using False Cons by simp
  next
    case True
    let ?s = "length A + (pm_start m - pos)" and ?e = "length A + (pm_end m - pos)"
    have "?s < 2 ^ 64" "?e < 2 ^ 64" using Cons.prems m assms(6) by simp_all
    moreover have "int (pm_start m) + (int (length A) - int pos) = int ?s" "int (pm_end m) + (int (length A) - int pos) = int ?e"
      using m by simp_all
    ultimately have pos_s: "usize_of (int (pm_start m) + (int (length A) - int pos)) = ?s"
      and pos_e: "usize_of (int (pm_end m) + (int (length A) - int pos)) = ?e"
      by (simp_all only: usize_of_nat)
    let ?B = "A @ take (pm_start m - pos) (drop pos text) @ redaction m"
    have cut: "take ?s (A @ drop pos text) @ redaction m @ drop ?e (A @ drop pos text) = ?B @ drop (pm_end m) text"
      using m Cons.prems by simp
    have start: "pos = 0 \<longrightarrow> A = []" using Cons.prems(5) by auto
    have ok: "?s < length (A @ drop pos text)" "?e \<le> length (A @ drop pos text)"
      "is_char_boundary (A @ drop pos text) ?s" "is_char_boundary (A @ drop pos text) ?e"
      using m start Cons.prems boundary_drop [of "text" pos "pm_start m" A] boundary_drop [of "text" pos "pm_end m" A] by auto
    have len: "length ?B = length A + (pm_start m - pos) + length (redaction m)" using m Cons.prems by simp
    have off: "int (length A) - int pos + int (length (redaction m)) - int (pm_end m - pm_start m) =
        int (length ?B) - int (pm_end m)"
      unfolding len using m by simp
    have "length ?B \<le> 34 * pm_end m"
      unfolding len using redaction_length [of m] Cons.prems(5) m by linarith
    then have "redact_loop W ms (?B @ drop (pm_end m) text) (int (length ?B) - int (pm_end m)) (Suc k) =
        (?B @ splice (pm_end m) text (filter W ms), Suc k + length (filter W ms))"
      using Cons.prems m rest by (intro Cons.IH) auto
    then show ?thesis
      unfolding redact_loop.simps Let_def pos_s pos_e if_P [OF True] if_P [OF conjI [OF ok(1) conjI [OF ok(2) conjI [OF ok(3,4)]]]] cut off
      using True by simp
  qed
qed

text \<open>
  C17: Redaction is exact: the output is the normalised text in which the range of every detected match of a
  configured type and sufficient confidence is replaced by its label and every other byte is kept; without
  such a match the original bytes are returned. The count is the number of replaced matches.
\<close>

theorem redact_all_exact:
  fixes cfg :: sanitizer_config
  assumes "patterns_ok pats" and "\<forall>t. nfkc (nfkc t) = nfkc t" and "length (nfkc text) < 2 ^ 58"
  defines "ms \<equiv> filter (wanted cfg) (detect nfkc pats (nfkc text))"
  shows "redact_all nfkc pats cfg text =
      (if ms = [] then (text, 0) else (splice 0 (nfkc text) ms, length ms)) \<and>
    disjoint_from 0 ms \<and> (\<forall>m \<in> set ms. valid_match (nfkc text) m)"
proof -
  have all: "disjoint_from 0 (detect nfkc pats (nfkc text))" "\<forall>m \<in> set (detect nfkc pats (nfkc text)). valid_match (nfkc text) m"
    using detect_props [OF assms(1), of nfkc "nfkc text"] assms(2) by simp_all
  have "redact_loop (wanted cfg) (detect nfkc pats (nfkc text)) (nfkc text) 0 0 = (splice 0 (nfkc text) ms, length ms)"
    using redact_loop_splice [OF all is_char_boundary_0 _ _ assms(3), of "[]" "wanted cfg" 0] by (simp add: ms_def)
  then have "redact_all nfkc pats cfg text = (if ms = [] then (text, 0) else (splice 0 (nfkc text) ms, length ms))"
    by (simp add: redact_all_def Let_def)
  then show ?thesis using all disjoint_from_filter [OF all] unfolding ms_def by auto
qed

text \<open>A pattern that finds an account number at a fixed place.\<close>

definition sample_patterns :: pii_patterns where
  "sample_patterns = [(BankAccount, \<lambda>t. if t = ''id 12345678 ok'' then [(3, 11)] else [])]"

theorem redact_all_exact_witness:
  "redact_all (\<lambda>t. t) sample_patterns sanitizer_config_default ''id 12345678 ok'' = (''id [REDACTED:Bank Account] ok'', 1)"
proof -
  have "patterns_ok sample_patterns"
    by (auto simp: patterns_ok_def sample_patterns_def valid_range_def is_char_boundary_def is_continuation_def)
  moreover have det: "detect (\<lambda>t. t) sample_patterns ''id 12345678 ok'' =
      [\<lparr>pm_type = BankAccount, pm_text = ''12345678'', pm_start = 3, pm_end = 11, pm_confidence = f32_0_75\<rparr>]"
    by (simp add: detect_def sample_patterns_def pattern_matches_def)
  ultimately show ?thesis
    using redact_all_exact [of sample_patterns "\<lambda>t. t" "''id 12345678 ok''" sanitizer_config_default]
    by (simp add: wanted_def sanitizer_config_default_def f32_consts redaction_def)
qed

section \<open>The check digit\<close>

lemma luhn_sum_append:
  "luhn_sum b (xs @ ys) = luhn_sum b xs + luhn_sum (if even (length xs) then b else \<not> b) ys"
  by (induction xs arbitrary: b) auto

lemma luhn_digits_distinct:
  "distinct (map luhn_double [0..<10])" "\<forall>d \<in> set [0..<10]. luhn_double d < 10"
  by code_simp+

lemma luhn_digit_inject:
  assumes "d < 10" "e < 10" "(if b then luhn_double d else d) mod 10 = (if b then luhn_double e else e) mod 10"
  shows "d = e"
proof (cases b)
  case True
  have "inj_on luhn_double (set [0..<10])" using luhn_digits_distinct(1) unfolding distinct_map by blast
  moreover have "luhn_double d = luhn_double e" using True assms luhn_digits_distinct(2) by simp
  ultimately show ?thesis using assms(1,2) by (auto dest: inj_onD)
next
  case False
  then show ?thesis using assms by simp
qed

lemma mod10_cancel:
  assumes "(n + x) mod 10 = (0::nat)" "(n + y) mod 10 = 0"
  shows "x mod 10 = y mod 10"
proof -
  have shift: "z mod 10 = (9 * n + (n + z) mod 10) mod 10" for z :: nat
  proof -
    have "9 * n + (n + z) = z + n * 10" by simp
    then have "(9 * n + (n + z)) mod 10 = z mod 10" by (simp only: mod_mult_self1)
    then show ?thesis by (simp only: mod_add_right_eq)
  qed
  show ?thesis unfolding shift [of x] shift [of y] assms ..
qed

lemma digit_val_less: "is_ascii_digit c \<Longrightarrow> digit_val c < 10"
  by (auto simp: is_ascii_digit_def digit_val_def)

lemma digit_val_inject: "is_ascii_digit c \<Longrightarrow> is_ascii_digit c' \<Longrightarrow> digit_val c = digit_val c' \<Longrightarrow> c = c'"
proof -
  assume a: "is_ascii_digit c" "is_ascii_digit c'" "digit_val c = digit_val c'"
  then have "(of_char c :: nat) = of_char c'" by (simp only: is_ascii_digit_def digit_val_def) arith
  then show "c = c'" by simp
qed

text \<open>
  The credit-card check catches every mistyped digit: if a number passes and exactly one of its digits
  is replaced by another digit, the result does not pass.
\<close>

theorem luhn_detects_wrong_digit:
  assumes "luhn_check (xs @ c # ys)" and "is_ascii_digit c" "is_ascii_digit c'" "c' \<noteq> c"
  shows "\<not> luhn_check (xs @ c' # ys)"
proof
  assume bad: "luhn_check (xs @ c' # ys)"
  let ?ds = "\<lambda>s. map digit_val (filter is_ascii_digit s)"
  define b where "b = odd (length (?ds ys))"
  define n where "n = luhn_sum False (rev (?ds ys)) + luhn_sum (\<not> b) (rev (?ds xs))"
  have sum: "luhn_sum False (rev (?ds (xs @ x # ys))) = n + (if b then luhn_double (digit_val x) else digit_val x)"
    if "is_ascii_digit x" for x
    using that by (simp add: luhn_sum_append n_def b_def)
  have "(n + (if b then luhn_double (digit_val c) else digit_val c)) mod 10 = 0"
    "(n + (if b then luhn_double (digit_val c') else digit_val c')) mod 10 = 0"
    using assms(1) bad sum assms(2,3) by (auto simp: luhn_check_def Let_def split: if_splits)
  then have "(if b then luhn_double (digit_val c) else digit_val c) mod 10 =
      (if b then luhn_double (digit_val c') else digit_val c') mod 10"
    by (rule mod10_cancel)
  then have "digit_val c = digit_val c'"
    using luhn_digit_inject digit_val_less assms(2,3) by blast
  with assms digit_val_inject show False by blast
qed

theorem luhn_detects_wrong_digit_witness: "luhn_check ''4111111111111111'' \<and> \<not> luhn_check ''4111111111111121''"
proof -
  have "luhn_check (''41111111111111'' @ CHR 0x31 # ''1'')" by code_simp
  then show ?thesis
    using luhn_detects_wrong_digit [of "''41111111111111''" "CHR 0x31" "''1''" "CHR 0x32"]
    by (simp add: is_ascii_digit_def)
qed

section \<open>Observations\<close>

text \<open>
  Overlap removal keeps one match of an overlapping pair, not its union: the part of the dropped match that
  lies outside the kept one stays in the output.
\<close>

lemma overlap_removal_exposes_rest:
  "remove_overlaps
     [\<lparr>pm_type = BankAccount, pm_text = a, pm_start = 0, pm_end = 10, pm_confidence = f32_0_75\<rparr>,
      \<lparr>pm_type = SSN, pm_text = b, pm_start = 8, pm_end = 12, pm_confidence = f32_0_9\<rparr>] =
     [\<lparr>pm_type = SSN, pm_text = b, pm_start = 8, pm_end = 12, pm_confidence = f32_0_9\<rparr>]"
  by (simp add: f32_consts)

text \<open>
  A rule whose pattern has a capital letter is looked up in the lower-cased text and never fires; a rule
  that fires on differently cased text counts a filtering although the replacement changes nothing.
\<close>

lemma capital_pattern_never_filtered:
  assumes "\<forall>c \<in> set (lower text). \<not> (65 \<le> byte_val c \<and> byte_val c \<le> 90)"
  shows "\<not> contains_str (lower text) ''I want to die''"
proof
  assume "contains_str (lower text) ''I want to die''"
  then have "CHR 0x49 \<in> set (lower text)" using contains_str_set by fastforce
  with assms show False by force
qed

lemma cased_text_counted_but_kept:
  assumes "contains_str (lower text) pat" and "\<not> contains_str text pat"
  shows "filter_patterns_loop lower [(pat, r)] text k = (text, Suc k)"
  using assms by (simp add: replace_str_absent)

end
