(* ===== verification/Stream_Sanitizer.thy ===== *)
theory Stream_Sanitizer
  imports Security_Egress "HOL-Library.Sublist"
begin

text \<open>
  Streaming egress sanitization (\<open>security/stream_sanitizer.rs\<close>). \<open>push\<close> is fed the whole text
  generated so far and releases a settled prefix of its sanitized form; \<open>flush\<close> releases the rest.
  The sanitizer of the pipeline, \<open>sanitize_output(..).output\<close>, is the argument \<open>S\<close> of the operations,
  and \<open>char::is_alphanumeric\<close> (a Unicode table) the argument \<open>alnum\<close> on the bytes of one character.
  \<open>None\<close> is the panic of a slice that is out of range or splits a character.
\<close>

section \<open>State and cuts\<close>

definition HOLDBACK :: usize where
  "HOLDBACK = 128"

definition REBASE_THRESHOLD :: usize where
  "REBASE_THRESHOLD = 4 * HOLDBACK"

record stream_sanitizer =
  ss_holdback :: usize
  ss_emitted :: usize
  ss_stable_raw :: usize
  ss_stable_san :: string

definition ss_new :: stream_sanitizer where
  "ss_new = \<lparr>ss_holdback = HOLDBACK, ss_emitted = 0, ss_stable_raw = 0, ss_stable_san = []\<rparr>"

text \<open>\<open>while idx > 0 && alnum(chars[idx - 1]) && alnum(chars[idx]) { idx -= 1; }\<close>\<close>

fun back_to_word :: "(string \<Rightarrow> bool) \<Rightarrow> string list \<Rightarrow> nat \<Rightarrow> nat" where
  "back_to_word alnum chars 0 = 0"
| "back_to_word alnum chars (Suc i) =
     (if alnum (chars ! i) \<and> alnum (chars ! Suc i) then back_to_word alnum chars i else Suc i)"

definition release_cut :: "(string \<Rightarrow> bool) \<Rightarrow> string \<Rightarrow> usize \<Rightarrow> usize" where
  "release_cut alnum sanitized holdback =
     (let chars = utf8_chars sanitized in
      if length chars \<le> holdback then 0
      else
        let idx = back_to_word alnum chars (length chars - holdback)
        in if idx = 0 then 0 else length (concat (take idx chars)))"

definition floor_char_boundary :: "string \<Rightarrow> usize \<Rightarrow> usize" where
  "floor_char_boundary s i = back_to_boundary s (min i (length s))"

section \<open>Operations\<close>

definition sanitized :: "(string \<Rightarrow> string) \<Rightarrow> stream_sanitizer \<Rightarrow> string \<Rightarrow> string option" where
  "sanitized S st full =
     map_option (\<lambda>tail. ss_stable_san st @ S tail) (str_slice full (ss_stable_raw st) (length full))"

definition splits_cleanly :: "(string \<Rightarrow> string) \<Rightarrow> stream_sanitizer \<Rightarrow> string \<Rightarrow> usize \<Rightarrow> bool option" where
  "splits_cleanly S st full p =
     (let tail = ss_stable_raw st in
      Option.bind (str_slice full tail (length full)) (\<lambda>whole.
      Option.bind (str_slice full tail p) (\<lambda>left.
      Option.bind (str_slice full p (length full)) (\<lambda>right.
        Some (S whole = S left @ S right)))))"

text \<open>The backward scan; the outer \<open>None\<close> is a panic, \<open>Some None\<close> that no position was found.\<close>

fun clean_split_from ::
  "(string \<Rightarrow> string) \<Rightarrow> stream_sanitizer \<Rightarrow> string \<Rightarrow> usize \<Rightarrow> usize \<Rightarrow> usize option option" where
  "clean_split_from S st full limit 0 = Some None"
| "clean_split_from S st full limit (Suc p) =
     (if Suc p \<le> limit then Some None
      else if \<not> is_char_boundary full (Suc p) then clean_split_from S st full limit p
      else
        Option.bind (splits_cleanly S st full (Suc p)) (\<lambda>ok.
          if ok then Some (Some (Suc p)) else clean_split_from S st full limit p))"

definition clean_split_at_or_before ::
  "(string \<Rightarrow> string) \<Rightarrow> stream_sanitizer \<Rightarrow> string \<Rightarrow> usize \<Rightarrow> usize option option" where
  "clean_split_at_or_before S st full target =
     (let p = floor_char_boundary full target;
          limit = max (ss_stable_raw st) (p - 2 * ss_holdback st)
      in clean_split_from S st full limit p)"

definition maybe_rebase :: "(string \<Rightarrow> string) \<Rightarrow> string \<Rightarrow> stream_sanitizer \<Rightarrow> stream_sanitizer option" where
  "maybe_rebase S full st =
     (if length full < ss_stable_raw st then None
      else if length full - ss_stable_raw st \<le> REBASE_THRESHOLD then Some st
      else
        Option.bind (clean_split_at_or_before S st full (length full - 2 * ss_holdback st)) (\<lambda>found.
          case found of
            None \<Rightarrow> Some st
          | Some p \<Rightarrow>
              map_option (\<lambda>add. st\<lparr>ss_stable_san := ss_stable_san st @ S add, ss_stable_raw := p\<rparr>)
                (str_slice full (ss_stable_raw st) p)))"

definition ss_push ::
  "(string \<Rightarrow> string) \<Rightarrow> (string \<Rightarrow> bool) \<Rightarrow> string \<Rightarrow> stream_sanitizer \<Rightarrow> (string option \<times> stream_sanitizer) option" where
  "ss_push S alnum full st =
     Option.bind (sanitized S st full) (\<lambda>san.
       let cut = release_cut alnum san (ss_holdback st) in
       Option.bind (if ss_emitted st < cut then map_option Some (str_slice san (ss_emitted st) cut) else Some None) (\<lambda>out.
         let st1 = (if ss_emitted st < cut then st\<lparr>ss_emitted := cut\<rparr> else st)
         in map_option (\<lambda>st2. (out, st2)) (maybe_rebase S full st1)))"

definition ss_flush ::
  "(string \<Rightarrow> string) \<Rightarrow> string \<Rightarrow> stream_sanitizer \<Rightarrow> (string option \<times> stream_sanitizer) option" where
  "ss_flush S full st =
     Option.bind (sanitized S st full) (\<lambda>san.
       let st1 = st\<lparr>ss_emitted := length san\<rparr> in
       if length san \<le> ss_emitted st then Some (None, st1)
       else map_option (\<lambda>out. (Some out, st1)) (str_slice san (ss_emitted st) (length san)))"

text \<open>A whole stream: a push per text so far, then the flush; the released pieces in order.\<close>

fun run_stream ::
  "(string \<Rightarrow> string) \<Rightarrow> (string \<Rightarrow> bool) \<Rightarrow> string list \<Rightarrow> string \<Rightarrow> stream_sanitizer \<Rightarrow> string list option" where
  "run_stream S alnum [] final st = map_option (\<lambda>(out, _). [case out of None \<Rightarrow> [] | Some o1 \<Rightarrow> o1]) (ss_flush S final st)"
| "run_stream S alnum (t # ts) final st =
     Option.bind (ss_push S alnum t st) (\<lambda>(out, st').
       map_option (\<lambda>outs. (case out of None \<Rightarrow> [] | Some o1 \<Rightarrow> o1) # outs) (run_stream S alnum ts final st'))"

section \<open>Characters of a prefix\<close>

lemma utf8_chars_nonempty: "ch \<in> set (utf8_chars s) \<Longrightarrow> ch \<noteq> []"
  by (induction s rule: utf8_chars.induct) auto

lemma utf8_chars_drop: "utf8_chars (concat (drop i (utf8_chars s))) = drop i (utf8_chars s)"
proof (induction s arbitrary: i rule: utf8_chars.induct)
  case (2 c s)
  show ?case by (cases i) (simp_all add: 2)
qed simp

lemma concat_take_head:
  "concat (take j (utf8_chars s)) = [] \<or> s \<noteq> [] \<and> hd (concat (take j (utf8_chars s))) = hd s"
  by (cases s; cases j) simp_all

lemma no_leading: "xs = [] \<or> \<not> P (hd xs) \<Longrightarrow> takeWhile P xs = [] \<and> dropWhile P xs = xs"
  by (cases xs) auto

lemma utf8_chars_Cons_append:
  assumes "\<forall>x \<in> set xs. is_continuation x" and "ys = [] \<or> \<not> is_continuation (hd ys)"
  shows "utf8_chars (c # xs @ ys) = (c # xs) # utf8_chars ys"
  using assms(1) no_leading [of ys is_continuation] assms(2) by (simp add: takeWhile_append2 dropWhile_append2)

lemma utf8_chars_take: "utf8_chars (concat (take i (utf8_chars s))) = take i (utf8_chars s)"
proof (induction s arbitrary: i rule: utf8_chars.induct)
  case (2 c s)
  show ?case
  proof (cases i)
    case (Suc j)
    define s' where "s' = dropWhile is_continuation s"
    have "concat (take j (utf8_chars s')) = [] \<or> \<not> is_continuation (hd (concat (take j (utf8_chars s'))))"
      using concat_take_head [of j s'] hd_dropWhile [of is_continuation s] unfolding s'_def by metis
    moreover have "\<forall>x \<in> set (takeWhile is_continuation s). is_continuation x" by (auto dest: set_takeWhileD)
    ultimately show ?thesis
      using 2 [of j] utf8_chars_Cons_append [of "takeWhile is_continuation s" "concat (take j (utf8_chars s'))" c]
      by (simp add: Suc s'_def)
  qed simp
qed simp

lemma utf8_chars_prefix: "i < length (utf8_chars s) \<Longrightarrow> prefix (take i (utf8_chars s)) (utf8_chars (s @ u))"
proof (induction s arbitrary: i rule: utf8_chars.induct)
  case (2 c s)
  show ?case
  proof (cases i)
    case (Suc j)
    with 2 have j: "j < length (utf8_chars (dropWhile is_continuation s))" by simp
    then have "dropWhile is_continuation s \<noteq> []" by (cases "dropWhile is_continuation s") auto
    then have "\<exists>x \<in> set s. \<not> is_continuation x" by (simp add: dropWhile_eq_Nil_conv)
    then have "takeWhile is_continuation (s @ u) = takeWhile is_continuation s"
      "dropWhile is_continuation (s @ u) = dropWhile is_continuation s @ u"
      by (auto simp: takeWhile_append dropWhile_append)
    then show ?thesis using "2.IH" [OF j] by (simp add: Suc)
  qed simp
qed simp

lemma boundary_of_take: "is_char_boundary s (length (concat (take i (utf8_chars s))))"
proof (induction s arbitrary: i rule: utf8_chars.induct)
  case (2 c s)
  show ?case
  proof (cases i)
    case (Suc j)
    define s' where "s' = dropWhile is_continuation s"
    define m where "m = length (concat (take j (utf8_chars s')))"
    have s: "s = takeWhile is_continuation s @ s'" by (simp add: s'_def)
    have pos: "length (concat (take i (utf8_chars (c # s)))) = Suc (length (takeWhile is_continuation s) + m)"
      by (simp add: Suc s'_def m_def)
    have b: "is_char_boundary s' m" using 2 [of j] by (simp add: s'_def m_def)
    have len: "length (c # s) = Suc (length (takeWhile is_continuation s) + length s')"
      by (subst s) simp
    have at: "(c # s) ! Suc (length (takeWhile is_continuation s) + m) = s' ! m"
      by (subst s) (simp add: nth_append)
    have head: "\<not> is_continuation (s' ! 0)" if "s' \<noteq> []"
      using that hd_dropWhile [of is_continuation s] by (simp add: s'_def hd_conv_nth)
    show ?thesis
      unfolding pos is_char_boundary_def len at
      using b head by (auto simp: is_char_boundary_def)
  qed simp
qed simp

section \<open>What a push releases\<close>

lemma back_to_word_le: "back_to_word alnum chars i \<le> i"
  by (induction i) auto

lemma back_to_word_stop:
  "back_to_word alnum chars i = Suc k \<Longrightarrow> \<not> (alnum (chars ! k) \<and> alnum (chars ! Suc k))"
  by (induction i) (auto split: if_splits)

text \<open>The settled characters: those before the cut.\<close>

definition settled :: "(string \<Rightarrow> bool) \<Rightarrow> usize \<Rightarrow> string \<Rightarrow> string list" where
  "settled alnum holdback s =
     (let chars = utf8_chars s in
      if length chars \<le> holdback then [] else take (back_to_word alnum chars (length chars - holdback)) chars)"

lemma release_cut_settled: "release_cut alnum s h = length (concat (settled alnum h s))"
  by (simp add: release_cut_def settled_def Let_def)

lemma settled_take:
  assumes "settled alnum h s \<noteq> []"
  obtains k where "settled alnum h s = take (Suc k) (utf8_chars s)" "Suc k + h \<le> length (utf8_chars s)"
    "\<not> (alnum (utf8_chars s ! k) \<and> alnum (utf8_chars s ! Suc k))"
proof (cases "back_to_word alnum (utf8_chars s) (length (utf8_chars s) - h)")
  case 0
  with assms show ?thesis by (simp add: settled_def Let_def split: if_splits)
next
  case (Suc k)
  from assms have long: "h < length (utf8_chars s)" by (simp add: settled_def Let_def split: if_splits)
  have "Suc k \<le> length (utf8_chars s) - h"
    using back_to_word_le [of alnum "utf8_chars s" "length (utf8_chars s) - h"] Suc by simp
  with long Suc back_to_word_stop [OF Suc] show ?thesis by (intro that) (simp_all add: settled_def)
qed

lemma settled_take_any: "\<exists>k. settled alnum h s = take k (utf8_chars s)"
  by (auto simp: settled_def Let_def)

lemma cut_splits:
  assumes "settled alnum h s = take k (utf8_chars s)"
  shows "take (release_cut alnum s h) s = concat (take k (utf8_chars s)) \<and>
    drop (release_cut alnum s h) s = concat (drop k (utf8_chars s))"
proof -
  have "s = concat (take k (utf8_chars s)) @ concat (drop k (utf8_chars s))"
    by (metis append_take_drop_id concat_append concat_utf8_chars)
  then show ?thesis
    unfolding release_cut_settled assms by (metis append_eq_conv_conj)
qed

text \<open>
  Text near the growing end is withheld: whatever a push releases is the next piece of the sanitized
  text after what was released before, at least the hold-back (128 characters) of sanitized text follow it,
  and the cut does not fall between two alphanumeric characters.
\<close>

theorem push_holds_back:
  assumes "ss_push S alnum full st = Some (Some out, st')"
  shows "\<exists>san post. sanitized S st full = Some san \<and> san = take (ss_emitted st) san @ out @ post \<and>
    ss_emitted st' = ss_emitted st + length out \<and> out \<noteq> [] \<and>
    ss_holdback st \<le> length (utf8_chars post) \<and>
    (0 < ss_holdback st \<longrightarrow>
      \<not> (alnum (last (utf8_chars (take (ss_emitted st') san))) \<and> alnum (hd (utf8_chars post))))"
proof -
  obtain san where san: "sanitized S st full = Some san"
    using assms by (auto simp: ss_push_def bind_eq_Some_conv)
  let ?cut = "release_cut alnum san (ss_holdback st)"
  have cut: "ss_emitted st < ?cut" and slice: "str_slice san (ss_emitted st) ?cut = Some out"
    and st': "maybe_rebase S full (st\<lparr>ss_emitted := ?cut\<rparr>) = Some st'"
    using assms san by (auto simp: ss_push_def Let_def bind_eq_Some_conv split: if_splits)
  have out: "out = take (?cut - ss_emitted st) (drop (ss_emitted st) san)" and le: "?cut \<le> length san"
    using slice by (auto simp: str_slice_def split: if_splits)
  have em: "ss_emitted st' = ?cut"
    using st' by (auto simp: maybe_rebase_def bind_eq_Some_conv split: if_splits option.splits)
  have ne: "settled alnum (ss_holdback st) san \<noteq> []"
    using cut by (auto simp: release_cut_settled)
  obtain k where k: "settled alnum (ss_holdback st) san = take (Suc k) (utf8_chars san)"
    "Suc k + ss_holdback st \<le> length (utf8_chars san)"
    "\<not> (alnum (utf8_chars san ! k) \<and> alnum (utf8_chars san ! Suc k))"
    using settled_take [OF ne] by metis
  note parts = cut_splits [OF k(1)]
  have "san = take (ss_emitted st) san @ out @ drop ?cut san"
    using cut le unfolding out by (metis append.assoc append_take_drop_id le_add_diff_inverse less_imp_le take_add)
  moreover have "utf8_chars (drop ?cut san) = drop (Suc k) (utf8_chars san)"
    using parts utf8_chars_drop by metis
  moreover have "utf8_chars (take ?cut san) = take (Suc k) (utf8_chars san)"
    using parts utf8_chars_take by metis
  moreover have "last (take (Suc k) (utf8_chars san)) = utf8_chars san ! k"
    using k(2) by (simp add: take_Suc_conv_app_nth)
  moreover have "hd (drop (Suc k) (utf8_chars san)) = utf8_chars san ! Suc k" if "0 < ss_holdback st"
    using k(2) that by (simp add: hd_drop_conv_nth)
  moreover have "length out = ?cut - ss_emitted st" "out \<noteq> []"
    using cut le by (auto simp: out)
  ultimately show ?thesis
    using san em k cut by (intro exI [of _ san] exI [of _ "drop ?cut san"]) auto
qed

theorem push_holds_back_witness:
  "\<exists>san post. sanitized (\<lambda>t. t) (ss_new\<lparr>ss_holdback := 2\<rparr>) ''a b c'' = Some san \<and> san = ''a b'' @ post \<and>
     2 \<le> length (utf8_chars post)"
proof -
  have "ss_push (\<lambda>t. t) (\<lambda>ch. ch \<noteq> '' '') ''a b c'' (ss_new\<lparr>ss_holdback := 2\<rparr>) =
      Some (Some ''a b'', ss_new\<lparr>ss_holdback := 2, ss_emitted := 3\<rparr>)"
    by code_simp
  from push_holds_back [OF this] show ?thesis by (auto simp: ss_new_def)
qed

section \<open>Streaming and batch sanitization\<close>

text \<open>
  What the module comment promises of the pipeline: text that is settled stays as it is when more text
  arrives, and a split that is clean with at least twice the hold-back behind it stays clean.
\<close>

definition stays_settled :: "(string \<Rightarrow> bool) \<Rightarrow> (string \<Rightarrow> string) \<Rightarrow> bool" where
  "stays_settled alnum S \<longleftrightarrow> (\<forall>t u. prefix (settled alnum HOLDBACK (S t)) (utf8_chars (S (t @ u))))"

definition stays_clean :: "(string \<Rightarrow> string) \<Rightarrow> bool" where
  "stays_clean S \<longleftrightarrow>
     (\<forall>a b c. S (a @ b) = S a @ S b \<and> 2 * HOLDBACK \<le> length b \<longrightarrow> S (a @ b @ c) = S a @ S (b @ c))"

text \<open>The invariant between pushes; \<open>cs\<close> are the characters released so far.\<close>

definition stream_inv :: "(string \<Rightarrow> string) \<Rightarrow> string \<Rightarrow> string list \<Rightarrow> stream_sanitizer \<Rightarrow> bool" where
  "stream_inv S t cs st \<longleftrightarrow>
     ss_holdback st = HOLDBACK \<and> is_char_boundary t (ss_stable_raw st) \<and>
     (ss_stable_raw st = 0 \<or> ss_stable_raw st < length t) \<and>
     (\<forall>u. S (t @ u) = ss_stable_san st @ S (drop (ss_stable_raw st) (t @ u))) \<and>
     ss_emitted st = length (concat cs) \<and> (\<forall>u. prefix cs (utf8_chars (S (t @ u))))"

lemma stream_inv_new: "stream_inv S t [] ss_new"
  by (simp add: stream_inv_def ss_new_def)

lemma boundary_extend: "is_char_boundary t p \<Longrightarrow> p = 0 \<or> p < length t \<Longrightarrow> is_char_boundary (t @ u) p"
  by (auto simp: is_char_boundary_def nth_append)

lemma stream_inv_extend: "stream_inv S t cs st \<Longrightarrow> stream_inv S (t @ u) cs st"
  by (auto simp: stream_inv_def intro: boundary_extend)

lemma sanitized_whole:
  assumes "stream_inv S t cs st"
  shows "sanitized S st t = Some (S t)"
proof -
  have "S t = ss_stable_san st @ S (drop (ss_stable_raw st) t)"
    using assms unfolding stream_inv_def by (metis append_Nil2)
  with assms show ?thesis by (auto simp: sanitized_def str_slice_def stream_inv_def)
qed

lemma stream_inv_emitted:
  assumes "stream_inv S t cs st" and "\<forall>u. prefix cs' (utf8_chars (S (t @ u)))"
  shows "stream_inv S t cs' (st\<lparr>ss_emitted := length (concat cs')\<rparr>)"
  using assms unfolding stream_inv_def by simp

lemma stream_inv_released:
  assumes "stream_inv S t cs st"
  shows "prefix cs (utf8_chars (S t))"
proof -
  have "prefix cs (utf8_chars (S (t @ [])))" using assms unfolding stream_inv_def by blast
  then show ?thesis by simp
qed

lemma chars_less:
  assumes "prefix cs (utf8_chars s)" and "length (concat cs) < length (concat (take k (utf8_chars s)))"
  shows "prefix cs (take k (utf8_chars s))"
proof (rule ccontr)
  assume "\<not> ?thesis"
  with assms(1) have "prefix (take k (utf8_chars s)) cs"
    by (meson prefix_same_cases take_is_prefix)
  then obtain r where "cs = take k (utf8_chars s) @ r" by (auto simp: prefix_def)
  with assms(2) show False by simp
qed

lemma clean_split_from_Some:
  "clean_split_from S st full limit p = Some (Some q) \<Longrightarrow>
   limit < q \<and> q \<le> p \<and> is_char_boundary full q \<and> splits_cleanly S st full q = Some True"
proof (induction p)
  case (Suc p)
  then show ?case by (auto simp: bind_eq_Some_conv split: if_splits)
qed simp

lemma clean_split_from_total:
  assumes "is_char_boundary full (ss_stable_raw st)" "ss_stable_raw st \<le> limit" "p \<le> length full"
  shows "clean_split_from S st full limit p \<noteq> None"
  using assms(3)
proof (induction p)
  case (Suc p)
  with assms(1,2) show ?case by (auto simp: splits_cleanly_def str_slice_def Let_def)
qed simp

lemma maybe_rebase_inv:
  assumes clean: "stays_clean S" and inv: "stream_inv S t cs st"
  shows "\<exists>st'. maybe_rebase S t st = Some st' \<and> stream_inv S t cs st'"
proof (cases "length t - ss_stable_raw st \<le> REBASE_THRESHOLD")
  case True
  with inv show ?thesis by (auto simp: maybe_rebase_def stream_inv_def)
next
  case False
  let ?raw = "ss_stable_raw st" and ?target = "length t - 2 * ss_holdback st"
  have h: "ss_holdback st = HOLDBACK" and b: "is_char_boundary t ?raw" and raw: "?raw \<le> length t"
    using inv by (auto simp: stream_inv_def)
  let ?p = "floor_char_boundary t ?target"
  have p_le: "?p \<le> ?target"
    using back_to_boundary_le [of t "min ?target (length t)"] by (simp add: floor_char_boundary_def)
  have "clean_split_at_or_before S st t ?target \<noteq> None"
    unfolding clean_split_at_or_before_def Let_def
    by (rule clean_split_from_total) (use b p_le in auto)
  then obtain found where found: "clean_split_at_or_before S st t ?target = Some found" by blast
  show ?thesis
  proof (cases found)
    case None
    with found False raw inv show ?thesis by (simp add: maybe_rebase_def)
  next
    case (Some q)
    with found have "clean_split_from S st t (max ?raw (?p - 2 * ss_holdback st)) ?p = Some (Some q)"
      by (simp add: clean_split_at_or_before_def Let_def)
    from clean_split_from_Some [OF this]
    have q: "?raw < q" "q \<le> ?p" "is_char_boundary t q" "splits_cleanly S st t q = Some True" by simp_all
    have len: "2 * HOLDBACK < length t" using False by (simp add: REBASE_THRESHOLD_def HOLDBACK_def)
    have q_len: "q + 2 * HOLDBACK \<le> length t" using q(2) p_le h len by simp
    define a where "a = take (q - ?raw) (drop ?raw t)"
    define b2 where "b2 = drop q t"
    have whole: "drop ?raw t = a @ b2"
      unfolding a_def b2_def using q(1) by (metis append_take_drop_id drop_drop le_add_diff_inverse2 less_imp_le)
    have slices: "str_slice t ?raw q = Some a" "str_slice t ?raw (length t) = Some (drop ?raw t)"
      "str_slice t q (length t) = Some b2"
      using q b raw q_len by (auto simp: str_slice_def a_def b2_def)
    have "S (a @ b2) = S a @ S b2"
      using q(4) slices whole by (simp add: splits_cleanly_def Let_def)
    then have split: "S (a @ b2 @ u) = S a @ S (b2 @ u)" for u
      using clean q_len by (simp add: stays_clean_def b2_def)
    have "S (t @ u) = (ss_stable_san st @ S a) @ S (drop q (t @ u))" for u
    proof -
      have "S (t @ u) = ss_stable_san st @ S (drop ?raw t @ u)"
        using inv raw by (simp add: stream_inv_def)
      also have "\<dots> = ss_stable_san st @ S a @ S (b2 @ u)"
        using split by (simp add: whole)
      finally show ?thesis using q_len by (simp add: b2_def)
    qed
    moreover have "maybe_rebase S t st = Some (st\<lparr>ss_stable_san := ss_stable_san st @ S a, ss_stable_raw := q\<rparr>)"
      using False raw found Some slices(1) by (simp add: maybe_rebase_def)
    ultimately show ?thesis
      using inv q q_len by (auto simp: stream_inv_def HOLDBACK_def)
  qed
qed

lemma push_inv:
  assumes settled: "stays_settled alnum S" and clean: "stays_clean S" and inv: "stream_inv S t cs st"
  shows "\<exists>out st' cs'. ss_push S alnum t st = Some (out, st') \<and> stream_inv S t cs' st' \<and>
    concat cs' = concat cs @ (case out of None \<Rightarrow> [] | Some o1 \<Rightarrow> o1)"
proof -
  have san: "sanitized S st t = Some (S t)" by (rule sanitized_whole [OF inv])
  have h: "ss_holdback st = HOLDBACK" and em: "ss_emitted st = length (concat cs)" using inv by (simp_all add: stream_inv_def)
  have pre: "prefix cs (utf8_chars (S t))" by (rule stream_inv_released [OF inv])
  let ?cut = "release_cut alnum (S t) HOLDBACK"
  obtain k where k: "settled alnum HOLDBACK (S t) = take k (utf8_chars (S t))" using settled_take_any by blast
  show ?thesis
  proof (cases "ss_emitted st < ?cut")
    case False
    from maybe_rebase_inv [OF clean inv] obtain st' where "maybe_rebase S t st = Some st'" "stream_inv S t cs st'" by blast
    then show ?thesis using san h False by (auto simp: ss_push_def Let_def)
  next
    case True
    let ?cs = "settled alnum HOLDBACK (S t)"
    have "prefix cs ?cs" using chars_less [OF pre, of k] True k em by (simp add: release_cut_settled)
    then obtain r where r: "?cs = cs @ r" by (auto simp: prefix_def)
    have s: "S t = concat cs @ concat r @ drop ?cut (S t)"
      using cut_splits [OF k] k r by (metis append.assoc append_take_drop_id concat_append)
    have cut: "?cut = length (concat cs) + length (concat r)" by (simp add: release_cut_settled r)
    obtain j where j: "cs = take j (utf8_chars (S t))" using pre by (metis append_eq_conv_conj prefix_def)
    have "is_char_boundary (S t) (length (concat cs))" "is_char_boundary (S t) ?cut"
      unfolding release_cut_settled k by (simp_all add: j boundary_of_take)
    moreover have "?cut \<le> length (S t)" unfolding cut by (subst s) simp
    moreover have "take (length (concat r)) (drop (length (concat cs)) (S t)) = concat r"
      by (subst s) simp
    ultimately have slice: "str_slice (S t) (ss_emitted st) ?cut = Some (concat r)"
      using True em cut by (simp add: str_slice_def)
    have inv1: "stream_inv S t ?cs (st\<lparr>ss_emitted := ?cut\<rparr>)"
      unfolding release_cut_settled using settled by (intro stream_inv_emitted [OF inv]) (simp add: stays_settled_def)
    from maybe_rebase_inv [OF clean inv1] obtain st'
      where "maybe_rebase S t (st\<lparr>ss_emitted := ?cut\<rparr>) = Some st'" "stream_inv S t ?cs st'" by blast
    then have "ss_push S alnum t st = Some (Some (concat r), st') \<and> stream_inv S t ?cs st' \<and>
        concat ?cs = concat cs @ concat r"
      using san h True slice r by (simp add: ss_push_def Let_def)
    then show ?thesis by (metis option.simps(5))
  qed
qed

lemma flush_rest:
  assumes inv: "stream_inv S t cs st"
  shows "\<exists>out st'. ss_flush S t st = Some (out, st') \<and> S t = concat cs @ (case out of None \<Rightarrow> [] | Some o1 \<Rightarrow> o1)"
proof -
  have san: "sanitized S st t = Some (S t)" by (rule sanitized_whole [OF inv])
  have em: "ss_emitted st = length (concat cs)" using inv by (simp add: stream_inv_def)
  have pre: "prefix cs (utf8_chars (S t))" by (rule stream_inv_released [OF inv])
  obtain j where j: "cs = take j (utf8_chars (S t))" using pre by (metis append_eq_conv_conj prefix_def)
  have s: "S t = concat cs @ drop (length (concat cs)) (S t)"
    unfolding j by (metis append_eq_conv_conj append_take_drop_id concat_append concat_utf8_chars)
  have b: "is_char_boundary (S t) (length (concat cs))" by (simp add: j boundary_of_take)
  show ?thesis
  proof (cases "length (S t) \<le> length (concat cs)")
    case True
    then show ?thesis using san em s by (auto simp: ss_flush_def)
  next
    case False
    then show ?thesis using san em s b by (auto simp: ss_flush_def str_slice_def)
  qed
qed

lemma run_stream_rest:
  assumes "stays_settled alnum S" "stays_clean S" "sorted_wrt prefix (t # ts @ [final])" "stream_inv S t cs st"
  shows "\<exists>outs. run_stream S alnum ts final st = Some outs \<and> S final = concat cs @ concat outs"
  using assms(3,4)
proof (induction ts arbitrary: t cs st)
  case Nil
  then obtain u where u: "final = t @ u" by (auto simp: prefix_def)
  with Nil have "stream_inv S final cs st" by (simp add: stream_inv_extend)
  from flush_rest [OF this] show ?case by auto
next
  case (Cons t1 ts)
  then obtain u where u: "t1 = t @ u" by (auto simp: prefix_def)
  with Cons have "stream_inv S t1 cs st" by (simp add: stream_inv_extend)
  from push_inv [OF assms(1,2) this] obtain out st' cs' where
    step: "ss_push S alnum t1 st = Some (out, st')" "stream_inv S t1 cs' st'"
      "concat cs' = concat cs @ (case out of None \<Rightarrow> [] | Some o1 \<Rightarrow> o1)" by blast
  from Cons.IH [OF _ step(2)] Cons.prems(1) obtain outs where
    "run_stream S alnum ts final st' = Some outs" "S final = concat cs' @ concat outs" by auto
  with step show ?case by auto
qed


text \<open>A sanitizer that masks digits one by one satisfies both promises.\<close>

definition mask_digits :: "string \<Rightarrow> string" where
  "mask_digits = map (\<lambda>c. if is_ascii_digit c then CHR ''#'' else c)"

lemma homomorphic_stays:
  assumes "\<And>a b. S (a @ b) = S a @ S b"
  shows "stays_settled alnum S" "stays_clean S"
proof -
  have "prefix (settled alnum HOLDBACK (S t)) (utf8_chars (S (t @ u)))" for t u
  proof (cases "settled alnum HOLDBACK (S t) = []")
    case False
    from settled_take [OF this] obtain k where
      "settled alnum HOLDBACK (S t) = take (Suc k) (utf8_chars (S t))" "Suc k + HOLDBACK \<le> length (utf8_chars (S t))"
      by metis
    then show ?thesis using utf8_chars_prefix [of "Suc k" "S t" "S u"] assms by (simp add: HOLDBACK_def)
  qed simp
  then show "stays_settled alnum S" by (simp add: stays_settled_def)
  show "stays_clean S" by (simp add: stays_clean_def assms)
qed


end
