(* ===== verification/Gguf_Backend.thy ===== *)
theory Gguf_Backend
  imports Stream_Sanitizer
begin

text \<open>
  Text generation with the llama.cpp backend (\<open>engine/gguf/backend.rs\<close>, \<open>engine/gguf/generator.rs\<close>)
  and the input and output types of a model call (\<open>engine/input.rs\<close>, \<open>engine/output.rs\<close>).

  The native library is the record \<open>llama\<close> of its functions: tokenizer, vocabulary, batch building,
  \<open>decode\<close> and \<open>sample\<close>. Nothing is assumed of them unless a theorem says so. A run keeps the batches
  it handed to the native decoder, which are the contents of the context, and counts how often it
  polled the stop callback; the callback is a function of that count.
\<close>

section \<open>Inputs and outputs of a model\<close>

definition MAX_TEXT_BYTES :: usize where "MAX_TEXT_BYTES = 65536"
definition MAX_BATCH_SIZE :: usize where "MAX_BATCH_SIZE = 32"

datatype chat_role = RoleSystem | RoleUser | RoleAssistant

record chat_message =
  cm_role :: chat_role
  cm_content :: string

datatype inference_input =
    InText string
  | InTextBatch "string list"
  | InChatMessages "chat_message list"

definition validate_text :: "string \<Rightarrow> engine_error + unit" where
  "validate_text text =
     (if text = [] then Inl (EInputValidation ''text cannot be empty'')
      else if MAX_TEXT_BYTES < length text
        then Inl (EInputValidation (''text exceeds maximum size: '' @ show_nat (length text) @ '' > '' @ show_nat MAX_TEXT_BYTES @ '' bytes''))
      else Inr ())"

fun validate_items :: "usize \<Rightarrow> string list \<Rightarrow> engine_error + unit" where
  "validate_items i [] = Inr ()"
| "validate_items i (t # ts) =
     (case validate_text t of Inl e \<Rightarrow> Inl (EBatchItemValidation i e) | Inr _ \<Rightarrow> validate_items (Suc i) ts)"

definition validate_batch :: "string list \<Rightarrow> engine_error + unit" where
  "validate_batch batch =
     (if batch = [] then Inl (EInputValidation ''batch cannot be empty'')
      else if MAX_BATCH_SIZE < length batch
        then Inl (EInputValidation (''batch exceeds maximum size: '' @ show_nat (length batch) @ '' > '' @ show_nat MAX_BATCH_SIZE))
      else validate_items 0 batch)"

definition validate_messages :: "chat_message list \<Rightarrow> engine_error + unit" where
  "validate_messages ms =
     (let total_bytes = sum_list (map (length \<circ> cm_content) ms) in
      if ms = [] then Inl (EInputValidation ''messages cannot be empty'')
      else if MAX_TEXT_BYTES < total_bytes
        then Inl (EInputValidation (''total message content exceeds maximum: '' @ show_nat total_bytes @ '' > '' @ show_nat MAX_TEXT_BYTES @ '' bytes''))
      else if \<exists>m \<in> set ms. cm_content m = [] then Inl (EInputValidation ''message content cannot be empty'')
      else Inr ())"

fun input_validate :: "inference_input \<Rightarrow> engine_error + unit" where
  "input_validate (InText t) = validate_text t"
| "input_validate (InTextBatch b) = validate_batch b"
| "input_validate (InChatMessages ms) = validate_messages ms"

fun byte_size :: "inference_input \<Rightarrow> usize" where
  "byte_size (InText t) = length t"
| "byte_size (InTextBatch b) = sum_list (map length b)"
| "byte_size (InChatMessages ms) = sum_list (map (length \<circ> cm_content) ms)"

datatype finish_reason = FinStop | FinMaxTokens | FinTimeout | FinContentFiltered | FinCancelled

record classification_result =
  cl_label :: string
  cl_confidence :: f32
  cl_all_labels :: "(string \<times> f32) list"

record generation_result =
  gr_text :: string
  gr_tokens_generated :: nat
  gr_finish_reason :: finish_reason

record embedding_result =
  em_vector :: "f32 list"
  em_dimensions :: usize

record entity_result =
  en_text :: string
  en_label :: string
  en_start :: usize
  en_end :: usize
  en_confidence :: f32

datatype inference_output =
    Classification classification_result
  | Generation generation_result
  | Embedding embedding_result
  | EmbeddingBatch "embedding_result list"
  | Entities "entity_result list"

section \<open>Lossy UTF-8\<close>

text \<open>
  \<open>String::from_utf8_lossy\<close>: the length of the first sequence and whether it is well-formed. An
  ill-formed sequence is the longest start of a well-formed one, or a single byte.
\<close>

definition byte_in :: "nat \<Rightarrow> nat \<Rightarrow> char \<Rightarrow> bool" where
  "byte_in lo hi c \<longleftrightarrow> lo \<le> byte_val c \<and> byte_val c \<le> hi"

fun rest_ok :: "nat \<Rightarrow> nat \<Rightarrow> string \<Rightarrow> nat \<times> bool" where
  "rest_ok n 0 s = (n, True)"
| "rest_ok n (Suc k) [] = (n, False)"
| "rest_ok n (Suc k) (c # s) = (if is_continuation c then rest_ok (Suc n) k s else (n, False))"

definition second_ok :: "nat \<Rightarrow> nat \<Rightarrow> nat \<Rightarrow> string \<Rightarrow> nat \<times> bool" where
  "second_ok lo hi k s =
     (case s of [] \<Rightarrow> (1, False) | c # s' \<Rightarrow> if byte_in lo hi c then rest_ok 2 k s' else (1, False))"

definition utf8_seq :: "char \<Rightarrow> string \<Rightarrow> nat \<times> bool" where
  "utf8_seq c s =
     (let b = byte_val c in
      if b < 0x80 then (1, True)
      else if 0xC2 \<le> b \<and> b \<le> 0xDF then second_ok 0x80 0xBF 0 s
      else if b = 0xE0 then second_ok 0xA0 0xBF 1 s
      else if 0xE1 \<le> b \<and> b \<le> 0xEC \<or> b = 0xEE \<or> b = 0xEF then second_ok 0x80 0xBF 1 s
      else if b = 0xED then second_ok 0x80 0x9F 1 s
      else if b = 0xF0 then second_ok 0x90 0xBF 2 s
      else if 0xF1 \<le> b \<and> b \<le> 0xF3 then second_ok 0x80 0xBF 2 s
      else if b = 0xF4 then second_ok 0x80 0x8F 2 s
      else (1, False))"

function from_utf8_lossy :: "string \<Rightarrow> string" where
  "from_utf8_lossy [] = []"
| "from_utf8_lossy (c # s) =
     (let (n, ok) = utf8_seq c s in
      (if ok then c # take (n - 1) s else utf8 [0xEF, 0xBF, 0xBD]) @ from_utf8_lossy (drop (n - 1) s))"
  by pat_completeness auto
termination
  by (relation "measure length") auto

section \<open>The native library\<close>

type_synonym ltok = int

text \<open>A token with its position and whether its logits are wanted.\<close>

type_synonym batch_entry = "ltok \<times> int \<times> bool"
type_synonym batch = "batch_entry list"

datatype sampler_stage = Penalties int nat f32 | TopK int | TopP f32 | Temp f32 | Dist nat

record sampler =
  sm_stages :: "sampler_stage list"
  sm_accepted :: "ltok list"
  sm_drawn :: nat

record llama_caps =
  n_ctx :: nat
  n_batch :: nat
  n_ubatch :: nat

record llama =
  ll_n_vocab :: int
  ll_tokenize :: "string \<Rightarrow> ltok list"
  ll_is_eog :: "ltok \<Rightarrow> bool"
  ll_piece :: "ltok \<Rightarrow> string"
  ll_new_context :: "string + llama_caps"
  ll_batch_add :: "usize \<Rightarrow> batch \<Rightarrow> batch_entry \<Rightarrow> string option"
  ll_decode :: "batch list \<Rightarrow> batch \<Rightarrow> string option"
  ll_sample :: "batch list \<Rightarrow> int \<Rightarrow> sampler \<Rightarrow> ltok"

record run =
  rn_calls :: "batch list"
  rn_checks :: nat

definition run_new :: run where
  "run_new = \<lparr>rn_calls = [], rn_checks = 0\<rparr>"

text \<open>The polled stop callback, if the request has one.\<close>

type_synonym stop_fn = "(nat \<Rightarrow> bool) option"

definition stop_requested :: "stop_fn \<Rightarrow> run \<Rightarrow> bool \<times> run" where
  "stop_requested stop r =
     (case stop of None \<Rightarrow> (False, r) | Some f \<Rightarrow> (f (rn_checks r), r\<lparr>rn_checks := Suc (rn_checks r)\<rparr>))"

definition as_i32 :: "int \<Rightarrow> int" where
  "as_i32 n = (n + 2 ^ 31) mod 2 ^ 32 - 2 ^ 31"

definition build_sampler :: "inference_config \<Rightarrow> int \<Rightarrow> sampler" where
  "build_sampler cfg n_vocab =
     \<lparr>sm_stages =
        (if f32_less (F32 1) (c_repetition_penalty cfg) then [Penalties n_vocab 64 (c_repetition_penalty cfg)] else []) @
        (if 0 < c_top_k cfg then [TopK (as_i32 (int (c_top_k cfg)))] else []) @
        [TopP (c_top_p cfg), Temp (c_temperature cfg), Dist 42],
      sm_accepted = [], sm_drawn = 0\<rparr>"

definition accept_many :: "ltok list \<Rightarrow> sampler \<Rightarrow> sampler" where
  "accept_many ts sm = sm\<lparr>sm_accepted := sm_accepted sm @ ts\<rparr>"

definition draw :: "llama \<Rightarrow> int \<Rightarrow> run \<Rightarrow> sampler \<Rightarrow> ltok \<times> sampler" where
  "draw L i r sm =
     (let tok = ll_sample L (rn_calls r) i sm
      in (tok, accept_many [tok] (sm\<lparr>sm_drawn := Suc (sm_drawn sm)\<rparr>)))"

section \<open>Decoding\<close>

definition PREFILL_CHECKPOINT_TOKENS :: usize where
  "PREFILL_CHECKPOINT_TOKENS = 512"

definition ensure_prompt_room :: "llama_caps \<Rightarrow> usize \<Rightarrow> engine_error + unit" where
  "ensure_prompt_room caps prompt_len =
     (if prompt_len = 0 then Inl (EInputValidation ''prompt must contain at least one token'')
      else if n_ctx caps \<le> prompt_len
        then Inl (EInputValidation (''prompt contains '' @ show_nat prompt_len @ '' tokens, leaving no room in the ''
               @ show_nat (n_ctx caps) @ ''-token context''))
      else Inr ())"

definition batch_add :: "llama \<Rightarrow> usize \<Rightarrow> batch_entry \<Rightarrow> batch \<Rightarrow> engine_error + batch" where
  "batch_add L capacity e b =
     (case ll_batch_add L capacity b e of
        Some m \<Rightarrow> Inl (EModelError (''batch: '' @ m))
      | None \<Rightarrow> Inr (b @ [e]))"

definition add_one :: "llama \<Rightarrow> ltok \<Rightarrow> int \<Rightarrow> engine_error + batch" where
  "add_one L tok pos = batch_add L 1 (tok, pos, True) []"

definition decode :: "llama \<Rightarrow> batch \<Rightarrow> run \<Rightarrow> (engine_error + unit) \<times> run" where
  "decode L b r =
     ((case ll_decode L (rn_calls r) b of
         Some m \<Rightarrow> Inl (EModelError (''decode: '' @ m))
       | None \<Rightarrow> Inr ()),
      r\<lparr>rn_calls := rn_calls r @ [b]\<rparr>)"

text \<open>\<open>slice::chunks\<close>; a chunk size of zero panics in the standard library and is excluded by the caller.\<close>

function chunks :: "nat \<Rightarrow> 'a list \<Rightarrow> 'a list list" where
  "chunks n xs = (if n = 0 \<or> xs = [] then [] else take n xs # chunks n (drop n xs))"
  by pat_completeness auto
termination
  by (relation "measure (\<lambda>(n, xs). length xs)") auto

declare chunks.simps [simp del]

text \<open>The inner loop: one chunk into a batch, \<open>index\<close> counting from the chunk's offset.\<close>

fun fill_batch :: "llama \<Rightarrow> usize \<Rightarrow> usize \<Rightarrow> usize \<Rightarrow> bool \<Rightarrow> usize \<Rightarrow> ltok list \<Rightarrow> batch \<Rightarrow> engine_error + batch" where
  "fill_batch L capacity begin0 ntok logits_all index [] b = Inr b"
| "fill_batch L capacity begin0 ntok logits_all index (tok # toks) b =
     (if 2 ^ 31 \<le> begin0 + index then Inl (EInputValidation ''decode position exceeds i32'')
      else
        case batch_add L capacity (tok, int (begin0 + index), logits_all \<or> index + 1 = ntok) b of
          Inl e \<Rightarrow> Inl e
        | Inr b' \<Rightarrow> fill_batch L capacity begin0 ntok logits_all (Suc index) toks b')"

fun decode_chunks ::
  "llama \<Rightarrow> usize \<Rightarrow> usize \<Rightarrow> bool \<Rightarrow> usize \<Rightarrow> stop_fn \<Rightarrow> usize \<Rightarrow> ltok list list \<Rightarrow> run \<Rightarrow> (engine_error + bool) \<times> run" where
  "decode_chunks L begin0 ntok logits_all batch_cap stop chunk_index [] r = (Inr True, r)"
| "decode_chunks L begin0 ntok logits_all batch_cap stop chunk_index (chunk # cs) r =
     (case stop_requested stop r of
        (True, r1) \<Rightarrow> (Inr False, r1)
      | (False, r1) \<Rightarrow>
          (case fill_batch L (length chunk) begin0 ntok logits_all (chunk_index * batch_cap) chunk [] of
             Inl e \<Rightarrow> (Inl e, r1)
           | Inr b \<Rightarrow>
               (case decode L b r1 of
                  (Inl e, r2) \<Rightarrow> (Inl e, r2)
                | (Inr _, r2) \<Rightarrow> decode_chunks L begin0 ntok logits_all batch_cap stop (Suc chunk_index) cs r2)))"

definition decode_range_checked ::
  "llama \<Rightarrow> llama_caps \<Rightarrow> ltok list \<Rightarrow> int \<Rightarrow> bool \<Rightarrow> usize option \<Rightarrow> stop_fn \<Rightarrow> run \<Rightarrow> (engine_error + bool) \<times> run" where
  "decode_range_checked L caps tokens start_pos logits_all chunk_cap stop r =
     (if tokens = [] then (Inr True, r)
      else if start_pos < 0 then (Inl (EInputValidation ''negative decode position''), r)
      else
        let begin0 = nat start_pos; fin = begin0 + length tokens;
            native_cap = min (n_batch caps) (n_ubatch caps);
            batch_cap = (case chunk_cap of None \<Rightarrow> native_cap | Some cap \<Rightarrow> min cap native_cap)
        in if two64 \<le> fin then (Inl (EInputValidation ''decode position overflow''), r)
           else if n_ctx caps < fin
             then (Inl (EInputValidation (''decode would exceed the '' @ show_nat (n_ctx caps) @ ''-token context window'')), r)
           else if batch_cap = 0 then (Inl (EModelError ''llama.cpp returned a zero-sized decode batch''), r)
           else if logits_all \<and> batch_cap < length tokens
             then (Inl (EInputValidation ''all-position logits require a single decode batch''), r)
           else decode_chunks L begin0 (length tokens) logits_all batch_cap stop 0 (chunks batch_cap tokens) r)"

definition decode_range :: "llama \<Rightarrow> llama_caps \<Rightarrow> ltok list \<Rightarrow> int \<Rightarrow> bool \<Rightarrow> run \<Rightarrow> (engine_error + unit) \<times> run" where
  "decode_range L caps tokens start_pos logits_all r =
     (case decode_range_checked L caps tokens start_pos logits_all None None r of
        (Inl e, r') \<Rightarrow> (Inl e, r') | (Inr _, r') \<Rightarrow> (Inr (), r'))"

definition decode_prompt :: "llama \<Rightarrow> llama_caps \<Rightarrow> ltok list \<Rightarrow> stop_fn \<Rightarrow> run \<Rightarrow> (engine_error + bool) \<times> run" where
  "decode_prompt L caps tokens stop r =
     decode_range_checked L caps tokens 0 False (map_option (\<lambda>_. PREFILL_CHECKPOINT_TOKENS) stop) stop r"

section \<open>Generation\<close>

definition detokenize :: "llama \<Rightarrow> ltok list \<Rightarrow> string" where
  "detokenize L toks = from_utf8_lossy (concat (map (ll_piece L) toks))"

definition create_context :: "llama \<Rightarrow> engine_error + llama_caps" where
  "create_context L = (case ll_new_context L of Inl e \<Rightarrow> Inl (EModelError (''ctx: '' @ e)) | Inr caps \<Rightarrow> Inr caps)"

definition cancelled_result :: generation_result where
  "cancelled_result = \<lparr>gr_text = [], gr_tokens_generated = 0, gr_finish_reason = FinCancelled\<rparr>"

text \<open>The loop of \<open>sample_loop\<close> from \<open>offset\<close>.\<close>

function sample_from ::
  "llama \<Rightarrow> stop_fn \<Rightarrow> usize \<Rightarrow> int \<Rightarrow> usize \<Rightarrow> sampler \<Rightarrow> ltok list \<Rightarrow> run \<Rightarrow> (engine_error + ltok list \<times> finish_reason) \<times> run" where
  "sample_from L stop limit start_pos offset sm out r =
     (if limit \<le> offset then (Inr (out, FinMaxTokens), r)
      else
        let pos = as_i32 (start_pos + as_i32 (int offset)); (stopped, r1) = stop_requested stop r in
        if stopped then (Inr (out, FinCancelled), r1)
        else
          let (tok, sm1) = draw L (- 1) r1 sm in
          if ll_is_eog L tok then (Inr (out, FinStop), r1)
          else if offset + 1 = limit then (Inr (out @ [tok], FinMaxTokens), r1)
          else
            case add_one L tok pos of
              Inl e \<Rightarrow> (Inl e, r1)
            | Inr b \<Rightarrow>
                (case decode L b r1 of
                   (Inl e, r2) \<Rightarrow> (Inl e, r2)
                 | (Inr _, r2) \<Rightarrow> sample_from L stop limit start_pos (Suc offset) sm1 (out @ [tok]) r2))"
  by pat_completeness auto
termination
  by (relation "measure (\<lambda>(L, stop, limit, start_pos, offset, sm, out, r). limit - offset)") auto

declare sample_from.simps [simp del]

definition sample_loop ::
  "llama \<Rightarrow> llama_caps \<Rightarrow> ltok list \<Rightarrow> nat \<Rightarrow> inference_config \<Rightarrow> stop_fn \<Rightarrow> run \<Rightarrow> (engine_error + ltok list \<times> finish_reason) \<times> run" where
  "sample_loop L caps tokens max_tok cfg stop r =
     (case ensure_prompt_room caps (length tokens) of
        Inl e \<Rightarrow> (Inl e, r)
      | Inr _ \<Rightarrow>
          (case decode_prompt L caps tokens stop r of
             (Inl e, r1) \<Rightarrow> (Inl e, r1)
           | (Inr False, r1) \<Rightarrow> (Inr ([], FinCancelled), r1)
           | (Inr True, r1) \<Rightarrow>
               sample_from L stop (min max_tok (n_ctx caps - length tokens)) (as_i32 (int (length tokens))) 0
                 (accept_many tokens (build_sampler cfg (ll_n_vocab L))) [] r1))"

definition max_tokens_or_default :: "inference_config \<Rightarrow> nat" where
  "max_tokens_or_default cfg = (case c_max_tokens cfg of None \<Rightarrow> 256 | Some m \<Rightarrow> m)"

definition generate_cancellable ::
  "llama \<Rightarrow> string \<Rightarrow> inference_config \<Rightarrow> stop_fn \<Rightarrow> (engine_error + generation_result) \<times> run" where
  "generate_cancellable L prompt cfg stop =
     (let tokens = ll_tokenize L prompt in
      case stop_requested stop run_new of
        (True, r) \<Rightarrow> (Inr cancelled_result, r)
      | (False, r) \<Rightarrow>
          (case create_context L of
             Inl e \<Rightarrow> (Inl e, r)
           | Inr caps \<Rightarrow>
               (case sample_loop L caps tokens (max_tokens_or_default cfg) cfg stop r of
                  (Inl e, r1) \<Rightarrow> (Inl e, r1)
                | (Inr (out, reason), r1) \<Rightarrow>
                    (Inr \<lparr>gr_text = detokenize L out, gr_tokens_generated = min (length out) (2 ^ 32 - 1),
                          gr_finish_reason = reason\<rparr>, r1))))"

definition generate :: "llama \<Rightarrow> string \<Rightarrow> inference_config \<Rightarrow> (engine_error + generation_result) \<times> run" where
  "generate L prompt cfg = generate_cancellable L prompt cfg None"

text \<open>\<open>generate_from_tokens\<close>: like the sample loop, without a stop callback and with the default configuration.\<close>

function tokens_from :: "llama \<Rightarrow> usize \<Rightarrow> int \<Rightarrow> usize \<Rightarrow> sampler \<Rightarrow> ltok list \<Rightarrow> run \<Rightarrow> (engine_error + ltok list) \<times> run" where
  "tokens_from L limit start_pos offset sm out r =
     (if limit \<le> offset then (Inr out, r)
      else
        let pos = as_i32 (start_pos + as_i32 (int offset)); (tok, sm1) = draw L (- 1) r sm in
        if ll_is_eog L tok then (Inr out, r)
        else if offset + 1 = limit then (Inr (out @ [tok]), r)
        else
          case add_one L tok pos of
            Inl e \<Rightarrow> (Inl e, r)
          | Inr b \<Rightarrow>
              (case decode L b r of
                 (Inl e, r2) \<Rightarrow> (Inl e, r2)
               | (Inr _, r2) \<Rightarrow> tokens_from L limit start_pos (Suc offset) sm1 (out @ [tok]) r2))"
  by pat_completeness auto
termination
  by (relation "measure (\<lambda>(L, limit, start_pos, offset, sm, out, r). limit - offset)") auto

declare tokens_from.simps [simp del]

definition generate_from_tokens :: "llama \<Rightarrow> ltok list \<Rightarrow> usize \<Rightarrow> (engine_error + ltok list) \<times> run" where
  "generate_from_tokens L context0 n =
     (case create_context L of
        Inl e \<Rightarrow> (Inl e, run_new)
      | Inr caps \<Rightarrow>
          (case ensure_prompt_room caps (length context0) of
             Inl e \<Rightarrow> (Inl e, run_new)
           | Inr _ \<Rightarrow>
               (case decode_range L caps context0 0 False run_new of
                  (Inl e, r) \<Rightarrow> (Inl e, r)
                | (Inr _, r) \<Rightarrow>
                    tokens_from L (min n (n_ctx caps - length context0)) (as_i32 (int (length context0))) 0
                      (accept_many context0 (build_sampler config_default (ll_n_vocab L))) [] r)))"

section \<open>Streaming\<close>

record streaming =
  sg_acc :: "ltok list"
  sg_sanitizer :: "stream_sanitizer option"
  sg_sink :: sink

text \<open>\<open>emit_token\<close>; \<open>S\<close> and \<open>alnum\<close> are the pipeline of the sanitizer. \<open>None\<close> is a panic.\<close>

definition emit_token ::
  "(string \<Rightarrow> string) \<Rightarrow> (string \<Rightarrow> bool) \<Rightarrow> llama \<Rightarrow> ltok \<Rightarrow> streaming \<Rightarrow> (bool \<times> streaming) option" where
  "emit_token S alnum L tok sg =
     (case sg_sanitizer sg of
        Some san \<Rightarrow>
          let acc = sg_acc sg @ [tok] in
          (case ss_push S alnum (detokenize L acc) san of
             None \<Rightarrow> None
           | Some (None, san') \<Rightarrow> Some (True, sg\<lparr>sg_acc := acc, sg_sanitizer := Some san'\<rparr>)
           | Some (Some chunk, san') \<Rightarrow>
               let (ok, sk) = send_item (ItemText chunk) (sg_sink sg)
               in Some (ok, sg\<lparr>sg_acc := acc, sg_sanitizer := Some san', sg_sink := sk\<rparr>))
      | None \<Rightarrow>
          let (ok, sk) = send_item (ItemToken (nat (tok mod 2 ^ 32))) (sg_sink sg) in Some (ok, sg\<lparr>sg_sink := sk\<rparr>))"

definition flush_sanitizer ::
  "(string \<Rightarrow> string) \<Rightarrow> llama \<Rightarrow> streaming \<Rightarrow> sink option" where
  "flush_sanitizer S L sg =
     (case sg_sanitizer sg of
        None \<Rightarrow> Some (sg_sink sg)
      | Some san \<Rightarrow>
          map_option (\<lambda>(out, _). case out of None \<Rightarrow> sg_sink sg | Some tail \<Rightarrow> snd (send_item (ItemText tail) (sg_sink sg)))
            (ss_flush S (detokenize L (sg_acc sg)) san))"

function stream_from ::
  "(string \<Rightarrow> string) \<Rightarrow> (string \<Rightarrow> bool) \<Rightarrow> llama \<Rightarrow> stop_fn \<Rightarrow> usize \<Rightarrow> int \<Rightarrow> usize \<Rightarrow> sampler \<Rightarrow> streaming \<Rightarrow> run
   \<Rightarrow> ((engine_error + unit) \<times> streaming \<times> run) option" where
  "stream_from S alnum L stop limit start_pos offset sm sg r =
     (if limit \<le> offset then Some (Inr (), sg, r)
      else
        let pos = as_i32 (start_pos + as_i32 (int offset)); (stopped, r1) = stop_requested stop r in
        if stopped then Some (Inr (), sg, r1)
        else
          let (tok, sm1) = draw L (- 1) r1 sm in
          case emit_token S alnum L tok sg of
            None \<Rightarrow> None
          | Some (ok, sg1) \<Rightarrow>
              if \<not> ok \<or> ll_is_eog L tok \<or> offset + 1 = limit then Some (Inr (), sg1, r1)
              else
                (case add_one L tok pos of
                   Inl e \<Rightarrow> Some (Inl e, sg1, r1)
                 | Inr b \<Rightarrow>
                     (case decode L b r1 of
                        (Inl e, r2) \<Rightarrow> Some (Inl e, sg1, r2)
                      | (Inr _, r2) \<Rightarrow> stream_from S alnum L stop limit start_pos (Suc offset) sm1 sg1 r2)))"
  by pat_completeness auto
termination
  by (relation "measure (\<lambda>(S, alnum, L, stop, limit, start_pos, offset, sm, sg, r). limit - offset)") auto

declare stream_from.simps [simp del]

definition generate_stream ::
  "(string \<Rightarrow> string) \<Rightarrow> (string \<Rightarrow> bool) \<Rightarrow> llama \<Rightarrow> string \<Rightarrow> inference_config \<Rightarrow> stop_fn \<Rightarrow> stream_sanitizer option \<Rightarrow> sink
   \<Rightarrow> ((engine_error + unit) \<times> sink \<times> run) option" where
  "generate_stream S alnum L prompt cfg stop san sk =
     (let tokens = ll_tokenize L prompt in
      case stop_requested stop run_new of
        (True, r) \<Rightarrow> Some (Inr (), sk, r)
      | (False, r) \<Rightarrow>
          (case create_context L of
             Inl e \<Rightarrow> Some (Inl e, sk, r)
           | Inr caps \<Rightarrow>
               (case ensure_prompt_room caps (length tokens) of
                  Inl e \<Rightarrow> Some (Inl e, sk, r)
                | Inr _ \<Rightarrow>
                    (case decode_prompt L caps tokens stop r of
                       (Inl e, r1) \<Rightarrow> Some (Inl e, sk, r1)
                     | (Inr False, r1) \<Rightarrow> Some (Inr (), sk, r1)
                     | (Inr True, r1) \<Rightarrow>
                         (case stream_from S alnum L stop (min (max_tokens_or_default cfg) (n_ctx caps - length tokens))
                                 (as_i32 (int (length tokens))) 0 (accept_many tokens (build_sampler cfg (ll_n_vocab L)))
                                 \<lparr>sg_acc = [], sg_sanitizer = san, sg_sink = sk\<rparr> r1 of
                            None \<Rightarrow> None
                          | Some (Inl e, sg, r2) \<Rightarrow> Some (Inl e, sg_sink sg, r2)
                          | Some (Inr _, sg, r2) \<Rightarrow> map_option (\<lambda>sk'. (Inr (), sk', r2)) (flush_sanitizer S L sg))))))"

section \<open>Speculative verification\<close>

record verify_result =
  accepted_count :: usize
  correction_token :: "nat option"
  probabilities :: "f32 list"

definition accept_all :: "usize \<Rightarrow> verify_result" where
  "accept_all n = \<lparr>accepted_count = n, correction_token = None, probabilities = replicate n (F32 1)\<rparr>"

definition diverge_at :: "usize \<Rightarrow> nat \<Rightarrow> verify_result" where
  "diverge_at n t = \<lparr>accepted_count = n, correction_token = Some t, probabilities = replicate n (F32 1)\<rparr>"

fun verify_from :: "llama \<Rightarrow> run \<Rightarrow> sampler \<Rightarrow> usize \<Rightarrow> nat list \<Rightarrow> verify_result" where
  "verify_from L r sm i [] = accept_all i"
| "verify_from L r sm i (d # ds) =
     (let (predicted, sm1) = draw L (int i) r sm in
      if nat (predicted mod 2 ^ 32) \<noteq> d then diverge_at i (nat (predicted mod 2 ^ 32))
      else verify_from L r sm1 (Suc i) ds)"

fun add_draft :: "llama \<Rightarrow> usize \<Rightarrow> int \<Rightarrow> nat list \<Rightarrow> batch \<Rightarrow> engine_error + batch" where
  "add_draft L capacity pos [] b = Inr b"
| "add_draft L capacity pos (d # ds) b =
     (case batch_add L capacity (as_i32 (int d), as_i32 pos, True) b of
        Inl e \<Rightarrow> Inl e | Inr b' \<Rightarrow> add_draft L capacity (pos + 1) ds b')"

definition verify_tokens :: "llama \<Rightarrow> nat list \<Rightarrow> nat list \<Rightarrow> (engine_error + verify_result) \<times> run" where
  "verify_tokens L context0 draft =
     (if draft = [] then (Inr (accept_all 0), run_new)
      else if context0 = [] then (Inl (EInputValidation ''speculative verification requires non-empty context''), run_new)
      else
        case create_context L of
          Inl e \<Rightarrow> (Inl e, run_new)
        | Inr caps \<Rightarrow>
            let n = length context0 + length draft in
            if two64 \<le> n then (Inl (EInputValidation ''speculative context length overflow''), run_new)
            else if n_ctx caps < n then (Inl (EInputValidation ''speculative context exceeds model context window''), run_new)
            else if min (n_batch caps) (n_ubatch caps) \<le> length draft
              then (Inl (EInputValidation ''speculative draft exceeds the supported decode batch''), run_new)
            else
              (case decode_range L caps (map (as_i32 \<circ> int) (butlast context0)) 0 False run_new of
                 (Inl e, r) \<Rightarrow> (Inl e, r)
               | (Inr _, r) \<Rightarrow>
                   (case batch_add L (length draft + 1) (as_i32 (int (last context0)), as_i32 (int (length context0 - 1)), True) [] of
                      Inl e \<Rightarrow> (Inl e, r)
                    | Inr b0 \<Rightarrow>
                        (case add_draft L (length draft + 1) (int (length context0)) draft b0 of
                           Inl e \<Rightarrow> (Inl e, r)
                         | Inr b \<Rightarrow>
                             (case decode L b r of
                                (Inl e, r2) \<Rightarrow> (Inl e, r2)
                              | (Inr _, r2) \<Rightarrow>
                                  (Inr (verify_from L r2 (build_sampler config_default (ll_n_vocab L)) 0 draft), r2))))))"

section \<open>The generator\<close>

record generator =
  gg_model_id :: string
  gg_memory_bytes :: usize
  gg_inner :: "llama option"

definition generator_new :: "string \<Rightarrow> generator" where
  "generator_new m = \<lparr>gg_model_id = m, gg_memory_bytes = 0, gg_inner = None\<rparr>"

definition generate_text_cancellable ::
  "generator \<Rightarrow> string \<Rightarrow> inference_config \<Rightarrow> stop_fn \<Rightarrow> engine_error + generation_result" where
  "generate_text_cancellable g prompt cfg stop =
     (if prompt = [] then Inl (EInputValidation ''prompt cannot be empty'')
      else
        case gg_inner g of
          Some L \<Rightarrow> fst (generate_cancellable L prompt cfg stop)
        | None \<Rightarrow> Inl (EModelError (''model '' @ [CHR 0x27] @ gg_model_id g @ [CHR 0x27] @ '' not loaded - cannot generate'')))"

definition generator_generate_stream ::
  "(string \<Rightarrow> string) \<Rightarrow> (string \<Rightarrow> bool) \<Rightarrow> generator \<Rightarrow> string \<Rightarrow> inference_config \<Rightarrow> stop_fn \<Rightarrow> stream_sanitizer option \<Rightarrow> sink
   \<Rightarrow> ((engine_error + unit) \<times> sink) option" where
  "generator_generate_stream S alnum g prompt cfg stop san sk =
     (case gg_inner g of
        Some L \<Rightarrow> map_option (\<lambda>(res, sk', _). (res, sk')) (generate_stream S alnum L prompt cfg stop san sk)
      | None \<Rightarrow> Some (Inl (EModelError ''no model loaded''), sk))"

primrec role_tag :: "chat_role \<Rightarrow> string" where
  "role_tag RoleSystem = ''<|system|>''"
| "role_tag RoleUser = ''<|user|>''"
| "role_tag RoleAssistant = ''<|assistant|>''"

definition format_chat_prompt :: "chat_message list \<Rightarrow> string" where
  "format_chat_prompt ms =
     concat (map (\<lambda>m. role_tag (cm_role m) @ cm_content m @ ''<|end|>'' @ [CHR 0x0A]) ms) @ ''<|assistant|>''"

definition generator_infer_cancellable ::
  "generator \<Rightarrow> inference_input \<Rightarrow> inference_config \<Rightarrow> stop_fn \<Rightarrow> engine_error + inference_output" where
  "generator_infer_cancellable g input cfg stop =
     (case input_validate input of
        Inl e \<Rightarrow> Inl e
      | Inr _ \<Rightarrow>
          (case config_validate cfg of
             Inl e \<Rightarrow> Inl e
           | Inr _ \<Rightarrow>
               (case input of
                  InTextBatch _ \<Rightarrow> Inl (ECapabilityNotSupported ''batch generation not supported'')
                | InText p \<Rightarrow>
                    (case generate_text_cancellable g p cfg stop of Inl e \<Rightarrow> Inl e | Inr x \<Rightarrow> Inr (Generation x))
                | InChatMessages ms \<Rightarrow>
                    (case generate_text_cancellable g (format_chat_prompt ms) cfg stop of
                       Inl e \<Rightarrow> Inl e | Inr x \<Rightarrow> Inr (Generation x)))))"

definition generator_infer :: "generator \<Rightarrow> inference_input \<Rightarrow> inference_config \<Rightarrow> engine_error + inference_output" where
  "generator_infer g input cfg = generator_infer_cancellable g input cfg None"

definition generator_unload :: "generator \<Rightarrow> generator" where
  "generator_unload g = g\<lparr>gg_memory_bytes := 0, gg_inner := None\<rparr>"

section \<open>What the native context holds\<close>

text \<open>The tokens of the native calls with their positions, and a token list laid out from position 0.\<close>

definition kv_tokens :: "batch list \<Rightarrow> (ltok \<times> int) list" where
  "kv_tokens calls = map (\<lambda>(t, p, _). (t, p)) (concat calls)"

fun positioned :: "nat \<Rightarrow> ltok list \<Rightarrow> (ltok \<times> int) list" where
  "positioned k [] = []"
| "positioned k (t # ts) = (t, int k) # positioned (Suc k) ts"

lemma kv_tokens_simps [simp]:
  "kv_tokens [] = []" "kv_tokens (bs @ cs) = kv_tokens bs @ kv_tokens cs" "kv_tokens [b] = map (\<lambda>(t, p, _). (t, p)) b"
  by (simp_all add: kv_tokens_def)

lemma positioned_append: "positioned k (xs @ ys) = positioned k xs @ positioned (k + length xs) ys"
  by (induction xs arbitrary: k) simp_all

text \<open>A batch the native decoder accepts: not empty and within its capacity.\<close>

definition batch_ok :: "nat \<Rightarrow> batch \<Rightarrow> bool" where
  "batch_ok cap b \<longleftrightarrow> b \<noteq> [] \<and> length b \<le> cap"

text \<open>The logits a sample reads are those of the last token decoded.\<close>

definition logits_ready :: "batch list \<Rightarrow> bool" where
  "logits_ready calls \<longleftrightarrow> calls \<noteq> [] \<and> last calls \<noteq> [] \<and> snd (snd (last (last calls)))"

lemma batch_add_Inr: "batch_add L c e b = Inr b' \<Longrightarrow> b' = b @ [e]"
  by (auto simp: batch_add_def split: option.splits)

lemma fill_batch_Inr:
  "fill_batch L c b0 n la i toks b = Inr b' \<Longrightarrow>
   \<exists>es. b' = b @ es \<and> length es = length toks \<and> map (\<lambda>(t, p, _). (t, p)) es = positioned (b0 + i) toks \<and>
     (toks \<noteq> [] \<longrightarrow> es \<noteq> [] \<and> snd (snd (last es)) = (la \<or> i + length toks = n))"
proof (induction L c b0 n la i toks b rule: fill_batch.induct)
  case (2 L c b0 n la i tok toks b)
  then obtain b1 where b1: "batch_add L c (tok, int (b0 + i), la \<or> i + 1 = n) b = Inr b1"
    "fill_batch L c b0 n la (Suc i) toks b1 = Inr b'" and pos: "\<not> 2 ^ 31 \<le> b0 + i"
    by (auto split: if_splits sum.splits)
  from "2.IH" [OF pos b1] obtain es where "b' = b1 @ es" "length es = length toks"
    "map (\<lambda>(t, p, _). (t, p)) es = positioned (b0 + Suc i) toks"
    "toks \<noteq> [] \<longrightarrow> es \<noteq> [] \<and> snd (snd (last es)) = (la \<or> Suc i + length toks = n)" by blast
  then show ?case
    using batch_add_Inr [OF b1(1)]
    by (intro exI [of _ "(tok, int (b0 + i), la \<or> i + 1 = n) # es"]) auto
qed simp

lemma decode_run [simp]: "snd (decode L b r) = r\<lparr>rn_calls := rn_calls r @ [b]\<rparr>"
  by (simp add: decode_def)

lemma stop_requested_calls [simp]: "rn_calls (snd (stop_requested stop r)) = rn_calls r"
  by (simp add: stop_requested_def split: option.splits)

lemma decode_chunks_calls:
  "decode_chunks L b0 n la cap stop ci (chunks cap ts) r = (res, r') \<Longrightarrow> 0 < cap \<Longrightarrow> n = ci * cap + length ts \<Longrightarrow>
    \<exists>bs m. rn_calls r' = rn_calls r @ bs \<and> (\<forall>b \<in> set bs. batch_ok cap b) \<and>
      kv_tokens bs = positioned (b0 + ci * cap) (take m ts) \<and>
      (res = Inr True \<longrightarrow> length ts \<le> m \<and> (ts \<noteq> [] \<longrightarrow> logits_ready bs))"
proof (induction cap ts arbitrary: ci r rule: chunks.induct)
  case (1 cap ts)
  show ?case
  proof (cases "ts = [] \<or> cap = 0")
    case True
    with "1.prems" show ?thesis
      by (intro exI [of _ "[]"] exI [of _ 0]) (auto simp: chunks.simps [of cap ts])
  next
    case False
    let ?c = "take cap ts"
    obtain stopped r1 where st: "stop_requested stop r = (stopped, r1)" by (cases "stop_requested stop r")
    then have r1: "rn_calls r1 = rn_calls r" by (metis snd_conv stop_requested_calls)
    note run = "1.prems"(1) [unfolded chunks.simps [of cap ts]]
    show ?thesis
    proof (cases "stopped \<or> (\<exists>e. fill_batch L (length ?c) b0 n la (ci * cap) ?c [] = Inl e)")
      case True
      with run False st r1 show ?thesis
        by (intro exI [of _ "[]"] exI [of _ 0]) (auto split: bool.splits simp del: length_take)
    next
      case go: False
      then obtain b where b: "fill_batch L (length ?c) b0 n la (ci * cap) ?c [] = Inr b"
        by (cases "fill_batch L (length ?c) b0 n la (ci * cap) ?c []") auto
      from fill_batch_Inr [OF b] False have es: "length b = length ?c" "map (\<lambda>(t, p, _). (t, p)) b = positioned (b0 + ci * cap) ?c"
        "b \<noteq> []" "snd (snd (last b)) = (la \<or> ci * cap + length ?c = n)" by auto
      have ok: "batch_ok cap b" using es by (simp add: batch_ok_def)
      obtain res1 r2 where d: "decode L b r1 = (res1, r2)" by (cases "decode L b r1")
      then have r2: "rn_calls r2 = rn_calls r @ [b]" using r1 decode_run [of L b r1] by simp
      show ?thesis
      proof (cases res1)
        case (Inl e)
        with run False st go b d r2 have "rn_calls r' = rn_calls r @ [b]" "res = Inl e" by auto
        then show ?thesis
          using ok es by (intro exI [of _ "[b]"] exI [of _ cap]) auto
      next
        case (Inr u)
        have rec: "decode_chunks L b0 n la cap stop (Suc ci) (chunks cap (drop cap ts)) r2 = (res, r')"
          using run False st go b d Inr by simp
        show ?thesis
        proof (cases "length ts \<le> cap")
          case True
          then have "chunks cap (drop cap ts) = []" by (simp add: chunks.simps)
          with rec have "res = Inr True" "r' = r2" by auto
          then show ?thesis
            using True es ok r2 "1.prems"(3) by (intro exI [of _ "[b]"] exI [of _ cap]) (auto simp: logits_ready_def)
        next
          case long: False
          then have n: "n = Suc ci * cap + length (drop cap ts)" using "1.prems"(3) by simp
          from "1.IH" [OF _ rec _ n] False obtain bs m where bs: "rn_calls r' = rn_calls r2 @ bs" "\<forall>b \<in> set bs. batch_ok cap b"
            "kv_tokens bs = positioned (b0 + Suc ci * cap) (take m (drop cap ts))"
            "res = Inr True \<longrightarrow> length (drop cap ts) \<le> m \<and> (drop cap ts \<noteq> [] \<longrightarrow> logits_ready bs)" by blast
          have "kv_tokens (b # bs) = positioned (b0 + ci * cap) (take (cap + m) ts)"
            using es(2) bs(3) long kv_tokens_simps(2) [of "[b]" bs]
            by (simp add: take_add positioned_append ac_simps)
          moreover have "logits_ready bs \<Longrightarrow> logits_ready (b # bs)" by (auto simp: logits_ready_def)
          ultimately show ?thesis
            using bs r2 ok long by (intro exI [of _ "b # bs"] exI [of _ "cap + m"]) auto
        qed
      qed
    qed
  qed
qed

lemma decode_prompt_calls:
  assumes run: "decode_prompt L caps ts stop r = (res, r')" and "ts \<noteq> []" and new: "rn_calls r = []"
  shows "\<exists>m. (\<forall>b \<in> set (rn_calls r'). batch_ok (min (n_batch caps) (n_ubatch caps)) b \<and>
      (stop \<noteq> None \<longrightarrow> length b \<le> PREFILL_CHECKPOINT_TOKENS)) \<and>
    kv_tokens (rn_calls r') = positioned 0 (take m ts) \<and>
    (res = Inr True \<longrightarrow> length ts \<le> m \<and> logits_ready (rn_calls r') \<and> 0 < min (n_batch caps) (n_ubatch caps))"
proof -
  define cap where "cap = (case stop of None \<Rightarrow> min (n_batch caps) (n_ubatch caps)
    | Some _ \<Rightarrow> min PREFILL_CHECKPOINT_TOKENS (min (n_batch caps) (n_ubatch caps)))"
  have cap: "cap \<le> min (n_batch caps) (n_ubatch caps)" "stop \<noteq> None \<Longrightarrow> cap \<le> PREFILL_CHECKPOINT_TOKENS"
    by (auto simp: cap_def split: option.splits)
  show ?thesis
  proof (cases "r' = r \<and> res \<noteq> Inr True")
    case True
    then show ?thesis using new by (intro exI [of _ 0]) simp
  next
    case False
    have "decode_chunks L 0 (length ts) False cap stop 0 (chunks cap ts) r = (res, r')" "0 < cap"
      using run \<open>ts \<noteq> []\<close> False
      by (cases stop; auto simp: decode_prompt_def decode_range_checked_def Let_def cap_def split: if_splits)+
    from decode_chunks_calls [OF this] obtain bs m where "rn_calls r' = bs" "\<forall>b \<in> set bs. batch_ok cap b"
      "kv_tokens bs = positioned 0 (take m ts)" "res = Inr True \<longrightarrow> length ts \<le> m \<and> logits_ready bs"
      using new \<open>ts \<noteq> []\<close> by auto
    then show ?thesis
      using cap \<open>0 < cap\<close> by (intro exI [of _ m]) (fastforce simp: batch_ok_def)
  qed
qed

text \<open>Induction over the runs of the sample loop.\<close>

lemma sample_from_run [consumes 1, case_names full stopped eog final failed step]:
  assumes "sample_from L stop limit start_pos offset sm out r = (res, r')"
    and "\<And>offset sm out r. limit \<le> offset \<Longrightarrow> P offset sm out r (Inr (out, FinMaxTokens)) r"
    and "\<And>offset sm out r r1. offset < limit \<Longrightarrow> stop_requested stop r = (True, r1) \<Longrightarrow>
      P offset sm out r (Inr (out, FinCancelled)) r1"
    and "\<And>offset sm out r r1 tok sm1. offset < limit \<Longrightarrow> stop_requested stop r = (False, r1) \<Longrightarrow>
      draw L (- 1) r1 sm = (tok, sm1) \<Longrightarrow> ll_is_eog L tok \<Longrightarrow> P offset sm out r (Inr (out, FinStop)) r1"
    and "\<And>offset sm out r r1 tok sm1. Suc offset = limit \<Longrightarrow> stop_requested stop r = (False, r1) \<Longrightarrow>
      draw L (- 1) r1 sm = (tok, sm1) \<Longrightarrow> \<not> ll_is_eog L tok \<Longrightarrow> P offset sm out r (Inr (out @ [tok], FinMaxTokens)) r1"
    and "\<And>offset sm out r r1 tok sm1 e bs. Suc offset < limit \<Longrightarrow> stop_requested stop r = (False, r1) \<Longrightarrow>
      draw L (- 1) r1 sm = (tok, sm1) \<Longrightarrow> \<not> ll_is_eog L tok \<Longrightarrow>
      bs = [] \<or> bs = [[(tok, as_i32 (start_pos + as_i32 (int offset)), True)]] \<Longrightarrow>
      P offset sm out r (Inl e) (r1\<lparr>rn_calls := rn_calls r1 @ bs\<rparr>)"
    and "\<And>offset sm out r r1 tok sm1 r2 res r'. Suc offset < limit \<Longrightarrow> stop_requested stop r = (False, r1) \<Longrightarrow>
      draw L (- 1) r1 sm = (tok, sm1) \<Longrightarrow> \<not> ll_is_eog L tok \<Longrightarrow>
      r2 = r1\<lparr>rn_calls := rn_calls r1 @ [[(tok, as_i32 (start_pos + as_i32 (int offset)), True)]]\<rparr> \<Longrightarrow>
      P (Suc offset) sm1 (out @ [tok]) r2 res r' \<Longrightarrow> P offset sm out r res r'"
  shows "P offset sm out r res r'"
  using assms
proof (induction L stop limit start_pos offset sm out r rule: sample_from.induct)
  case (1 L stop limit start_pos offset sm out r)
  note run = "1.prems"(1) [unfolded sample_from.simps [of L stop limit start_pos offset sm out r]]
  show ?case
  proof (cases "limit \<le> offset")
    case True
    with run "1.prems"(2) show ?thesis by auto
  next
    case False
    obtain stopped r1 where st: "stop_requested stop r = (stopped, r1)" by (cases "stop_requested stop r")
    obtain tok sm1 where dr: "draw L (- 1) r1 sm = (tok, sm1)" by (cases "draw L (- 1) r1 sm")
    let ?b = "[(tok, as_i32 (start_pos + as_i32 (int offset)), True)]"
    consider "stopped" | "\<not> stopped" "ll_is_eog L tok" | "\<not> stopped" "\<not> ll_is_eog L tok" "Suc offset = limit"
      | "\<not> stopped" "\<not> ll_is_eog L tok" "Suc offset < limit" using False by linarith
    then show ?thesis
    proof cases
      case 1
      with run False st "1.prems"(3) show ?thesis by auto
    next
      case 2
      with run False st dr "1.prems"(4) show ?thesis by auto
    next
      case 3
      with run False st dr "1.prems"(5) show ?thesis by auto
    next
      case 4
      show ?thesis
      proof (cases "add_one L tok (as_i32 (start_pos + as_i32 (int offset)))")
        case (Inl e)
        with run False st dr 4 have "res = Inl e" "r' = r1\<lparr>rn_calls := rn_calls r1 @ []\<rparr>" by auto
        then show ?thesis using "1.prems"(6) [of offset r r1 sm tok sm1 "[]"] st dr 4 by simp
      next
        case (Inr b)
        then have b: "b = ?b" unfolding add_one_def by (auto dest: batch_add_Inr)
        obtain d r2 where d: "decode L b r1 = (d, r2)" by (cases "decode L b r1")
        then have r2: "r2 = r1\<lparr>rn_calls := rn_calls r1 @ [?b]\<rparr>" using decode_run [of L b r1] b by simp
        show ?thesis
        proof (cases d)
          case (Inl e)
          with run False st dr 4 Inr d r2 have "res = Inl e" "r' = r1\<lparr>rn_calls := rn_calls r1 @ [?b]\<rparr>" by auto
          then show ?thesis using "1.prems"(6) [of offset r r1 sm tok sm1 "[?b]"] st dr 4 by simp
        next
          case u: (Inr u)
          have rec: "sample_from L stop limit start_pos (Suc offset) sm1 (out @ [tok]) r2 = (res, r')"
            using run False st dr 4 Inr d u by simp
          have "P (Suc offset) sm1 (out @ [tok]) r2 res r'"
            by (rule "1.IH" [OF False refl refl st [symmetric] 4(1) refl dr [symmetric] 4(2) _ Inr d [symmetric] u rec])
              (use 4(3) in simp, (fact "1.prems"(2-7))+)
          moreover have "stop_requested stop r = (False, r1)" using st 4(1) by simp
          ultimately show ?thesis using "1.prems"(7) dr 4(2,3) r2 by blast
        qed
      qed
    qed
  qed
qed

section \<open>Bounds on the native calls\<close>

lemma as_i32_small: "0 \<le> n \<Longrightarrow> n < 2 ^ 31 \<Longrightarrow> as_i32 n = n"
  by (simp add: as_i32_def)

lemma stop_requested_run: "stop_requested stop r = (b, r1) \<Longrightarrow> rn_calls r1 = rn_calls r"
  by (metis snd_conv stop_requested_calls)

text \<open>The invariant of the loop: the context holds the prompt and what was sampled, with logits at the end.\<close>

definition loop_inv :: "nat \<Rightarrow> ltok list \<Rightarrow> nat \<Rightarrow> ltok list \<Rightarrow> run \<Rightarrow> bool" where
  "loop_inv cap ts offset out r \<longleftrightarrow>
     length out = offset \<and> kv_tokens (rn_calls r) = positioned 0 (ts @ out) \<and> logits_ready (rn_calls r) \<and>
     (\<forall>b \<in> set (rn_calls r). batch_ok cap b)"

lemma loop_inv_check: "loop_inv cap ts offset out r \<Longrightarrow> stop_requested stop r = (b, r1) \<Longrightarrow> loop_inv cap ts offset out r1"
  by (simp add: loop_inv_def stop_requested_run)

lemma loop_inv_decode:
  assumes "loop_inv cap ts offset out r" "0 < cap" "length ts + offset < 2 ^ 31"
  shows "loop_inv cap ts (Suc offset) (out @ [tok])
    (r\<lparr>rn_calls := rn_calls r @ [[(tok, as_i32 (as_i32 (int (length ts)) + as_i32 (int offset)), True)]]\<rparr>)"
  using assms by (auto simp: loop_inv_def positioned_append as_i32_small logits_ready_def batch_ok_def)

lemma sample_from_calls:
  assumes "sample_from L stop limit (as_i32 (int (length ts))) offset sm out r = (res, r')"
    and "loop_inv cap ts offset out r" "0 < cap" "length ts + limit \<le> 2 ^ 31"
  shows "\<exists>out'. kv_tokens (rn_calls r') = positioned 0 (ts @ out') \<and> length out' \<le> max offset (limit - 1) \<and>
    (\<forall>b \<in> set (rn_calls r'). batch_ok cap b)"
  using assms
proof (induction rule: sample_from_run)
  case (full offset sm out r)
  then show ?case by (intro exI [of _ out]) (simp add: loop_inv_def)
next
  case (stopped offset sm out r r1)
  then show ?case using loop_inv_check [of cap ts offset out r stop True r1] by (intro exI [of _ out]) (simp add: loop_inv_def)
next
  case (eog offset sm out r r1 tok sm1)
  then show ?case using loop_inv_check [of cap ts offset out r stop False r1] by (intro exI [of _ out]) (simp add: loop_inv_def)
next
  case (final offset sm out r r1 tok sm1)
  then show ?case using loop_inv_check [of cap ts offset out r stop False r1] by (intro exI [of _ out]) (auto simp: loop_inv_def)
next
  case (failed offset sm out r r1 tok sm1 e bs)
  then have inv: "loop_inv cap ts offset out r1" using loop_inv_check by blast
  show ?case
  proof (cases "bs = []")
    case True
    then show ?thesis using inv failed by (intro exI [of _ out]) (simp add: loop_inv_def)
  next
    case False
    then show ?thesis using loop_inv_decode [OF inv, of tok] failed
      by (intro exI [of _ "out @ [tok]"]) (auto simp: loop_inv_def)
  qed
next
  case (step offset sm out r r1 tok sm1 r2 res r')
  then have "loop_inv cap ts (Suc offset) (out @ [tok]) r2"
    using loop_inv_decode [OF loop_inv_check [OF step(7) step(2)], of tok] by simp
  with step show ?case by auto
qed

lemma sample_loop_calls:
  assumes run: "sample_loop L caps ts max_tok cfg stop r = (res, r')" and new: "rn_calls r = []" and ctx: "n_ctx caps \<le> 2 ^ 31"
  shows "\<exists>us. kv_tokens (rn_calls r') = positioned 0 us \<and> (us = [] \<or> length us < n_ctx caps) \<and>
    (prefix us ts \<or> prefix ts us) \<and>
    (\<forall>b \<in> set (rn_calls r'). batch_ok (min (n_batch caps) (n_ubatch caps)) b)"
proof (cases "ensure_prompt_room caps (length ts)")
  case (Inl e)
  with run new show ?thesis by (intro exI [of _ "[]"]) (auto simp: sample_loop_def)
next
  case (Inr u)
  then have room: "ts \<noteq> []" "length ts < n_ctx caps" by (auto simp: ensure_prompt_room_def split: if_splits)
  obtain d r1 where d: "decode_prompt L caps ts stop r = (d, r1)" by (cases "decode_prompt L caps ts stop r")
  from decode_prompt_calls [OF this room(1) new] obtain m where
    pre: "\<forall>b \<in> set (rn_calls r1). batch_ok (min (n_batch caps) (n_ubatch caps)) b"
      "kv_tokens (rn_calls r1) = positioned 0 (take m ts)"
      "d = Inr True \<longrightarrow> length ts \<le> m \<and> logits_ready (rn_calls r1) \<and> 0 < min (n_batch caps) (n_ubatch caps)" by blast
  show ?thesis
  proof (cases "d = Inr True")
    case False
    then have "r' = r1" using run Inr d by (auto simp: sample_loop_def split: sum.splits bool.splits)
    with pre room show ?thesis by (intro exI [of _ "take m ts"]) (auto simp: take_is_prefix)
  next
    case True
    let ?limit = "min max_tok (n_ctx caps - length ts)"
    have "sample_from L stop ?limit (as_i32 (int (length ts))) 0 (accept_many ts (build_sampler cfg (ll_n_vocab L))) [] r1 = (res, r')"
      using run Inr d True by (simp add: sample_loop_def)
    moreover have "loop_inv (min (n_batch caps) (n_ubatch caps)) ts 0 [] r1" using pre True by (simp add: loop_inv_def)
    ultimately obtain out' where "kv_tokens (rn_calls r') = positioned 0 (ts @ out')" "length out' \<le> max 0 (?limit - 1)"
      "\<forall>b \<in> set (rn_calls r'). batch_ok (min (n_batch caps) (n_ubatch caps)) b"
      using sample_from_calls [of L stop ?limit ts 0] pre(3) True ctx room by fastforce
    then show ?thesis using room by (intro exI [of _ "ts @ out'"]) auto
  qed
qed

text \<open>
  C13: The native decoder is never driven out of bounds. In every generation, whatever the library returns
  and whenever the request is stopped, each batch handed to it is non-empty and within its logical and
  physical batch size, and together they fill the context with consecutive positions from 0 that stay
  inside the context window: a beginning of the prompt, or the prompt followed by sampled tokens.
\<close>

theorem native_calls_in_bounds:
  assumes "generate_cancellable L prompt cfg stop = (res, r)" and "ll_new_context L = Inr caps" and "n_ctx caps \<le> 2 ^ 31"
  shows "(\<forall>b \<in> set (rn_calls r). b \<noteq> [] \<and> length b \<le> n_batch caps \<and> length b \<le> n_ubatch caps) \<and>
    (\<exists>us. kv_tokens (rn_calls r) = positioned 0 us \<and> (us = [] \<or> length us < n_ctx caps) \<and>
      (prefix us (ll_tokenize L prompt) \<or> prefix (ll_tokenize L prompt) us))"
proof -
  obtain b r0 where st: "stop_requested stop run_new = (b, r0)" by (cases "stop_requested stop run_new")
  then have new: "rn_calls r0 = []" using stop_requested_run by (metis run.select_convs(1) run_new_def)
  show ?thesis
  proof (cases b)
    case True
    with assms st new have "rn_calls r = []" by (auto simp: generate_cancellable_def)
    then show ?thesis by (auto intro: exI [of _ "[]"])
  next
    case False
    obtain res' where "sample_loop L caps (ll_tokenize L prompt) (max_tokens_or_default cfg) cfg stop r0 = (res', r)"
      using assms st False by (auto simp: generate_cancellable_def create_context_def Let_def split: prod.splits sum.splits)
    from sample_loop_calls [OF this new assms(3)] show ?thesis by (auto simp: batch_ok_def)
  qed
qed

text \<open>A native library for the examples: three slots per batch, eight per context, tokens are characters.\<close>

definition sample_llama :: llama where
  "sample_llama = \<lparr>ll_n_vocab = 256, ll_tokenize = map (int \<circ> of_char), ll_is_eog = (\<lambda>t. t = 33),
     ll_piece = (\<lambda>t. if t = 65 then ''A'' else ''!''), ll_new_context = Inr \<lparr>n_ctx = 8, n_batch = 3, n_ubatch = 3\<rparr>,
     ll_batch_add = (\<lambda>_ _ _. None), ll_decode = (\<lambda>_ _. None),
     ll_sample = (\<lambda>calls _ _. if length (concat calls) < 6 then 65 else 33)\<rparr>"

lemmas run_defs = generate_cancellable_def sample_loop_def decode_prompt_def decode_range_checked_def create_context_def
  ensure_prompt_room_def stop_requested_def run_new_def batch_add_def add_one_def decode_def draw_def accept_many_def
  build_sampler_def max_tokens_or_default_def detokenize_def as_i32_def utf8_seq_def chunks.simps sample_from.simps
  Let_def two64_def

theorem native_calls_in_bounds_witness:
  "list_all (\<lambda>b. b \<noteq> [] \<and> length b \<le> 3) (rn_calls (snd (generate_cancellable sample_llama ''abcd'' config_default None)))"
proof -
  have caps: "ll_new_context sample_llama = Inr \<lparr>n_ctx = 8, n_batch = 3, n_ubatch = 3\<rparr>" by (simp add: sample_llama_def)
  show ?thesis
    using native_calls_in_bounds [OF prod.collapse [symmetric] caps, of "''abcd''" config_default None]
    by (simp add: list_all_iff)
qed

section \<open>Stopping\<close>

text \<open>
  \<open>n\<close> polls of the callback found it clear; if the run stopped, one more found it set. Each native call
  follows a poll of its own.
\<close>

definition polled :: "(nat \<Rightarrow> bool) \<Rightarrow> bool \<Rightarrow> run \<Rightarrow> run \<Rightarrow> bool" where
  "polled f stopped r r' \<longleftrightarrow>
     (\<exists>n. rn_checks r' = rn_checks r + n + (if stopped then 1 else 0) \<and> (\<forall>j < n. \<not> f (rn_checks r + j)) \<and>
       (stopped \<longrightarrow> f (rn_checks r + n)) \<and> length (rn_calls r') \<le> length (rn_calls r) + n)"

lemma polled_refl: "polled f False r r"
  by (auto simp: polled_def)

lemma polled_trans:
  assumes "polled f False r r1" "polled f st r1 r2"
  shows "polled f st r r2"
proof -
  from assms obtain n m where n: "rn_checks r1 = rn_checks r + n" "\<forall>j < n. \<not> f (rn_checks r + j)"
      "length (rn_calls r1) \<le> length (rn_calls r) + n"
    and m: "rn_checks r2 = rn_checks r1 + m + (if st then 1 else 0)" "\<forall>j < m. \<not> f (rn_checks r1 + j)"
      "st \<longrightarrow> f (rn_checks r1 + m)" "length (rn_calls r2) \<le> length (rn_calls r1) + m"
    unfolding polled_def by auto
  have "\<not> f (rn_checks r + j)" if "j < n + m" for j
  proof (cases "j < n")
    case False
    then have eq: "rn_checks r + j = rn_checks r1 + (j - n)" and "j - n < m" using n(1) that by simp_all
    with m(2) show ?thesis unfolding eq by blast
  qed (use n in simp)
  with n m show ?thesis unfolding polled_def by (intro exI [of _ "n + m"]) (auto simp: add.assoc)
qed

lemma polled_stop: "stop_requested (Some f) r = (True, r1) \<Longrightarrow> polled f True r r1"
  by (auto simp: stop_requested_def polled_def)

lemma polled_go:
  assumes "stop_requested (Some f) r = (False, r1)" "length bs \<le> 1"
  shows "polled f False r (r1\<lparr>rn_calls := rn_calls r1 @ bs\<rparr>)"
  using assms by (auto simp: stop_requested_def polled_def)

lemma polled_go0: "stop_requested (Some f) r = (False, r1) \<Longrightarrow> polled f False r r1"
  using polled_go [of f r r1 "[]"] by simp

lemma decode_chunks_polled:
  "decode_chunks L b0 n la cap (Some f) ci cs r = (res, r') \<Longrightarrow> polled f (res = Inr False) r r'"
proof (induction cs arbitrary: ci r)
  case Nil
  then show ?case by (auto intro: polled_refl)
next
  case (Cons c cs)
  obtain st r1 where st: "stop_requested (Some f) r = (st, r1)" by (cases "stop_requested (Some f) r")
  show ?case
  proof (cases st)
    case True
    with Cons.prems st show ?thesis by (auto intro: polled_stop)
  next
    case False
    have go: "stop_requested (Some f) r = (False, r1)" using st False by simp
    show ?thesis
    proof (cases "fill_batch L (length c) b0 n la (ci * cap) c []")
      case (Inl e)
      with Cons.prems st False polled_go0 [of f r r1] show ?thesis by auto
    next
      case (Inr b)
      obtain d r2 where d: "decode L b r1 = (d, r2)" by (cases "decode L b r1")
      then have r2: "r2 = r1\<lparr>rn_calls := rn_calls r1 @ [b]\<rparr>" using decode_run [of L b r1] by simp
      have one: "polled f False r r2" using polled_go [of f r r1 "[b]"] go by (simp add: r2)
      show ?thesis
      proof (cases d)
        case (Inl e)
        with Cons.prems st False Inr d one show ?thesis by auto
      next
        case u: (Inr u)
        have "decode_chunks L b0 n la cap (Some f) (Suc ci) cs r2 = (res, r')"
          using Cons.prems st False Inr d u by simp
        from Cons.IH [OF this] one show ?thesis by (rule polled_trans [rotated])
      qed
    qed
  qed
qed

lemma decode_prompt_polled:
  "decode_prompt L caps ts (Some f) r = (res, r') \<Longrightarrow> polled f (res = Inr False) r r'"
  by (auto simp: decode_prompt_def decode_range_checked_def Let_def polled_refl
      dest!: decode_chunks_polled split: if_splits)

lemma sample_from_polled:
  assumes "sample_from L (Some f) limit start_pos offset sm out r = (res, r')"
  shows "polled f (\<exists>out'. res = Inr (out', FinCancelled)) r r'"
  using assms
proof (induction rule: sample_from_run)
  case (full offset sm out r)
  then show ?case by (simp add: polled_refl)
next
  case (stopped offset sm out r r1)
  then show ?case by (simp add: polled_stop)
next
  case (eog offset sm out r r1 tok sm1)
  then show ?case by (simp add: polled_go0)
next
  case (final offset sm out r r1 tok sm1)
  then show ?case by (simp add: polled_go0)
next
  case (failed offset sm out r r1 tok sm1 e bs)
  then have "length bs \<le> 1" by auto
  from polled_go [OF failed(2) this] show ?case by simp
next
  case (step offset sm out r r1 tok sm1 r2 res r')
  have "polled f False r r2" using polled_go [OF step(2)] by (simp add: step(5))
  then show ?case using step(6) by (rule polled_trans)
qed

lemma sample_from_added:
  assumes "sample_from L stop limit start_pos offset sm out r = (res, r')"
  shows "\<exists>bs. rn_calls r' = rn_calls r @ bs \<and> (\<forall>b \<in> set bs. length b = 1)"
  using assms
proof (induction rule: sample_from_run)
  case (step offset sm out r r1 tok sm1 r2 res r')
  from step(6) obtain bs where "rn_calls r' = rn_calls r2 @ bs" "\<forall>b \<in> set bs. length b = 1" by blast
  with step show ?case
    by (intro exI [of _ "[(tok, as_i32 (start_pos + as_i32 (int offset)), True)] # bs"]) (simp add: stop_requested_run)
qed (auto dest!: stop_requested_run)

lemma sample_loop_polled:
  assumes run: "sample_loop L caps ts max_tok cfg (Some f) r = (res, r')" and new: "rn_calls r = []"
  shows "polled f (\<exists>out. res = Inr (out, FinCancelled)) r r' \<and>
    (\<forall>b \<in> set (rn_calls r'). length b \<le> PREFILL_CHECKPOINT_TOKENS)"
proof (cases "ensure_prompt_room caps (length ts)")
  case (Inl e)
  with run new show ?thesis by (auto simp: sample_loop_def polled_refl)
next
  case (Inr u)
  then have "ts \<noteq> []" by (auto simp: ensure_prompt_room_def)
  obtain d r1 where d: "decode_prompt L caps ts (Some f) r = (d, r1)" by (cases "decode_prompt L caps ts (Some f) r")
  note pre = decode_prompt_polled [OF d]
  have small: "\<forall>b \<in> set (rn_calls r1). length b \<le> PREFILL_CHECKPOINT_TOKENS"
    using decode_prompt_calls [OF d \<open>ts \<noteq> []\<close> new] by auto
  consider e where "d = Inl e" | "d = Inr False" | "d = Inr True" by (metis (full_types) sum.exhaust)
  then show ?thesis
  proof cases
    case 3
    obtain sm limit st where rest: "sample_from L (Some f) limit st 0 sm [] r1 = (res, r')"
      using run Inr d 3 by (simp add: sample_loop_def)
    obtain bs where "rn_calls r' = rn_calls r1 @ bs" "\<forall>b \<in> set bs. length b = 1" using sample_from_added [OF rest] by blast
    then show ?thesis
      using polled_trans [OF _ sample_from_polled [OF rest]] pre 3 small
      by (auto simp: PREFILL_CHECKPOINT_TOKENS_def)
  qed (use run Inr d pre small in \<open>auto simp: sample_loop_def\<close>)
qed

text \<open>
  C14: A stop takes effect within one checkpoint: if the callback answers yes at its \<open>k\<close>-th poll it is
  never polled again, at most \<open>k\<close> native calls were made in all, none of more than 512 tokens, and if the
  run got as far as that poll its result is the finish reason \<open>Cancelled\<close>, never a complete answer.
\<close>

theorem stop_within_checkpoint:
  assumes run: "generate_cancellable L prompt cfg (Some f) = (res, r)" and stop: "f k"
  shows "rn_checks r \<le> Suc k \<and> length (rn_calls r) \<le> k \<and>
    (\<forall>b \<in> set (rn_calls r). length b \<le> PREFILL_CHECKPOINT_TOKENS) \<and>
    (rn_checks r = Suc k \<longrightarrow> (\<exists>g. res = Inr g \<and> gr_finish_reason g = FinCancelled))"
proof -
  obtain b r0 where st: "stop_requested (Some f) run_new = (b, r0)" by (cases "stop_requested (Some f) run_new")
  then have new: "rn_calls r0 = []" using stop_requested_run by (metis run.select_convs(1) run_new_def)
  have main: "polled f (\<exists>g. res = Inr g \<and> gr_finish_reason g = FinCancelled) run_new r \<and>
      (\<forall>b \<in> set (rn_calls r). length b \<le> PREFILL_CHECKPOINT_TOKENS)"
  proof (cases b)
    case True
    with run st new have "res = Inr cancelled_result" "r = r0" by (auto simp: generate_cancellable_def)
    then show ?thesis using polled_stop [of f run_new r0] st True new by (simp add: cancelled_result_def)
  next
    case False
    have go: "polled f False run_new r0" using polled_go0 [of f run_new r0] st False by simp
    show ?thesis
    proof (cases "ll_new_context L")
      case (Inl e)
      with run st False new go show ?thesis by (auto simp: generate_cancellable_def create_context_def)
    next
      case (Inr caps)
      obtain res' where sl: "sample_loop L caps (ll_tokenize L prompt) (max_tokens_or_default cfg) cfg (Some f) r0 = (res', r)"
        and same: "(\<exists>out. res' = Inr (out, FinCancelled)) \<longleftrightarrow> (\<exists>g. res = Inr g \<and> gr_finish_reason g = FinCancelled)"
        using run st False Inr by (auto simp: generate_cancellable_def create_context_def Let_def split: prod.splits sum.splits)
      from sample_loop_polled [OF sl new] go same show ?thesis by (auto intro: polled_trans)
    qed
  qed
  then obtain n where n: "rn_checks r = n + (if \<exists>g. res = Inr g \<and> gr_finish_reason g = FinCancelled then 1 else 0)"
    "\<forall>j < n. \<not> f j" "length (rn_calls r) \<le> n" by (auto simp: polled_def run_new_def)
  have "n \<le> k" using n(2) stop by (meson leI)
  with n main show ?thesis by (auto split: if_splits)
qed

theorem stop_within_checkpoint_witness:
  "length (rn_calls (snd (generate_cancellable sample_llama ''abcd'' config_default (Some (\<lambda>k. k = 2))))) \<le> 2"
proof -
  define f where "f = (\<lambda>k :: nat. k = 2)"
  have "f 2" by (simp add: f_def)
  from stop_within_checkpoint [where L = sample_llama and prompt = "''abcd''" and cfg = config_default and f = f, OF prod.collapse [symmetric] this] show ?thesis
    by (simp add: f_def)
qed

section \<open>Generation is autoregressive sampling\<close>

text \<open>
  The reference: sample the next token of the sequence so far, until an end token or the limit. It knows
  neither batches nor positions nor checkpoints; \<open>next\<close> is the model's choice for a sequence.
\<close>

fun ref_generate ::
  "(ltok list \<Rightarrow> sampler \<Rightarrow> ltok) \<Rightarrow> (ltok \<Rightarrow> bool) \<Rightarrow> ltok list \<Rightarrow> sampler \<Rightarrow> nat \<Rightarrow> ltok list \<times> finish_reason" where
  "ref_generate next eog ts sm 0 = ([], FinMaxTokens)"
| "ref_generate next eog ts sm (Suc n) =
     (let tok = next ts sm; sm1 = accept_many [tok] (sm\<lparr>sm_drawn := Suc (sm_drawn sm)\<rparr>) in
      if eog tok then ([], FinStop)
      else let (out, reason) = ref_generate next eog (ts @ [tok]) sm1 n in (tok # out, reason))"

text \<open>
  What llama.cpp documents of its context: the logits of the last token depend on the tokens and positions
  in the context, not on how they were batched.
\<close>

definition batching_irrelevant :: "llama \<Rightarrow> (ltok list \<Rightarrow> sampler \<Rightarrow> ltok) \<Rightarrow> bool" where
  "batching_irrelevant L next \<longleftrightarrow>
     (\<forall>calls ts sm. kv_tokens calls = positioned 0 ts \<and> logits_ready calls \<longrightarrow> ll_sample L calls (- 1) sm = next ts sm)"

lemma draw_next:
  assumes "batching_irrelevant L next" "loop_inv cap ts offset out r" "draw L (- 1) r sm = (tok, sm1)"
  shows "tok = next (ts @ out) sm \<and> sm1 = accept_many [tok] (sm\<lparr>sm_drawn := Suc (sm_drawn sm)\<rparr>)"
  using assms by (auto simp: draw_def Let_def batching_irrelevant_def loop_inv_def)

lemma sample_from_ref:
  assumes "sample_from L stop limit (as_i32 (int (length ts))) offset sm out r = (res, r')"
    and "loop_inv cap ts offset out r" "0 < cap" "length ts + limit \<le> 2 ^ 31" "batching_irrelevant L next"
    and "offset \<le> limit" "res = Inr (out', reason)"
  shows "\<exists>p. out' = out @ p \<and> prefix p (fst (ref_generate next (ll_is_eog L) (ts @ out) sm (limit - offset))) \<and>
    (reason \<noteq> FinCancelled \<longrightarrow> (p, reason) = ref_generate next (ll_is_eog L) (ts @ out) sm (limit - offset))"
  using assms
proof (induction rule: sample_from_run)
  case (full offset sm out r)
  then show ?case by simp
next
  case (stopped offset sm out r r1)
  then show ?case by simp
next
  case (eog offset sm out r r1 tok sm1)
  then obtain n where n: "limit - offset = Suc n" by (metis Suc_diff_Suc)
  from eog draw_next [OF eog(8) loop_inv_check [OF eog(5) eog(2)] eog(3)] show ?case by (simp add: n Let_def)
next
  case (final offset sm out r r1 tok sm1)
  then have "limit - offset = Suc 0" by simp
  with final draw_next [OF final(8) loop_inv_check [OF final(5) final(2)] final(3)] show ?case by (auto simp: Let_def)
next
  case (failed offset sm out r r1 tok sm1 e bs)
  then show ?case by simp
next
  case (step offset sm out r r1 tok sm1 r2 res r')
  note inv = loop_inv_check [OF step(7) step(2)]
  have "loop_inv cap ts (Suc offset) (out @ [tok]) r2"
    using loop_inv_decode [OF inv, of tok] step by simp
  with step obtain p where p: "out' = (out @ [tok]) @ p"
    "prefix p (fst (ref_generate next (ll_is_eog L) (ts @ out @ [tok]) sm1 (limit - Suc offset)))"
    "reason \<noteq> FinCancelled \<longrightarrow> (p, reason) = ref_generate next (ll_is_eog L) (ts @ out @ [tok]) sm1 (limit - Suc offset)"
    by auto
  have "limit - offset = Suc (limit - Suc offset)" using step by simp
  with p draw_next [OF step(10) inv step(3)] step(4) show ?case
    by (intro exI [of _ "tok # p"]) (auto simp: Let_def split: prod.splits)
qed

text \<open>
  C3: Chunked, checkpointed generation computes autoregressive sampling: a successful result is the text
  of the tokens the reference samples after the prompt, with the reference's finish reason; when it was
  cancelled, the text of a beginning of them. At most \<open>max_tokens\<close> tokens are produced, within the context.
\<close>

theorem generation_is_autoregressive:
  assumes run: "generate_cancellable L prompt cfg stop = (Inr g, r)" and ctx: "ll_new_context L = Inr caps" "n_ctx caps \<le> 2 ^ 31"
    and batch: "batching_irrelevant L next"
  defines "ts \<equiv> ll_tokenize L prompt"
  defines "limit \<equiv> min (max_tokens_or_default cfg) (n_ctx caps - length ts)"
  defines "ref \<equiv> ref_generate next (ll_is_eog L) ts (accept_many ts (build_sampler cfg (ll_n_vocab L))) limit"
  shows "\<exists>out. gr_text g = detokenize L out \<and> prefix out (fst ref) \<and>
    (gr_finish_reason g \<noteq> FinCancelled \<longrightarrow> (out, gr_finish_reason g) = ref)"
proof -
  obtain b r0 where st: "stop_requested stop run_new = (b, r0)" by (cases "stop_requested stop run_new")
  then have new: "rn_calls r0 = []" using stop_requested_run by (metis run.select_convs(1) run_new_def)
  show ?thesis
  proof (cases b)
    case True
    with run st have "g = cancelled_result" by (auto simp: generate_cancellable_def)
    then show ?thesis by (intro exI [of _ "[]"]) (simp add: cancelled_result_def detokenize_def)
  next
    case False
    obtain out where sl: "sample_loop L caps ts (max_tokens_or_default cfg) cfg stop r0 = (Inr (out, gr_finish_reason g), r)"
      and piece: "gr_text g = detokenize L out"
      using run st False ctx unfolding ts_def
      by (auto simp: generate_cancellable_def create_context_def Let_def split: prod.splits sum.splits)
    then have room: "ts \<noteq> []" "length ts < n_ctx caps"
      by (auto simp: sample_loop_def ensure_prompt_room_def split: if_splits)
    obtain d r1 where d: "decode_prompt L caps ts stop r0 = (d, r1)" by (cases "decode_prompt L caps ts stop r0")
    show ?thesis
    proof (cases "d = Inr True")
      case False
      with sl d room have "out = [] \<and> gr_finish_reason g = FinCancelled"
        by (auto simp: sample_loop_def ensure_prompt_room_def split: sum.splits bool.splits)
      with piece show ?thesis by (intro exI [of _ "[]"]) simp
    next
      case True
      have inv: "loop_inv (min (n_batch caps) (n_ubatch caps)) ts 0 [] r1" "0 < min (n_batch caps) (n_ubatch caps)"
        using decode_prompt_calls [OF d room(1) new] True by (auto simp: loop_inv_def)
      have "sample_from L stop limit (as_i32 (int (length ts))) 0 (accept_many ts (build_sampler cfg (ll_n_vocab L))) [] r1 =
          (Inr (out, gr_finish_reason g), r)"
        using sl d True room by (simp add: sample_loop_def ensure_prompt_room_def limit_def)
      from sample_from_ref [OF this inv _ batch _ refl] ctx(2) room piece show ?thesis
        unfolding ref_def by (auto simp: limit_def)
    qed
  qed
qed

theorem generation_is_autoregressive_witness:
  "batching_irrelevant sample_llama (\<lambda>ts _. if length ts < 6 then 65 else 33) \<and>
   gr_text (projr (fst (generate_cancellable sample_llama ''abcd'' config_default None))) = ''AA''"
proof -
  have irr: "batching_irrelevant sample_llama (\<lambda>ts _. if length ts < 6 then 65 else 33)"
  proof -
    have "length (concat calls) = length ts" if "kv_tokens calls = positioned 0 ts" for calls ts
    proof -
      have "length (positioned k ts) = length ts" for k by (induction ts arbitrary: k) auto
      with that show ?thesis by (metis kv_tokens_def length_map)
    qed
    then show ?thesis by (simp add: batching_irrelevant_def sample_llama_def)
  qed
  have "fst (generate_cancellable sample_llama ''abcd'' config_default None) =
      Inr \<lparr>gr_text = ''AA'', gr_tokens_generated = 2, gr_finish_reason = FinStop\<rparr>"
    by (simp add: run_defs sample_llama_def config_default_def)
  then have run: "generate_cancellable sample_llama ''abcd'' config_default None =
      (Inr \<lparr>gr_text = ''AA'', gr_tokens_generated = 2, gr_finish_reason = FinStop\<rparr>,
       snd (generate_cancellable sample_llama ''abcd'' config_default None))"
    by (metis prod.collapse)
  have caps: "ll_new_context sample_llama = Inr \<lparr>n_ctx = 8, n_batch = 3, n_ubatch = 3\<rparr>" by (simp add: sample_llama_def)
  from generation_is_autoregressive [OF run caps _ irr] have "\<exists>out. detokenize sample_llama out = ''AA''" by auto
  with irr run show ?thesis by (metis fst_conv generation_result.select_convs(1) sum.sel(2))
qed

section \<open>The frames of a stream\<close>

text \<open>
  The frames a generation adds to the channel: raw tokens, or pieces of text when the security pipeline is
  attached. What was sent before stays as it is.
\<close>

definition frames_added :: "bool \<Rightarrow> sink \<Rightarrow> sink \<Rightarrow> bool" where
  "frames_added secured sk sk' \<longleftrightarrow>
     (\<exists>new. sk' = sk\<lparr>sk_items := sk_items sk @ new\<rparr> \<and> set new \<subseteq> (if secured then range ItemText else range ItemToken))"

lemma frames_added_refl [simp]: "frames_added secured sk sk"
  by (auto simp: frames_added_def intro: exI [of _ "[]"])

lemma frames_added_trans:
  assumes "frames_added secured sk sk1" "frames_added secured sk1 sk2"
  shows "frames_added secured sk sk2"
proof -
  from assms obtain n1 n2 where "sk1 = sk\<lparr>sk_items := sk_items sk @ n1\<rparr>" "sk2 = sk1\<lparr>sk_items := sk_items sk1 @ n2\<rparr>"
    "set n1 \<subseteq> (if secured then range ItemText else range ItemToken)"
    "set n2 \<subseteq> (if secured then range ItemText else range ItemToken)"
    by (auto simp: frames_added_def)
  then show ?thesis unfolding frames_added_def by (intro exI [of _ "n1 @ n2"]) simp
qed

lemma send_item_frames:
  assumes "send_item it sk = (ok, sk')" "it \<in> (if secured then range ItemText else range ItemToken)"
  shows "frames_added secured sk sk'"
  using assms by (auto simp: send_item_def frames_added_def split: if_splits intro: exI [of _ "[]"] exI [of _ "[it]"])

lemma emit_token_frames:
  assumes "emit_token S alnum L tok sg = Some (ok, sg')"
  shows "(sg_sanitizer sg' \<noteq> None \<longleftrightarrow> sg_sanitizer sg \<noteq> None) \<and>
    frames_added (sg_sanitizer sg \<noteq> None) (sg_sink sg) (sg_sink sg')"
  using assms
  by (auto simp: emit_token_def Let_def split: option.splits prod.splits elim!: send_item_frames)

lemma flush_sanitizer_frames:
  assumes "flush_sanitizer S L sg = Some sk"
  shows "frames_added (sg_sanitizer sg \<noteq> None) (sg_sink sg) sk"
proof (cases "sg_sanitizer sg")
  case (Some san)
  with assms obtain out st where "ss_flush S (detokenize L (sg_acc sg)) san = Some (out, st)"
    "sk = (case out of None \<Rightarrow> sg_sink sg | Some tail \<Rightarrow> snd (send_item (ItemText tail) (sg_sink sg)))"
    by (auto simp: flush_sanitizer_def)
  with Some show ?thesis
    by (cases out) (auto intro: send_item_frames [OF prod.collapse [symmetric]])
qed (use assms in \<open>simp add: flush_sanitizer_def\<close>)

lemma stream_from_frames:
  "stream_from S alnum L stop limit start_pos offset sm sg r = Some (res, sg', r') \<Longrightarrow>
   (sg_sanitizer sg' \<noteq> None \<longleftrightarrow> sg_sanitizer sg \<noteq> None) \<and>
   frames_added (sg_sanitizer sg \<noteq> None) (sg_sink sg) (sg_sink sg')"
proof (induction S alnum L stop limit start_pos offset sm sg r rule: stream_from.induct)
  case (1 S alnum L stop limit start_pos offset sm sg r)
  note run = "1.prems" [unfolded stream_from.simps [of S alnum L stop limit start_pos offset sm sg r]]
  show ?case
  proof (cases "limit \<le> offset")
    case True
    with run show ?thesis by auto
  next
    case False
    obtain st r1 where st: "stop_requested stop r = (st, r1)" by (cases "stop_requested stop r")
    obtain tok sm1 where dr: "draw L (- 1) r1 sm = (tok, sm1)" by (cases "draw L (- 1) r1 sm")
    show ?thesis
    proof (cases st)
      case True
      with run False st show ?thesis by auto
    next
      case go: False
      obtain ok sg1 where em: "emit_token S alnum L tok sg = Some (ok, sg1)"
        using run False st go dr by (auto split: option.splits)
      note txts = emit_token_frames [OF em]
      show ?thesis
      proof (cases "\<not> ok \<or> ll_is_eog L tok \<or> offset + 1 = limit")
        case True
        with run False st go dr em txts show ?thesis by auto
      next
        case more: False
        let ?pos = "as_i32 (start_pos + as_i32 (int offset))"
        show ?thesis
        proof (cases "add_one L tok ?pos")
          case (Inl e)
          with run False st go dr em more txts show ?thesis by auto
        next
          case b: (Inr b)
          obtain d r2 where d: "decode L b r1 = (d, r2)" by (cases "decode L b r1")
          show ?thesis
          proof (cases d)
            case (Inl e)
            with run False st go dr em more b d txts show ?thesis by auto
          next
            case u: (Inr u)
            have rec: "stream_from S alnum L stop limit start_pos (Suc offset) sm1 sg1 r2 = Some (res, sg', r')"
              using run False st go dr em more b d u by simp
            from "1.IH" [OF False refl refl st [symmetric] go refl dr [symmetric] em refl more b d [symmetric] u rec] txts
            show ?thesis by (auto intro: frames_added_trans)
          qed
        qed
      qed
    qed
  qed
qed

lemma generate_stream_frames:
  assumes "generate_stream S alnum L prompt cfg stop san sk = Some (res, sk', r)"
  shows "frames_added (san \<noteq> None) sk sk'"
proof (cases "sk' = sk")
  case False
  then obtain limit start sm res' sg r1 r2 where run:
    "stream_from S alnum L stop limit start 0 sm \<lparr>sg_acc = [], sg_sanitizer = san, sg_sink = sk\<rparr> r1 = Some (res', sg, r2)"
    and tail: "sk' = sg_sink sg \<or> flush_sanitizer S L sg = Some sk'"
    using assms
    by (auto simp: generate_stream_def Let_def split: prod.splits bool.splits sum.splits option.splits)
  from stream_from_frames [OF run] have sec: "(sg_sanitizer sg \<noteq> None) = (san \<noteq> None)"
    and added: "frames_added (san \<noteq> None) sk (sg_sink sg)" by auto
  from tail show ?thesis
  proof
    assume "flush_sanitizer S L sg = Some sk'"
    from added flush_sanitizer_frames [OF this, unfolded sec] show ?thesis by (rule frames_added_trans)
  qed (use added in simp)
qed simp

lemma generator_stream_frames:
  assumes "generator_generate_stream S alnum g prompt cfg stop san sk = Some (res, sk')"
  shows "frames_added (san \<noteq> None) sk sk'"
  using assms generate_stream_frames
  by (fastforce simp: generator_generate_stream_def split: option.splits)

end
