(* ===== verification/Inference_Engine.thy ===== *)
theory Inference_Engine
  imports Gguf_Backend
begin

text \<open>
  The inference engine (\<open>engine/inference.rs\<close>, \<open>engine/inference_degraded.rs\<close>,
  \<open>engine/inference_streaming.rs\<close>, \<open>engine/model.rs\<close>) in the build without speculative decoding, and the
  output filter (\<open>engine/filter.rs\<close>).

  A model is the record of the trait's methods; \<open>gguf_model\<close> is the one the GGUF generator implements.
  While a model runs, the cancel flags and the clock change: \<open>observations\<close> are the readings at the
  start of a call, at each poll of the stop callback and at the end. \<open>None\<close> is a panic.
\<close>

section \<open>Models and the engine\<close>

record model_impl =
  mi_memory_usage :: usize
  mi_infer_cancellable :: "inference_input \<Rightarrow> inference_config \<Rightarrow> stop_fn \<Rightarrow> (engine_error + inference_output) option"
  mi_gguf :: "generator option"

definition gguf_model :: "generator \<Rightarrow> model_impl" where
  "gguf_model g =
     \<lparr>mi_memory_usage = gg_memory_bytes g,
      mi_infer_cancellable = (\<lambda>input cfg stop. Some (generator_infer_cancellable g input cfg stop)),
      mi_gguf = Some g\<rparr>"

record engine =
  en_max_context_length :: usize
  en_models :: "(string, model_impl) hash_map"
  en_degraded :: degraded_config

definition with_degraded_policy :: "usize \<Rightarrow> degraded_config \<Rightarrow> engine" where
  "with_degraded_policy n d = \<lparr>en_max_context_length = n, en_models = [], en_degraded = d\<rparr>"

definition engine_new :: "usize \<Rightarrow> engine" where
  "engine_new n = with_degraded_policy n degraded_default"

definition register_model :: "string \<Rightarrow> model_impl \<Rightarrow> engine \<Rightarrow> engine" where
  "register_model m model E = E\<lparr>en_models := AList.update m model (en_models E)\<rparr>"

definition unregister_model :: "string \<Rightarrow> engine \<Rightarrow> engine" where
  "unregister_model m E = E\<lparr>en_models := AList.delete m (en_models E)\<rparr>"

definition get_model :: "engine \<Rightarrow> string \<Rightarrow> inference_error + model_impl" where
  "get_model E m = (case map_of (en_models E) m of None \<Rightarrow> Inl (ModelNotLoaded m) | Some model \<Rightarrow> Inr model)"

definition has_model :: "engine \<Rightarrow> string \<Rightarrow> bool" where
  "has_model E m \<longleftrightarrow> map_of (en_models E) m \<noteq> None"

definition model_memory_usage :: "engine \<Rightarrow> string \<Rightarrow> usize option" where
  "model_memory_usage E m = map_option mi_memory_usage (map_of (en_models E) m)"

definition BYTES_PER_TOKEN :: nat where
  "BYTES_PER_TOKEN = 4"

definition engine_check_context :: "engine \<Rightarrow> string \<Rightarrow> inference_error + unit" where
  "engine_check_context E prompt =
     (let estimated_tokens = length prompt div BYTES_PER_TOKEN in
      if en_max_context_length E < estimated_tokens
      then Inl (ContextExceeded (en_max_context_length E) estimated_tokens) else Inr ())"

definition apply_degraded_context :: "engine \<Rightarrow> string \<Rightarrow> inference_error + string" where
  "apply_degraded_context E prompt =
     (let got = length prompt div BYTES_PER_TOKEN in
      if got \<le> en_max_context_length E then Inr prompt
      else
        case evaluate (en_degraded E) (PContext (en_max_context_length E) got) of
          ReduceContextTo tokens _ \<Rightarrow> Inr (truncate_on_char_boundary prompt (tokens * BYTES_PER_TOKEN))
        | Reject _ \<Rightarrow> Inl (ContextExceeded (en_max_context_length E) got))"

section \<open>Running a request\<close>

type_synonym reading = "flag_store \<times> instant"

record observations =
  ob_start :: reading
  ob_poll :: "nat \<Rightarrow> reading"
  ob_end :: reading

abbreviation stop_error_at :: "reading \<Rightarrow> stop_control \<Rightarrow> inference_error option" where
  "stop_error_at rd c \<equiv> stop_error (fst rd) (snd rd) c"

definition polls :: "observations \<Rightarrow> stop_control \<Rightarrow> nat \<Rightarrow> bool" where
  "polls ob c k = should_stop (fst (ob_poll ob k)) (snd (ob_poll ob k)) c"

fun finish_generation :: "inference_config \<Rightarrow> inference_output \<Rightarrow> inference_error + inference_result" where
  "finish_generation cfg (Generation g) =
     (if gr_finish_reason g = FinCancelled then Inl Cancelled
      else if gr_finish_reason g = FinTimeout then Inl (DeadlineExceeded (c_timeout_ms cfg))
      else Inr \<lparr>r_output = gr_text g, r_tokens_generated = gr_tokens_generated g, r_finished = True\<rparr>)"
| "finish_generation cfg _ = Inl (ExecutionFailed ''Model returned non-generation output'')"

definition infer_controlled ::
  "model_impl \<Rightarrow> string \<Rightarrow> inference_params \<Rightarrow> usize option \<Rightarrow> stop_control \<Rightarrow> observations
   \<Rightarrow> (inference_error + inference_result) option" where
  "infer_controlled model prompt params max_mem c ob =
     (if max_mem \<noteq> None \<and> the max_mem < mi_memory_usage model
      then Some (Inl (MemoryExceeded (mi_memory_usage model) (the max_mem)))
      else
        let cfg = (to_config params)\<lparr>c_max_memory_bytes := max_mem\<rparr> in
        map_option (\<lambda>out.
            case stop_error_at (ob_end ob) c of
              Some stopped \<Rightarrow> Inl stopped
            | None \<Rightarrow>
                (case out of
                   Inl e \<Rightarrow> Inl (ExecutionFailed (show_engine_error e))
                 | Inr y \<Rightarrow> finish_generation cfg y))
          (mi_infer_cancellable model (InText prompt) cfg (Some (polls ob c))))"

definition run_controlled ::
  "engine \<Rightarrow> string \<Rightarrow> string \<Rightarrow> inference_params \<Rightarrow> stop_control \<Rightarrow> usize option \<Rightarrow> observations
   \<Rightarrow> (inference_error + inference_result) option" where
  "run_controlled E m prompt params c max_mem ob =
     (case params_validate params of
        Inl e \<Rightarrow> Some (Inl e)
      | Inr _ \<Rightarrow>
          (case stop_error_at (ob_start ob) c of
             Some stopped \<Rightarrow> Some (Inl stopped)
           | None \<Rightarrow>
               (case get_model E m of
                  Inl e \<Rightarrow> Some (Inl e)
                | Inr model \<Rightarrow>
                    (case engine_check_context E prompt of
                       Inl e \<Rightarrow> Some (Inl e)
                     | Inr _ \<Rightarrow> infer_controlled model prompt params max_mem c ob))))"

definition engine_run ::
  "engine \<Rightarrow> string \<Rightarrow> string \<Rightarrow> inference_params \<Rightarrow> observations \<Rightarrow> (inference_error + inference_result) option" where
  "engine_run E m prompt params ob =
     (case params_validate params of
        Inl e \<Rightarrow> Some (Inl e)
      | Inr _ \<Rightarrow>
          let c = sc_from_timeout (snd (ob_start ob)) None (p_timeout_ms params) in
          (case get_model E m of
             Inl e \<Rightarrow> Some (Inl e)
           | Inr model \<Rightarrow>
               (case apply_degraded_context E prompt of
                  Inl e \<Rightarrow> Some (Inl e)
                | Inr prompt' \<Rightarrow> infer_controlled model prompt' params None c ob)))"

section \<open>Streaming\<close>

text \<open>The security pipeline of a stream: its sanitizer and the alphanumeric test of the standard library.\<close>

type_synonym egress_fn = "(string \<Rightarrow> string) \<times> (string \<Rightarrow> bool)"

definition stream_tokens ::
  "engine \<Rightarrow> string \<Rightarrow> string \<Rightarrow> inference_config \<Rightarrow> egress_fn option \<Rightarrow> stop_fn \<Rightarrow> sink \<Rightarrow> ((inference_error + unit) \<times> sink) option" where
  "stream_tokens E m prompt cfg sec stop sk =
     (case map_of (en_models E) m of
        None \<Rightarrow> Some (Inl (ModelNotLoaded m), sk)
      | Some model \<Rightarrow>
          (case mi_gguf model of
             None \<Rightarrow> Some (Inl (ExecutionFailed ''model does not support streaming''), sk)
           | Some g \<Rightarrow>
               let (S, alnum) = (case sec of None \<Rightarrow> (id, \<lambda>_. False) | Some x \<Rightarrow> x) in
               map_option (\<lambda>(res, sk').
                   ((case res of Inl e \<Rightarrow> Inl (ExecutionFailed (show_engine_error e)) | Inr _ \<Rightarrow> Inr ()), sk'))
                 (generator_generate_stream S alnum g prompt cfg stop (map_option (\<lambda>_. ss_new) sec) sk)))"

text \<open>\<open>stopped\<close> is the answer of the stop callback after the stream has ended.\<close>

definition run_stream_sync ::
  "engine \<Rightarrow> string \<Rightarrow> string \<Rightarrow> inference_config \<Rightarrow> egress_fn option \<Rightarrow> stop_fn \<Rightarrow> bool \<Rightarrow> sink \<Rightarrow> ((inference_error + unit) \<times> sink) option" where
  "run_stream_sync E m prompt cfg sec stop stopped sk =
     map_option (\<lambda>(res, sk1).
         let result = (if res = Inr () \<and> stop \<noteq> None \<and> stopped
                       then Inl (ExecutionFailed ''stream cancelled or deadline exceeded'') else res);
             terminal = (case result of Inr _ \<Rightarrow> TermComplete | Inl e \<Rightarrow> TermError (show_inference_error e))
         in (result, snd (send_item (ItemEnd terminal) sk1)))
       (stream_tokens E m prompt cfg sec stop sk)"

section \<open>Output filter\<close>

record filter_config =
  fc_blocklist :: "string list"
  fc_regex_patterns :: "string list"
  fc_max_output_chars :: usize
  fc_replacement :: string

text \<open>A compiled pattern: \<open>replace_all\<close> with a replacement, and \<open>is_match\<close>.\<close>

record regex =
  rx_replace_all :: "string \<Rightarrow> string \<Rightarrow> string"
  rx_is_match :: "string \<Rightarrow> bool"

record output_filter =
  of_config :: filter_config
  of_patterns :: "regex list"
  of_normalized_blocklist :: "string list"

fun compile_all :: "(string \<Rightarrow> string + regex) \<Rightarrow> string list \<Rightarrow> string + regex list" where
  "compile_all compile [] = Inr []"
| "compile_all compile (p # ps) =
     (case compile p of
        Inl e \<Rightarrow> Inl e
      | Inr r \<Rightarrow> (case compile_all compile ps of Inl e \<Rightarrow> Inl e | Inr rs \<Rightarrow> Inr (r # rs)))"

definition output_filter_new ::
  "(string \<Rightarrow> string + regex) \<Rightarrow> (string \<Rightarrow> string) \<Rightarrow> (string \<Rightarrow> string) \<Rightarrow> filter_config \<Rightarrow> engine_error + output_filter" where
  "output_filter_new compile nfc lower cfg =
     (case compile_all compile (fc_regex_patterns cfg) of
        Inl e \<Rightarrow> Inl (EInputValidation (''invalid regex: '' @ e))
      | Inr rs \<Rightarrow> Inr \<lparr>of_config = cfg, of_patterns = rs, of_normalized_blocklist = map (lower \<circ> nfc) (fc_blocklist cfg)\<rparr>)"

definition lower_for_compare :: "(string \<Rightarrow> string) \<Rightarrow> (string \<Rightarrow> string) \<Rightarrow> string \<Rightarrow> string" where
  "lower_for_compare nfc lower text = (if is_ascii text then lower text else lower (nfc text))"

definition apply_blocklist :: "string \<Rightarrow> (string \<times> string) list \<Rightarrow> string \<Rightarrow> string \<Rightarrow> string" where
  "apply_blocklist lowered entries replacement text =
     fold (\<lambda>(normalized, blocked) result.
         if contains_str lowered normalized then replace_str result blocked replacement else result)
       entries text"

text \<open>\<open>String::truncate\<close> panics when the new length is not a character boundary.\<close>

definition str_truncate :: "string \<Rightarrow> usize \<Rightarrow> string option" where
  "str_truncate s n = (if length s \<le> n then Some s else if is_char_boundary s n then Some (take n s) else None)"

definition filter_text ::
  "(string \<Rightarrow> string) \<Rightarrow> (string \<Rightarrow> string) \<Rightarrow> output_filter \<Rightarrow> string \<Rightarrow> string option" where
  "filter_text nfc lower f text =
     (let cfg = of_config f;
          r1 = (if of_normalized_blocklist f = [] then text
                else apply_blocklist (lower_for_compare nfc lower text) (zip (of_normalized_blocklist f) (fc_blocklist cfg)) (fc_replacement cfg) text);
          r2 = fold (\<lambda>p result. rx_replace_all p result (fc_replacement cfg)) (of_patterns f) r1
      in if 0 < fc_max_output_chars cfg \<and> fc_max_output_chars cfg < length r2
         then str_truncate r2 (fc_max_output_chars cfg) else Some r2)"

definition contains_blocked :: "(string \<Rightarrow> string) \<Rightarrow> (string \<Rightarrow> string) \<Rightarrow> output_filter \<Rightarrow> string \<Rightarrow> bool" where
  "contains_blocked nfc lower f text \<longleftrightarrow>
     (of_normalized_blocklist f \<noteq> [] \<and>
        (\<exists>b \<in> set (of_normalized_blocklist f). contains_str (lower_for_compare nfc lower text) b)) \<or>
     (\<exists>p \<in> set (of_patterns f). rx_is_match p text)"

section \<open>Stopped requests\<close>

lemma infer_controlled_stopped:
  assumes "infer_controlled model prompt params mm c ob = Some res" "stop_error_at (ob_end ob) c = Some e"
  shows "res = Inl e \<or> (\<exists>u l. res = Inl (MemoryExceeded u l))"
  using assms by (auto simp: infer_controlled_def Let_def split: if_splits)

lemma run_controlled_cases:
  assumes "run_controlled E m prompt params c mm ob = Some res"
  shows "(\<exists>e. res = Inl e) \<or> (\<exists>model. infer_controlled model prompt params mm c ob = Some res)"
  using assms unfolding run_controlled_def by (fastforce split: sum.splits option.splits)

text \<open>
  A stopped request never looks like a success: if the cancel flag is set or the deadline has passed
  when the model call returns, the request fails with an explicit error, whatever the model returned; and
  if the stop is visible at the start no model is called: the outcome does not depend on the loaded models
  or the prompt.
\<close>

theorem stopped_never_succeeds:
  assumes "run_controlled E m prompt params c mm ob = Some res"
  shows "(should_stop (fst (ob_end ob)) (snd (ob_end ob)) c \<longrightarrow> (\<exists>e. res = Inl e)) \<and>
    (should_stop (fst (ob_start ob)) (snd (ob_start ob)) c \<longrightarrow>
      run_controlled E' m' prompt' params c mm' ob = Some res \<and> (\<exists>e. res = Inl e))"
proof (intro conjI impI)
  assume "should_stop (fst (ob_end ob)) (snd (ob_end ob)) c"
  then obtain e where e: "stop_error_at (ob_end ob) c = Some e" using stop_error_None by fast
  show "\<exists>e. res = Inl e"
    using run_controlled_cases [OF assms] infer_controlled_stopped [OF _ e] by blast
next
  assume "should_stop (fst (ob_start ob)) (snd (ob_start ob)) c"
  then obtain e where e: "stop_error_at (ob_start ob) c = Some e" using stop_error_None by fast
  show "run_controlled E' m' prompt' params c mm' ob = Some res"
    using assms by (simp add: run_controlled_def e split: sum.splits)
  show "\<exists>e. res = Inl e"
    using assms by (auto simp add: run_controlled_def e split: sum.splits)
qed

definition sample_engine :: engine where
  "sample_engine = register_model ''m'' (gguf_model \<lparr>gg_model_id = ''m'', gg_memory_bytes = 4, gg_inner = Some sample_llama\<rparr>) (engine_new 16)"

definition sample_observations :: "instant \<Rightarrow> observations" where
  "sample_observations t = \<lparr>ob_start = (\<lambda>_. False, 0), ob_poll = (\<lambda>_. (\<lambda>_. False, 0)), ob_end = (\<lambda>_. False, t)\<rparr>"

theorem stopped_never_succeeds_witness:
  "\<exists>e. run_controlled sample_engine ''m'' ''abcd'' params_default (sc_new None (Some 5) 7) None (sample_observations 6) = Some (Inl e)"
proof -
  let ?run = "run_controlled sample_engine ''m'' ''abcd'' params_default (sc_new None (Some 5) 7) None (sample_observations 6)"
  have "?run \<noteq> None"
    by (simp add: run_controlled_def infer_controlled_def sample_engine_def register_model_def gguf_model_def
        get_model_def Let_def split: sum.split option.split)
  then obtain res where res: "?run = Some res" by blast
  have "should_stop (fst (ob_end (sample_observations 6))) (snd (ob_end (sample_observations 6))) (sc_new None (Some 5) 7)"
    by (simp add: sample_observations_def stop_defs)
  then obtain e where "res = Inl e" using conjunct1 [OF stopped_never_succeeds [OF res]] by blast
  with res show ?thesis by simp
qed

section \<open>Framing of a stream\<close>

lemma stream_tokens_frames:
  assumes "stream_tokens E m prompt cfg sec stop sk = Some (res, sk')"
  shows "frames_added (sec \<noteq> None) sk sk'"
proof (cases "sk' = sk")
  case False
  with assms obtain S alnum g res' where
    "generator_generate_stream S alnum g prompt cfg stop (map_option (\<lambda>_. ss_new) sec) sk = Some (res', sk')"
    by (auto simp: stream_tokens_def Let_def split: option.splits prod.splits)
  from generator_stream_frames [OF this] show ?thesis by simp
qed simp

text \<open>
  What a stream adds to the channel is a run of data frames, then exactly one terminal frame, unless the
  receiver is gone. The terminal says Complete exactly when the result is Ok, and never after a stop. With
  the security pipeline attached every data frame is sanitized text: raw token ids do not leave the runtime.
\<close>

lemma stream_framing:
  assumes "run_stream_sync E m prompt cfg sec stop stopped sk = Some (res, sk')"
  shows "\<exists>data. set data \<subseteq> (if sec \<noteq> None then range ItemText else range ItemToken) \<and>
    (if sk_open sk (length (sk_items sk @ data))
     then \<exists>t. sk_items sk' = sk_items sk @ data @ [ItemEnd t] \<and> (t = TermComplete \<longleftrightarrow> res = Inr ())
     else sk_items sk' = sk_items sk @ data) \<and>
    (stop \<noteq> None \<and> stopped \<longrightarrow> res \<noteq> Inr ())"
proof -
  obtain res1 sk1 where run: "stream_tokens E m prompt cfg sec stop sk = Some (res1, sk1)"
    using assms by (auto simp: run_stream_sync_def)
  from stream_tokens_frames [OF run] obtain data where data: "sk1 = sk\<lparr>sk_items := sk_items sk @ data\<rparr>"
    "set data \<subseteq> (if sec \<noteq> None then range ItemText else range ItemToken)"
    by (auto simp: frames_added_def)
  let ?t = "case res of Inr _ \<Rightarrow> TermComplete | Inl e \<Rightarrow> TermError (show_inference_error e)"
  have res: "res = (if res1 = Inr () \<and> stop \<noteq> None \<and> stopped
      then Inl (ExecutionFailed ''stream cancelled or deadline exceeded'') else res1)"
    and sk': "sk' = snd (send_item (ItemEnd ?t) sk1)"
    using assms by (auto simp: run_stream_sync_def run Let_def)
  have "?t = TermComplete \<longleftrightarrow> res = Inr ()" by (cases res) auto
  with data res sk' show ?thesis
    by (intro exI [of _ data]) (auto simp: send_item_def)
qed

section \<open>Observations\<close>

text \<open>
  The limit of the output filter is documented in characters but applied to bytes, and a limit that falls
  inside a character makes \<open>String::truncate\<close> panic.
\<close>

lemma filter_panics_inside_character:
  "filter_text id id \<lparr>of_config = \<lparr>fc_blocklist = [], fc_regex_patterns = [], fc_max_output_chars = 1, fc_replacement = []\<rparr>,
     of_patterns = [], of_normalized_blocklist = []\<rparr> (utf8 [0xC3, 0xA9]) = None"
  by code_simp

text \<open>
  The block list is compared without regard to case but replaced literally: a blocked word in another
  case is recognised and left in the text.
\<close>

lemma filter_keeps_other_case:
  assumes "lower ''SECRET'' = ''secret''"
  shows "filter_text id lower \<lparr>of_config = \<lparr>fc_blocklist = [''secret''], fc_regex_patterns = [], fc_max_output_chars = 0, fc_replacement = ''x''\<rparr>,
       of_patterns = [], of_normalized_blocklist = [''secret'']\<rparr> ''SECRET'' = Some ''SECRET'' \<and>
     contains_blocked id lower \<lparr>of_config = \<lparr>fc_blocklist = [''secret''], fc_regex_patterns = [], fc_max_output_chars = 0, fc_replacement = ''x''\<rparr>,
       of_patterns = [], of_normalized_blocklist = [''secret'']\<rparr> ''SECRET''"
  using assms
  by (simp add: filter_text_def contains_blocked_def apply_blocklist_def lower_for_compare_def replace_str_def Let_def)

end
