(* ===== verification/Telemetry.thy ===== *)
theory Telemetry
  imports Rust_Text
begin

text \<open>
  The metrics store and the span collector (\<open>telemetry/store.rs\<close>, \<open>telemetry/buckets.rs\<close>,
  \<open>telemetry/prometheus.rs\<close>, \<open>telemetry/span_export.rs\<close>). The store keeps counters, gauges,
  summary histograms and bucketed histograms by name; a snapshot of it answers the metrics request and is
  printed in the Prometheus text format.

  An \<open>f64\<close> has the same value set as the \<open>f32\<close> of the prelude (a finite value is an exact
  rational); its rounding addition and its \<open>Display\<close> are arguments of the operations that use them.
\<close>

type_synonym f64 = f32

abbreviation f64_le :: "f64 \<Rightarrow> f64 \<Rightarrow> bool" where
  "f64_le \<equiv> f32_le"

lemma f64_le_refl [simp]: "f64_le x x \<longleftrightarrow> x \<noteq> F32_NaN"
  by (cases x) (auto simp: f32_le_def)

lemma f64_le_NaN [simp]: "\<not> f64_le F32_NaN x" "\<not> f64_le x F32_NaN"
  by (cases x; simp add: f32_le_def)+

lemma f64_le_trans: "f64_le x y \<Longrightarrow> f64_le y z \<Longrightarrow> f64_le x z"
  by (cases x; cases y; cases z) (auto simp: f32_le_def)

lemma f64_le_total: "x \<noteq> F32_NaN \<Longrightarrow> y \<noteq> F32_NaN \<Longrightarrow> \<not> f64_le x y \<Longrightarrow> f64_le y x"
  by (cases x; cases y) (auto simp: f32_le_def)

section \<open>Bucketed histograms\<close>

record histogram =
  boundaries :: "f64 list"
  buckets :: "u64 list"
  bh_count :: u64
  bh_sum :: f64

record histogram_snapshot =
  hs_boundaries :: "f64 list"
  hs_bucket_counts :: "u64 list"
  hs_count :: u64
  hs_sum :: f64

definition default_latency_buckets :: "f64 list" where
  "default_latency_buckets =
     map F32 [1 / 2, 1, 5 / 2, 5, 10, 25, 50, 100, 250, 500, 1000]"

definition default_throughput_buckets :: "f64 list" where
  "default_throughput_buckets = map F32 [10, 25, 50, 100, 250, 500, 1000, 2500, 5000, 10000]"

text \<open>
  \<open>sort_by(|a, b| a.partial_cmp(b).unwrap())\<close> is stable; \<open>unwrap\<close> panics as soon as a NaN is
  compared, which needs at least two elements.
\<close>

fun insert_boundary :: "f64 \<Rightarrow> f64 list \<Rightarrow> f64 list" where
  "insert_boundary x [] = [x]"
| "insert_boundary x (y # ys) = (if f64_le x y then x # y # ys else y # insert_boundary x ys)"

definition sort_boundaries :: "f64 list \<Rightarrow> f64 list option" where
  "sort_boundaries bs =
     (if 1 < length bs \<and> F32_NaN \<in> set bs then None else Some (foldr insert_boundary bs []))"

definition histogram_new :: "f64 list \<Rightarrow> histogram option" where
  "histogram_new bs =
     (case sort_boundaries bs of
        None \<Rightarrow> None
      | Some sorted_bs \<Rightarrow> Some \<lparr>boundaries = sorted_bs, buckets = replicate (length sorted_bs + 1) 0,
          bh_count = 0, bh_sum = F32 0\<rparr>)"

fun find_bucket_from :: "usize \<Rightarrow> f64 list \<Rightarrow> f64 \<Rightarrow> usize" where
  "find_bucket_from i [] v = i"
| "find_bucket_from i (b # bs) v = (if f64_le v b then i else find_bucket_from (Suc i) bs v)"

definition find_bucket :: "histogram \<Rightarrow> f64 \<Rightarrow> usize" where
  "find_bucket h v = find_bucket_from 0 (boundaries h) v"

definition observe :: "(f64 \<Rightarrow> f64 \<Rightarrow> f64) \<Rightarrow> f64 \<Rightarrow> histogram \<Rightarrow> histogram" where
  "observe fadd v h =
     (let i = find_bucket h v in
      h\<lparr>bh_count := wrap_add (bh_count h) 1, bh_sum := fadd (bh_sum h) v,
        buckets := (buckets h)[i := wrap_add (buckets h ! i) 1]\<rparr>)"

definition histogram_snap :: "histogram \<Rightarrow> histogram_snapshot" where
  "histogram_snap h = \<lparr>hs_boundaries = boundaries h, hs_bucket_counts = buckets h,
     hs_count = bh_count h, hs_sum = bh_sum h\<rparr>"

section \<open>Summary histograms\<close>

record histogram_data =
  hd_count :: u64
  hd_sum :: f64
  hd_min :: f64
  hd_max :: f64

record histogram_summary =
  sm_count :: u64
  sm_sum :: f64
  sm_min :: f64
  sm_max :: f64

definition f64_MAX :: f64 where
  "f64_MAX = F32 ((2 ^ 53 - 1) * 2 ^ 971)"

definition f64_MIN :: f64 where
  "f64_MIN = F32 (- ((2 ^ 53 - 1) * 2 ^ 971))"

definition histogram_data_new :: histogram_data where
  "histogram_data_new = \<lparr>hd_count = 0, hd_sum = F32 0, hd_min = f64_MAX, hd_max = f64_MIN\<rparr>"

definition atomic_min_f64 :: "f64 \<Rightarrow> f64 \<Rightarrow> f64" where
  "atomic_min_f64 current v = (if f64_le current v then current else v)"

definition atomic_max_f64 :: "f64 \<Rightarrow> f64 \<Rightarrow> f64" where
  "atomic_max_f64 current v = (if f64_le v current then current else v)"

definition record_value :: "(f64 \<Rightarrow> f64 \<Rightarrow> f64) \<Rightarrow> f64 \<Rightarrow> histogram_data \<Rightarrow> histogram_data" where
  "record_value fadd v h =
     \<lparr>hd_count = wrap_add (hd_count h) 1, hd_sum = fadd (hd_sum h) v,
      hd_min = atomic_min_f64 (hd_min h) v, hd_max = atomic_max_f64 (hd_max h) v\<rparr>"

definition to_summary :: "histogram_data \<Rightarrow> histogram_summary" where
  "to_summary h = \<lparr>sm_count = hd_count h, sm_sum = hd_sum h,
     sm_min = (if hd_count h = 0 then F32 0 else hd_min h),
     sm_max = (if hd_count h = 0 then F32 0 else hd_max h)\<rparr>"

section \<open>The store\<close>

record metrics_store =
  ms_counters :: "(string, u64) hash_map"
  ms_gauges :: "(string, f64) hash_map"
  ms_histograms :: "(string, histogram_data) hash_map"
  ms_bucketed :: "(string, histogram) hash_map"

record metrics_snapshot =
  sn_counters :: "(string, u64) hash_map"
  sn_gauges :: "(string, f64) hash_map"
  sn_histograms :: "(string, histogram_summary) hash_map"
  sn_bucketed :: "(string, histogram_snapshot) hash_map"

definition store_new :: metrics_store where
  "store_new = \<lparr>ms_counters = [], ms_gauges = [], ms_histograms = [], ms_bucketed = []\<rparr>"

definition or_default :: "'v \<Rightarrow> ('k, 'v) hash_map \<Rightarrow> 'k \<Rightarrow> 'v" where
  "or_default d m k = (case map_of m k of None \<Rightarrow> d | Some v \<Rightarrow> v)"

definition increment_counter :: "string \<Rightarrow> u64 \<Rightarrow> metrics_store \<Rightarrow> metrics_store" where
  "increment_counter name v s =
     s\<lparr>ms_counters := AList.update name (wrap_add (or_default 0 (ms_counters s) name) v) (ms_counters s)\<rparr>"

definition set_gauge :: "string \<Rightarrow> f64 \<Rightarrow> metrics_store \<Rightarrow> metrics_store" where
  "set_gauge name v s = s\<lparr>ms_gauges := AList.update name v (ms_gauges s)\<rparr>"

definition record_histogram :: "(f64 \<Rightarrow> f64 \<Rightarrow> f64) \<Rightarrow> string \<Rightarrow> f64 \<Rightarrow> metrics_store \<Rightarrow> metrics_store" where
  "record_histogram fadd name v s =
     s\<lparr>ms_histograms := AList.update name
         (record_value fadd v (or_default histogram_data_new (ms_histograms s) name)) (ms_histograms s)\<rparr>"

text \<open>An already registered name keeps its histogram; \<open>None\<close> is the panic of the sort.\<close>

definition register_bucketed :: "string \<Rightarrow> f64 list \<Rightarrow> metrics_store \<Rightarrow> metrics_store option" where
  "register_bucketed name bs s =
     (case map_of (ms_bucketed s) name of
        Some _ \<Rightarrow> Some s
      | None \<Rightarrow> map_option (\<lambda>h. s\<lparr>ms_bucketed := AList.update name h (ms_bucketed s)\<rparr>) (histogram_new bs))"

definition record_bucketed :: "(f64 \<Rightarrow> f64 \<Rightarrow> f64) \<Rightarrow> string \<Rightarrow> f64 \<Rightarrow> metrics_store \<Rightarrow> metrics_store" where
  "record_bucketed fadd name v s =
     (case map_of (ms_bucketed s) name of
        None \<Rightarrow> s
      | Some h \<Rightarrow> s\<lparr>ms_bucketed := AList.update name (observe fadd v h) (ms_bucketed s)\<rparr>)"

definition snapshot :: "metrics_store \<Rightarrow> metrics_snapshot" where
  "snapshot s = \<lparr>sn_counters = ms_counters s, sn_gauges = ms_gauges s,
     sn_histograms = map (apsnd to_summary) (ms_histograms s),
     sn_bucketed = map (apsnd histogram_snap) (ms_bucketed s)\<rparr>"

section \<open>Prometheus text format\<close>

record metric_help =
  mh_name :: string
  mh_help :: string
  mh_type :: string

definition metric_definitions :: "metric_help list" where
  "metric_definitions =
    [\<lparr>mh_name = ''core_requests_total'', mh_help = ''Total inference requests'', mh_type = ''counter''\<rparr>,
     \<lparr>mh_name = ''core_requests_success'', mh_help = ''Successful inference requests'', mh_type = ''counter''\<rparr>,
     \<lparr>mh_name = ''core_requests_failed'', mh_help = ''Failed inference requests'', mh_type = ''counter''\<rparr>,
     \<lparr>mh_name = ''core_tokens_generated'', mh_help = ''Total tokens generated'', mh_type = ''counter''\<rparr>,
     \<lparr>mh_name = ''core_queue_depth'', mh_help = ''Current request queue depth'', mh_type = ''gauge''\<rparr>,
     \<lparr>mh_name = ''core_memory_used_bytes'', mh_help = ''Memory currently in use'', mh_type = ''gauge''\<rparr>,
     \<lparr>mh_name = ''core_models_loaded'', mh_help = ''Number of loaded models'', mh_type = ''gauge''\<rparr>,
     \<lparr>mh_name = ''core_latency_ms'', mh_help = ''Request latency in milliseconds'', mh_type = ''histogram''\<rparr>,
     \<lparr>mh_name = ''core_throughput_tps'', mh_help = ''Token throughput per second'', mh_type = ''histogram''\<rparr>]"

definition newline :: string where
  "newline = [CHR 0x0A]"

definition write_metric_header :: "string \<Rightarrow> string" where
  "write_metric_header name =
     (case find (\<lambda>d. mh_name d = name) metric_definitions of
        None \<Rightarrow> []
      | Some d \<Rightarrow> ''# HELP '' @ name @ '' '' @ mh_help d @ newline @
                  ''# TYPE '' @ name @ '' '' @ mh_type d @ newline)"

definition encode_prometheus :: "(f64 \<Rightarrow> string) \<Rightarrow> metrics_snapshot \<Rightarrow> string" where
  "encode_prometheus show_f64 sn =
     concat (map (\<lambda>(n, v). write_metric_header n @ n @ '' '' @ show_nat v @ newline) (sn_counters sn)) @
     concat (map (\<lambda>(n, v). write_metric_header n @ n @ '' '' @ show_f64 v @ newline) (sn_gauges sn)) @
     concat (map (\<lambda>(n, h). write_metric_header n @ n @ ''_count '' @ show_nat (sm_count h) @ newline @
                            n @ ''_sum '' @ show_f64 (sm_sum h) @ newline) (sn_histograms sn))"

text \<open>
  The running total of the loop over the boundaries: the list of the totals printed so far (one per
  boundary, in order) and the total itself. \<open>None\<close> is the panic of an index out of range.
\<close>

fun cumulate :: "u64 \<Rightarrow> f64 list \<Rightarrow> u64 list \<Rightarrow> ((f64 \<times> u64) list \<times> u64) option" where
  "cumulate c [] ns = Some ([], c)"
| "cumulate c (b # bs) [] = None"
| "cumulate c (b # bs) (n # ns) =
     (let c' = wrap_add c n in map_option (\<lambda>(ls, t). ((b, c') # ls, t)) (cumulate c' bs ns))"

definition bucket_line :: "string \<Rightarrow> string \<Rightarrow> u64 \<Rightarrow> string" where
  "bucket_line name le c = name @ ''_bucket{le='' @ [CHR 0x22] @ le @ [CHR 0x22] @ ''} '' @ show_nat c @ newline"

definition inf_total :: "u64 \<Rightarrow> u64 list \<Rightarrow> u64" where
  "inf_total c ns = wrap_add c (if ns = [] then 0 else last ns)"

definition encode_bucketed_histogram :: "(f64 \<Rightarrow> string) \<Rightarrow> string \<Rightarrow> histogram_snapshot \<Rightarrow> string option" where
  "encode_bucketed_histogram show_f64 name sn =
     map_option (\<lambda>(ls, t).
         write_metric_header name @
         concat (map (\<lambda>(b, c). bucket_line name (show_f64 b) c) ls) @
         bucket_line name ''+Inf'' (inf_total t (hs_bucket_counts sn)) @
         name @ ''_count '' @ show_nat (hs_count sn) @ newline @
         name @ ''_sum '' @ show_f64 (hs_sum sn) @ newline)
       (cumulate 0 (hs_boundaries sn) (hs_bucket_counts sn))"

section \<open>Span collector\<close>

datatype span_attribute = AString string | AInt int | AFloat f64 | ABool bool
datatype span_status = Unset | SpanOk | SpanError

record exportable_span =
  trace_id :: string
  span_id :: string
  parent_span_id :: "string option"
  span_name :: string
  start_time_unix_ns :: u64
  end_time_unix_ns :: u64
  span_status :: span_status
  attributes :: "(string, span_attribute) hash_map"

record span_collector =
  spans :: "exportable_span list"
  max_buffer :: usize

definition MAX_SPAN_BUFFER :: usize where
  "MAX_SPAN_BUFFER = 1000"

definition with_capacity :: "usize \<Rightarrow> span_collector" where
  "with_capacity n = \<lparr>spans = [], max_buffer = n\<rparr>"

definition record_span :: "exportable_span \<Rightarrow> span_collector \<Rightarrow> span_collector" where
  "record_span sp c =
     c\<lparr>spans := (if max_buffer c \<le> length (spans c) then tl (spans c) else spans c) @ [sp]\<rparr>"

definition drain_spans :: "usize \<Rightarrow> span_collector \<Rightarrow> exportable_span list \<times> span_collector" where
  "drain_spans mx c =
     (let n = min mx (length (spans c)) in (take n (spans c), c\<lparr>spans := drop n (spans c)\<rparr>))"

section \<open>What the buckets count\<close>

lemma insert_boundary_set [simp]: "set (insert_boundary x ys) = insert x (set ys)"
  by (induction ys) auto

lemma insert_boundary_length [simp]: "length (insert_boundary x ys) = Suc (length ys)"
  by (induction ys) auto

lemma insert_boundary_sorted:
  "x \<noteq> F32_NaN \<Longrightarrow> F32_NaN \<notin> set ys \<Longrightarrow> sorted_wrt f64_le ys \<Longrightarrow> sorted_wrt f64_le (insert_boundary x ys)"
proof (induction ys)
  case Nil
  then show ?case by simp
next
  case (Cons y ys)
  show ?case
  proof (cases "f64_le x y")
    case True
    then show ?thesis using Cons.prems(3) by (auto intro: f64_le_trans)
  next
    case False
    then have "f64_le y x" using Cons.prems f64_le_total [of x y] by auto
    with False Cons show ?thesis by simp
  qed
qed

lemma sort_boundaries_props:
  assumes "sort_boundaries bs = Some sorted_bs" and "F32_NaN \<notin> set bs"
  shows "set sorted_bs = set bs \<and> length sorted_bs = length bs \<and> sorted_wrt f64_le sorted_bs"
proof -
  have "F32_NaN \<notin> set xs \<Longrightarrow> set (foldr insert_boundary xs []) = set xs \<and>
      length (foldr insert_boundary xs []) = length xs \<and> sorted_wrt f64_le (foldr insert_boundary xs [])" for xs
    by (induction xs) (auto intro!: insert_boundary_sorted)
  with assms show ?thesis by (auto simp: sort_boundaries_def split: if_splits)
qed

lemma find_bucket_from_shift: "find_bucket_from i bs v = i + find_bucket_from 0 bs v"
proof (induction bs arbitrary: i)
  case Nil
  then show ?case by simp
next
  case (Cons b bs)
  show ?case using Cons [of "Suc i"] Cons [of "Suc 0"] by simp
qed

lemma find_bucket_from_le: "find_bucket_from 0 bs v \<le> length bs"
  by (induction bs) (simp_all add: find_bucket_from_shift [of "Suc 0"])

definition bucket_tally :: "f64 list \<Rightarrow> f64 list \<Rightarrow> u64 list" where
  "bucket_tally bs vs =
     map (\<lambda>i. length (filter (\<lambda>v. find_bucket_from 0 bs v = i) vs)) [0..<Suc (length bs)]"

lemma bucket_tally_Cons:
  "bucket_tally (b # bs) vs =
     length (filter (\<lambda>v. f64_le v b) vs) # bucket_tally bs (filter (\<lambda>v. \<not> f64_le v b) vs)"
proof -
  have "(\<lambda>v. find_bucket_from 0 (b # bs) v = 0) = (\<lambda>v. f64_le v b)"
    by (auto simp: fun_eq_iff find_bucket_from_shift [of "Suc 0"])
  moreover have "(\<lambda>v. find_bucket_from 0 (b # bs) v = Suc i) =
      (\<lambda>v. \<not> f64_le v b \<and> find_bucket_from 0 bs v = i)" for i
    by (auto simp: fun_eq_iff find_bucket_from_shift [of "Suc 0"])
  ultimately show ?thesis
    unfolding bucket_tally_def
    by (simp only: upt_conv_Cons [of 0] map_Suc_upt [symmetric] list.map map_map o_def filter_filter length_Cons
        zero_less_Suc conj_commute)
qed

lemma length_filter_split:
  "length (filter P xs) + length (filter Q (filter (\<lambda>x. \<not> P x) xs)) = length (filter (\<lambda>x. P x \<or> Q x) xs)"
  by (induction xs) auto

lemma cumulate_tally:
  "sorted_wrt f64_le bs \<Longrightarrow> c + length vs < two64 \<Longrightarrow>
   cumulate c bs (bucket_tally bs vs) =
     Some (map (\<lambda>b. (b, c + length (filter (\<lambda>v. f64_le v b) vs))) bs,
       c + length (filter (\<lambda>v. find_bucket_from 0 bs v < length bs) vs))"
proof (induction bs arbitrary: c vs)
  case Nil
  then show ?case by simp
next
  case (Cons b bs)
  define ws where "ws = filter (\<lambda>v. \<not> f64_le v b) vs"
  define k where "k = length (filter (\<lambda>v. f64_le v b) vs)"
  have len: "k + length ws = length vs"
    unfolding k_def ws_def by (rule sum_length_filter_compl)
  then have step: "wrap_add c k = c + k" using Cons.prems(2) by simp
  have IH: "cumulate (c + k) bs (bucket_tally bs ws) =
      Some (map (\<lambda>b. (b, c + k + length (filter (\<lambda>v. f64_le v b) ws))) bs,
        c + k + length (filter (\<lambda>v. find_bucket_from 0 bs v < length bs) ws))"
    using Cons.prems len by (intro Cons.IH) simp_all
  have later: "k + length (filter (\<lambda>v. f64_le v b') ws) = length (filter (\<lambda>v. f64_le v b') vs)"
    if "b' \<in> set bs" for b'
  proof -
    have "f64_le b b'" using Cons.prems(1) that by simp
    then have "(\<lambda>v. f64_le v b \<or> f64_le v b') = (\<lambda>v. f64_le v b')" by (auto intro: f64_le_trans)
    then show ?thesis unfolding k_def ws_def by (simp only: length_filter_split)
  qed
  have "(\<lambda>v. f64_le v b \<or> find_bucket_from 0 bs v < length bs) =
      (\<lambda>v. find_bucket_from 0 (b # bs) v < length (b # bs))"
    by (auto simp: fun_eq_iff find_bucket_from_shift [of "Suc 0"])
  then have total: "k + length (filter (\<lambda>v. find_bucket_from 0 bs v < length bs) ws) =
      length (filter (\<lambda>v. find_bucket_from 0 (b # bs) v < length (b # bs)) vs)"
    unfolding k_def ws_def by (simp only: length_filter_split)
  have "map (\<lambda>b. (b, c + k + length (filter (\<lambda>v. f64_le v b) ws))) bs =
      map (\<lambda>b. (b, c + length (filter (\<lambda>v. f64_le v b) vs))) bs"
    using later by (auto simp: add.assoc)
  then show ?case
    unfolding bucket_tally_Cons k_def [symmetric] ws_def [symmetric] cumulate.simps Let_def step IH total [symmetric]
    by (simp add: k_def add.assoc)
qed

lemma inf_total_tally:
  assumes "c + length vs < two64"
  shows "inf_total (c + length (filter (\<lambda>v. find_bucket_from 0 bs v < length bs) vs)) (bucket_tally bs vs) =
    c + length vs"
proof -
  have "(\<lambda>v. find_bucket_from 0 bs v = length bs) = (\<lambda>v. \<not> find_bucket_from 0 bs v < length bs)"
    using find_bucket_from_le by (auto simp: fun_eq_iff not_less dest: le_antisym)
  then have last: "last (bucket_tally bs vs) = length (filter (\<lambda>v. \<not> find_bucket_from 0 bs v < length bs) vs)"
    and ne: "bucket_tally bs vs \<noteq> []"
    unfolding bucket_tally_def by (simp_all add: last_map)
  have "length (filter (\<lambda>v. find_bucket_from 0 bs v < length bs) vs) +
      length (filter (\<lambda>v. \<not> find_bucket_from 0 bs v < length bs) vs) = length vs"
    by (rule sum_length_filter_compl)
  with assms ne show ?thesis unfolding inf_total_def last by simp
qed

lemma bucket_tally_step:
  "bucket_tally bs (vs @ [v]) =
     (bucket_tally bs vs)[find_bucket_from 0 bs v := Suc (bucket_tally bs vs ! find_bucket_from 0 bs v)]"
  using find_bucket_from_le [of bs v]
  by (intro nth_equalityI) (auto simp: bucket_tally_def nth_list_update simp del: upt_Suc)

lemma bucket_tally_le: "i \<le> length bs \<Longrightarrow> bucket_tally bs vs ! i \<le> length vs"
  by (simp add: bucket_tally_def del: upt_Suc)

lemma observe_all:
  assumes "buckets h = bucket_tally (boundaries h) []" and "bh_count h = 0" and "length vs < two64"
  shows "boundaries (fold (observe fadd) vs h) = boundaries h \<and>
    buckets (fold (observe fadd) vs h) = bucket_tally (boundaries h) vs \<and>
    bh_count (fold (observe fadd) vs h) = length vs"
  using assms(3)
proof (induction vs rule: rev_induct)
  case Nil
  then show ?case using assms by simp
next
  case (snoc v vs)
  define g where "g = fold (observe fadd) vs h"
  have IH: "boundaries g = boundaries h" "buckets g = bucket_tally (boundaries h) vs" "bh_count g = length vs"
    using snoc by (simp_all add: g_def)
  have snoc_eq: "fold (observe fadd) (vs @ [v]) h = observe fadd v g" by (simp add: g_def)
  have "bucket_tally (boundaries h) vs ! find_bucket_from 0 (boundaries h) v \<le> length vs"
    by (intro bucket_tally_le find_bucket_from_le)
  with snoc.prems IH show ?case
    unfolding snoc_eq by (simp add: observe_def find_bucket_def Let_def bucket_tally_step)
qed



section \<open>Spans and summaries\<close>

definition sample_span :: "string \<Rightarrow> exportable_span" where
  "sample_span i = \<lparr>trace_id = i, span_id = i, parent_span_id = None, span_name = i, start_time_unix_ns = 0,
     end_time_unix_ns = 100, span_status = SpanOk, attributes = []\<rparr>"

text \<open>
  The span collector keeps the newest spans: after recording \<open>sps\<close> into a fresh collector with
  a positive capacity it holds the last \<open>capacity\<close> of them in order, and draining returns a prefix of
  what it holds and leaves the rest.
\<close>

theorem collector_keeps_newest:
  assumes "0 < n"
  shows "spans (fold record_span sps (with_capacity n)) = drop (length sps - n) sps \<and>
    fst (drain_spans k c) @ spans (snd (drain_spans k c)) = spans c \<and>
    length (fst (drain_spans k c)) \<le> k"
proof -
  have "spans (fold record_span sps (with_capacity n)) = drop (length sps - n) sps \<and>
      max_buffer (fold record_span sps (with_capacity n)) = n" for sps
  proof (induction sps rule: rev_induct)
    case Nil
    then show ?case by (simp add: with_capacity_def)
  next
    case (snoc sp sps)
    then show ?case using assms
      by (auto simp: record_span_def tl_drop Suc_diff_le drop_Suc [symmetric])
  qed
  then show ?thesis by (simp add: drain_spans_def Let_def)
qed

theorem collector_keeps_newest_witness:
  "spans (fold record_span (map sample_span [''a'', ''b'', ''c'']) (with_capacity 2)) =
     map sample_span [''b'', ''c'']"
  using collector_keeps_newest [of 2 "map sample_span [''a'', ''b'', ''c'']"] by (simp add: numeral_2_eq_2)

text \<open>A collector of capacity zero still retains one span.\<close>

lemma zero_capacity_retains_one: "length (spans (record_span sp (with_capacity 0))) = 1"
  by (simp add: record_span_def with_capacity_def)

text \<open>
  A NaN observation is stored as the minimum and the maximum, and the next observation replaces it: the
  extremes seen before are lost.
\<close>

lemma nan_loses_minimum:
  "hd_min (fold (record_value fadd) [F32 1, F32_NaN, F32 7] histogram_data_new) = F32 7"
  by (simp add: record_value_def atomic_min_f64_def)

end
