(* ===== verification/Model_Lifecycle.thy ===== *)
theory Model_Lifecycle
  imports Inference_Engine Telemetry
begin

text \<open>
  The model registry (\<open>models/registry.rs\<close>) and the lifecycle that keeps it and the engine together
  (\<open>models/lifecycle.rs\<close>). \<open>load\<close> and \<open>unload\<close> hold the write lock of the lookup index for their whole
  duration, so each is one transition here; the last section lets them and the worker's
  \<open>record_request\<close> run in any order.
\<close>

section \<open>Registry\<close>

type_synonym model_handle = u64

datatype loaded_model_state = MsLoading | MsReady | MsUnloading | MsError

primrec state_as_str :: "loaded_model_state \<Rightarrow> string" where
  "state_as_str MsLoading = ''loading''"
| "state_as_str MsReady = ''ready''"
| "state_as_str MsUnloading = ''unloading''"
| "state_as_str MsError = ''error''"

record model_metadata =
  md_name :: string
  md_size_bytes :: u64

record loaded_model =
  lm_metadata :: model_metadata
  lm_memory_bytes :: usize
  lm_format :: string
  lm_state :: loaded_model_state
  lm_request_count :: u64
  lm_total_latency_ms :: f64
  lm_loaded_at :: instant

record model_registry =
  mr_models :: "(model_handle, loaded_model) hash_map"
  mr_next_id :: u64

definition registry_new :: model_registry where
  "registry_new = \<lparr>mr_models = [], mr_next_id = 1\<rparr>"

definition register_with_format ::
  "instant \<Rightarrow> model_metadata \<Rightarrow> usize \<Rightarrow> string \<Rightarrow> model_registry \<Rightarrow> model_handle \<times> model_registry" where
  "register_with_format now md mem fmt R =
     (let h = mr_next_id R;
          model = \<lparr>lm_metadata = md, lm_memory_bytes = mem, lm_format = fmt, lm_state = MsReady,
                   lm_request_count = 0, lm_total_latency_ms = F32 0, lm_loaded_at = now\<rparr>
      in (h, \<lparr>mr_models = AList.update h model (mr_models R), mr_next_id = wrap_add h 1\<rparr>))"

definition register :: "instant \<Rightarrow> model_metadata \<Rightarrow> usize \<Rightarrow> model_registry \<Rightarrow> model_handle \<times> model_registry" where
  "register now md mem R = register_with_format now md mem ''unknown'' R"

definition registry_contains :: "model_registry \<Rightarrow> model_handle \<Rightarrow> bool" where
  "registry_contains R h \<longleftrightarrow> map_of (mr_models R) h \<noteq> None"

definition get_metadata :: "model_registry \<Rightarrow> model_handle \<Rightarrow> model_metadata option" where
  "get_metadata R h = map_option lm_metadata (map_of (mr_models R) h)"

definition unregister :: "model_handle \<Rightarrow> model_registry \<Rightarrow> usize option \<times> model_registry" where
  "unregister h R = (map_option lm_memory_bytes (map_of (mr_models R) h), R\<lparr>mr_models := AList.delete h (mr_models R)\<rparr>)"

definition total_memory :: "model_registry \<Rightarrow> usize" where
  "total_memory R = sum_list (map (lm_memory_bytes \<circ> snd) (mr_models R)) mod two64"

definition registry_count :: "model_registry \<Rightarrow> usize" where
  "registry_count R = length (mr_models R)"

record loaded_model_info =
  li_handle_id :: u64
  li_name :: string
  li_format :: string
  li_size_bytes :: u64
  li_memory_bytes :: u64
  li_state :: loaded_model_state
  li_request_count :: u64
  li_total_latency_ms :: f64
  li_loaded_at :: instant

definition list_models :: "model_registry \<Rightarrow> loaded_model_info list" where
  "list_models R =
     map (\<lambda>(h, m). \<lparr>li_handle_id = h, li_name = md_name (lm_metadata m), li_format = lm_format m,
         li_size_bytes = md_size_bytes (lm_metadata m), li_memory_bytes = lm_memory_bytes m, li_state = lm_state m,
         li_request_count = lm_request_count m, li_total_latency_ms = lm_total_latency_ms m, li_loaded_at = lm_loaded_at m\<rparr>)
       (mr_models R)"

text \<open>
  The retry loop of \<open>record_request\<close> adds the latency to the value it last read: one atomic addition. The
  rounded sum of two \<open>f64\<close> is the parameter \<open>add\<close>.
\<close>

definition record_request :: "(f64 \<Rightarrow> f64 \<Rightarrow> f64) \<Rightarrow> model_handle \<Rightarrow> f64 \<Rightarrow> model_registry \<Rightarrow> model_registry" where
  "record_request add h latency R =
     (case map_of (mr_models R) h of
        None \<Rightarrow> R
      | Some m \<Rightarrow>
          R\<lparr>mr_models := AList.update h (m\<lparr>lm_request_count := wrap_add (lm_request_count m) 1,
                                          lm_total_latency_ms := add (lm_total_latency_ms m) latency\<rparr>) (mr_models R)\<rparr>)"

definition set_state :: "model_handle \<Rightarrow> loaded_model_state \<Rightarrow> model_registry \<Rightarrow> model_registry" where
  "set_state h st R =
     (case map_of (mr_models R) h of
        None \<Rightarrow> R
      | Some m \<Rightarrow> R\<lparr>mr_models := AList.update h (m\<lparr>lm_state := st\<rparr>) (mr_models R)\<rparr>)"

section \<open>Lifecycle\<close>

datatype lifecycle_error =
    AlreadyLoaded string
  | NotLoaded string
  | LifecycleLoadFailed string

primrec show_lifecycle_error :: "lifecycle_error \<Rightarrow> string" where
  "show_lifecycle_error (AlreadyLoaded m) = ''Model already loaded: '' @ m"
| "show_lifecycle_error (NotLoaded m) = ''Model not loaded: '' @ m"
| "show_lifecycle_error (LifecycleLoadFailed m) = ''Load failed: '' @ m"

record lookup_index =
  id_to_handle :: "(string, model_handle) hash_map"
  handle_to_id :: "(u64, string) hash_map"

definition index_new :: lookup_index where
  "index_new = \<lparr>id_to_handle = [], handle_to_id = []\<rparr>"

definition index_insert :: "string \<Rightarrow> model_handle \<Rightarrow> lookup_index \<Rightarrow> lookup_index" where
  "index_insert m h ix =
     \<lparr>id_to_handle = AList.update m h (id_to_handle ix), handle_to_id = AList.update h m (handle_to_id ix)\<rparr>"

definition remove_by_id :: "string \<Rightarrow> lookup_index \<Rightarrow> model_handle option \<times> lookup_index" where
  "remove_by_id m ix =
     (case map_of (id_to_handle ix) m of
        Some h \<Rightarrow>
          (Some h, \<lparr>id_to_handle = AList.delete m (id_to_handle ix), handle_to_id = AList.delete h (handle_to_id ix)\<rparr>)
      | None \<Rightarrow> (None, ix))"

definition index_get_handle :: "lookup_index \<Rightarrow> string \<Rightarrow> model_handle option" where
  "index_get_handle ix m = map_of (id_to_handle ix) m"

definition index_get_id :: "lookup_index \<Rightarrow> u64 \<Rightarrow> string option" where
  "index_get_id ix h = map_of (handle_to_id ix) h"

definition contains_id :: "lookup_index \<Rightarrow> string \<Rightarrow> bool" where
  "contains_id ix m \<longleftrightarrow> map_of (id_to_handle ix) m \<noteq> None"

record model_lifecycle =
  ml_registry :: model_registry
  ml_engine :: engine
  ml_index :: lookup_index

definition lifecycle_new :: "model_registry \<Rightarrow> engine \<Rightarrow> model_lifecycle" where
  "lifecycle_new R E = \<lparr>ml_registry = R, ml_engine = E, ml_index = index_new\<rparr>"

definition lifecycle_load ::
  "instant \<Rightarrow> string \<Rightarrow> model_metadata \<Rightarrow> model_impl \<Rightarrow> model_lifecycle \<Rightarrow> (lifecycle_error + model_handle) \<times> model_lifecycle" where
  "lifecycle_load now m md model lc =
     (if contains_id (ml_index lc) m then (Inl (AlreadyLoaded m), lc)
      else
        let memory = mi_memory_usage model;
            (h, R) = register now md memory (ml_registry lc)
        in (Inr h, lc\<lparr>ml_registry := R, ml_engine := register_model m model (ml_engine lc),
                     ml_index := index_insert m h (ml_index lc)\<rparr>))"

definition lifecycle_unload :: "string \<Rightarrow> model_lifecycle \<Rightarrow> (lifecycle_error + model_handle) \<times> model_lifecycle" where
  "lifecycle_unload m lc =
     (case index_get_handle (ml_index lc) m of
        None \<Rightarrow> (Inl (NotLoaded m), lc)
      | Some h \<Rightarrow>
          (Inr h, lc\<lparr>ml_engine := unregister_model m (ml_engine lc),
                    ml_registry := snd (unregister h (ml_registry lc)),
                    ml_index := snd (remove_by_id m (ml_index lc))\<rparr>))"

definition get_handle :: "model_lifecycle \<Rightarrow> string \<Rightarrow> model_handle option" where
  "get_handle lc m = index_get_handle (ml_index lc) m"

definition get_model_id :: "model_lifecycle \<Rightarrow> u64 \<Rightarrow> string option" where
  "get_model_id lc h = index_get_id (ml_index lc) h"

definition is_loaded :: "model_lifecycle \<Rightarrow> string \<Rightarrow> bool" where
  "is_loaded lc m = contains_id (ml_index lc) m"

definition lifecycle_count :: "model_lifecycle \<Rightarrow> usize" where
  "lifecycle_count lc = length (id_to_handle (ml_index lc))"

definition validate_handle :: "model_lifecycle \<Rightarrow> model_handle \<Rightarrow> bool" where
  "validate_handle lc h \<longleftrightarrow> map_of (handle_to_id (ml_index lc)) h \<noteq> None \<and> registry_contains (ml_registry lc) h"

lemmas registry_defs [op_defs] = registry_new_def register_with_format_def register_def registry_contains_def
  get_metadata_def unregister_def record_request_def set_state_def
lemmas index_defs [op_defs] = index_new_def index_insert_def remove_by_id_def index_get_handle_def index_get_id_def
  contains_id_def
lemmas lifecycle_defs [op_defs] = lifecycle_new_def lifecycle_load_def lifecycle_unload_def get_handle_def
  get_model_id_def is_loaded_def validate_handle_def

section \<open>Registry, engine and index stay together\<close>

text \<open>
  The tables as functions: the index is a bijection between loaded ids and handles, the engine serves
  exactly the loaded ids, and the registry accounts for each of them under its handle, with the memory
  the loaded model reports.
\<close>

definition tables_agree ::
  "(string \<rightharpoonup> model_handle) \<Rightarrow> (u64 \<rightharpoonup> string) \<Rightarrow> (model_handle \<rightharpoonup> loaded_model) \<Rightarrow> (string \<rightharpoonup> model_impl) \<Rightarrow> nat \<Rightarrow> bool" where
  "tables_agree ids hs reg eng nxt \<longleftrightarrow>
     (\<forall>m h. ids m = Some h \<longleftrightarrow> hs h = Some m) \<and> dom eng = dom ids \<and> dom reg = dom hs \<and>
     (\<forall>m h. ids m = Some h \<longrightarrow> map_option lm_memory_bytes (reg h) = map_option mi_memory_usage (eng m)) \<and>
     (\<forall>h \<in> dom hs. h < nxt)"

lemma tables_agree_insert:
  assumes "tables_agree ids hs reg eng nxt" "ids m = None" "lm_memory_bytes x = mi_memory_usage model"
  shows "tables_agree (ids(m \<mapsto> nxt)) (hs(nxt \<mapsto> m)) (reg(nxt \<mapsto> x)) (eng(m \<mapsto> model)) (Suc nxt)"
proof -
  from assms(1) have "hs nxt = None" by (auto simp: tables_agree_def domIff)
  with assms show ?thesis unfolding tables_agree_def by (auto simp: less_Suc_eq)
qed

lemma tables_agree_remove:
  assumes "tables_agree ids hs reg eng nxt" "ids m = Some h"
  shows "tables_agree (ids(m := None)) (hs(h := None)) (reg(h := None)) (eng(m := None)) nxt"
proof -
  have one: "h' = h \<longleftrightarrow> m' = m" if "ids m' = Some h'" for m' h'
    using that assms unfolding tables_agree_def by (metis option.inject)
  then have "ids m' = Some h' \<and> m' \<noteq> m \<longleftrightarrow> hs h' = Some m' \<and> h' \<noteq> h" for m' h'
    using assms(1) unfolding tables_agree_def by metis
  with assms one show ?thesis unfolding tables_agree_def by auto
qed

lemma tables_agree_touch:
  assumes "tables_agree ids hs reg eng nxt" "reg h = Some x" "lm_memory_bytes x' = lm_memory_bytes x"
  shows "tables_agree ids hs (reg(h \<mapsto> x')) eng nxt"
proof -
  have "map_option lm_memory_bytes ((reg(h \<mapsto> x')) h') = map_option lm_memory_bytes (reg h')" for h'
    using assms(2,3) by simp
  with assms(1,2) show ?thesis unfolding tables_agree_def by (auto simp: insert_absorb)
qed

definition in_sync :: "nat \<Rightarrow> model_lifecycle \<Rightarrow> bool" where
  [inv_defs]: "in_sync k lc \<longleftrightarrow>
     wf_map (id_to_handle (ml_index lc)) \<and> wf_map (mr_models (ml_registry lc)) \<and>
     tables_agree (map_of (id_to_handle (ml_index lc))) (map_of (handle_to_id (ml_index lc)))
       (map_of (mr_models (ml_registry lc))) (map_of (en_models (ml_engine lc))) (mr_next_id (ml_registry lc)) \<and>
     mr_next_id (ml_registry lc) \<le> k"

lemmas table_defs = is_loaded_def get_model_id_def get_handle_def contains_id_def index_get_id_def index_get_handle_def
  registry_contains_def has_model_def model_memory_usage_def

lemma in_sync_mono: "in_sync k lc \<Longrightarrow> in_sync (Suc k) lc"
  by (auto simp: in_sync_def)

lemma in_sync_load:
  assumes "in_sync k lc" "Suc k < two64"
  shows "in_sync (Suc k) (snd (lifecycle_load now m md model lc))"
proof (cases "contains_id (ml_index lc) m")
  case True
  with assms show ?thesis by (simp add: lifecycle_load_def in_sync_mono)
next
  case False
  then have "map_of (id_to_handle (ml_index lc)) m = None" by (simp add: contains_id_def)
  moreover have "mr_next_id (ml_registry lc) + 1 < two64" using assms by (auto simp: in_sync_def)
  ultimately show ?thesis
    using assms(1) False
    by (auto simp: lifecycle_load_def in_sync_def register_def register_with_format_def index_insert_def
        register_model_def Let_def intro!: tables_agree_insert)
qed

lemma in_sync_unload:
  assumes "in_sync k lc"
  shows "in_sync k (snd (lifecycle_unload m lc))"
  using assms
  by (auto simp: lifecycle_unload_def in_sync_def unregister_def remove_by_id_def unregister_model_def
      index_get_handle_def split: option.split intro!: tables_agree_remove)

lemma in_sync_touch:
  assumes "in_sync k lc" "map_of (mr_models (ml_registry lc)) h = Some x" "lm_memory_bytes x' = lm_memory_bytes x"
  shows "in_sync k (lc\<lparr>ml_registry := ml_registry lc\<lparr>mr_models := AList.update h x' (mr_models (ml_registry lc))\<rparr>\<rparr>)"
  using assms by (auto simp: in_sync_def intro!: tables_agree_touch)

text \<open>Any sequence of loads, unloads and request records, from any tasks.\<close>

datatype lifecycle_op =
    OpLoad instant string model_metadata model_impl
  | OpUnload string
  | OpRecord string f64
  | OpSetState model_handle loaded_model_state

primrec lifecycle_step :: "(f64 \<Rightarrow> f64 \<Rightarrow> f64) \<Rightarrow> lifecycle_op \<Rightarrow> model_lifecycle \<Rightarrow> model_lifecycle" where
  "lifecycle_step add (OpLoad now m md model) lc = snd (lifecycle_load now m md model lc)"
| "lifecycle_step add (OpUnload m) lc = snd (lifecycle_unload m lc)"
| "lifecycle_step add (OpRecord m latency) lc =
     (case get_handle lc m of
        None \<Rightarrow> lc
      | Some h \<Rightarrow> lc\<lparr>ml_registry := record_request add h latency (ml_registry lc)\<rparr>)"
| "lifecycle_step add (OpSetState h st) lc = lc\<lparr>ml_registry := set_state h st (ml_registry lc)\<rparr>"

lemma in_sync_step:
  assumes "in_sync k lc" "Suc k < two64"
  shows "in_sync (Suc k) (lifecycle_step add op lc)"
proof (cases op)
  case (OpLoad now m md model)
  with in_sync_load [OF assms] show ?thesis by simp
next
  case (OpUnload m)
  with in_sync_unload [OF assms(1)] in_sync_mono show ?thesis by simp
next
  case (OpRecord m latency)
  with assms show ?thesis
    by (auto simp: record_request_def split: option.split intro!: in_sync_mono in_sync_touch)
next
  case (OpSetState h st)
  with assms show ?thesis
    by (auto simp: set_state_def split: option.split intro!: in_sync_mono in_sync_touch)
qed

lemma in_sync_run: "in_sync k lc \<Longrightarrow> k + length ops < two64 \<Longrightarrow> in_sync (k + length ops) (fold (lifecycle_step add) ops lc)"
proof (induction ops arbitrary: k lc)
  case (Cons op ops)
  then show ?case using in_sync_step [of k lc add op] Cons.IH [of "Suc k"] by simp
qed simp

lemma in_sync_counts:
  assumes "in_sync k lc"
  shows "registry_count (ml_registry lc) = lifecycle_count lc"
proof -
  let ?ids = "map_of (id_to_handle (ml_index lc))" and ?reg = "map_of (mr_models (ml_registry lc))"
  have card: "card (dom (map_of xs)) = length xs" if "wf_map xs" for xs :: "('k \<times> 'v) list"
    using that by (metis dom_map_of_conv_image_fst list.set_map length_map distinct_card wf_map_def)
  have agree: "tables_agree ?ids (map_of (handle_to_id (ml_index lc))) ?reg (map_of (en_models (ml_engine lc)))
      (mr_next_id (ml_registry lc))" and wf: "wf_map (id_to_handle (ml_index lc))" "wf_map (mr_models (ml_registry lc))"
    using assms by (simp_all add: in_sync_def)
  let ?hs = "map_of (handle_to_id (ml_index lc))"
  have inv: "?ids m = Some h \<Longrightarrow> ?hs h = Some m" "?hs h = Some m \<Longrightarrow> ?ids m = Some h" and reg: "dom ?reg = dom ?hs" for m h
    using agree unfolding tables_agree_def by blast+
  have "bij_betw (\<lambda>m. the (?ids m)) (dom ?ids) (dom ?reg)"
    unfolding reg by (rule bij_betw_byWitness [where f' = "\<lambda>h. the (?hs h)"]; clarsimp; metis inv option.sel)
  from bij_betw_same_card [OF this] card [OF wf(1)] card [OF wf(2)] show ?thesis
    by (simp add: registry_count_def lifecycle_count_def)
qed

text \<open>
  C12: The registry, the engine and the lookup index stay in sync: after any sequence of loads, unloads and
  request records (fewer than two to the power of 64) a model is served by the engine exactly when it is
  loaded, its handle maps back to its id and is registered with the memory the model reports, no handle
  is registered for anything else, and the two counts agree. Loading a loaded id fails and changes nothing.
\<close>

theorem lifecycle_in_sync:
  assumes "lc = fold (lifecycle_step add) ops (lifecycle_new registry_new (with_degraded_policy n d))"
    and "length ops + 1 < two64"
  shows "(has_model (ml_engine lc) m \<longleftrightarrow> is_loaded lc m) \<and>
    (get_handle lc m = Some h \<longleftrightarrow> get_model_id lc h = Some m) \<and>
    (registry_contains (ml_registry lc) h \<longleftrightarrow> get_model_id lc h \<noteq> None) \<and>
    (get_handle lc m = Some h \<longrightarrow> validate_handle lc h \<and>
       map_option lm_memory_bytes (map_of (mr_models (ml_registry lc)) h) = model_memory_usage (ml_engine lc) m) \<and>
    registry_count (ml_registry lc) = lifecycle_count lc \<and>
    (is_loaded lc m \<longrightarrow> lifecycle_load now m md model lc = (Inl (AlreadyLoaded m), lc))"
proof -
  have "in_sync 1 (lifecycle_new registry_new (with_degraded_policy n d))"
    by (simp add: in_sync_def tables_agree_def lifecycle_new_def registry_new_def with_degraded_policy_def index_new_def)
  then have sync: "in_sync (1 + length ops) lc" using assms in_sync_run [of 1] by simp
  then show ?thesis
    using in_sync_counts [OF sync] unfolding in_sync_def tables_agree_def
    by (auto simp: dom_def set_eq_iff table_defs validate_handle_def lifecycle_load_def)
qed

definition sample_metadata :: model_metadata where
  "sample_metadata = \<lparr>md_name = ''m'', md_size_bytes = 9\<rparr>"

definition sample_model :: model_impl where
  "sample_model = \<lparr>mi_memory_usage = 4, mi_infer_cancellable = (\<lambda>_ _ _. None), mi_gguf = None\<rparr>"

theorem lifecycle_in_sync_witness:
  "let lc = fold (lifecycle_step (\<lambda>x _. x))
       [OpLoad 0 ''a'' sample_metadata sample_model, OpLoad 1 ''b'' sample_metadata sample_model, OpUnload ''a'']
       (lifecycle_new registry_new (with_degraded_policy 8 degraded_default))
   in get_handle lc ''b'' = Some 2 \<and> validate_handle lc 2 \<and> \<not> has_model (ml_engine lc) ''a''"
proof -
  let ?ops = "[OpLoad 0 ''a'' sample_metadata sample_model, OpLoad 1 ''b'' sample_metadata sample_model, OpUnload ''a'']"
  define lc where "lc = fold (lifecycle_step (\<lambda>x _. x)) ?ops (lifecycle_new registry_new (with_degraded_policy 8 degraded_default))"
  have h: "get_handle lc ''b'' = Some 2" "\<not> is_loaded lc ''a''"
    by (simp_all add: lc_def lifecycle_defs registry_defs index_defs two64_numeral Let_def)
  have "length ?ops + 1 < two64" by (simp add: two64_numeral)
  note sync = lifecycle_in_sync [OF lc_def this]
  from h sync [of "''b''" 2] sync [of "''a''" 2] show ?thesis
    unfolding Let_def lc_def [symmetric] by blast
qed

end
