(* ===== verification/Worker.thy ===== *)
theory Worker
  imports Request_Queue Resource_Limits Model_Lifecycle
begin

text \<open>
  The worker (\<open>scheduler/worker.rs\<close>, \<open>scheduler/worker_streaming.rs\<close>): the one task that takes requests off
  the queue and runs them through the ingress scan, the resource limits, the engine and the egress
  sanitizer. This is where the components meet: the queue and its replies, the limits, the engine with the
  lifecycle's registry, and the security pipeline.

  Cancel flags and the clock move while a request runs; the readings are arguments. \<open>None\<close> is a panic of the
  worker task itself; a panic of the blocking task that runs the model is caught by the join and becomes an
  error of the request.
\<close>

section \<open>State\<close>

text \<open>The security pipeline: both stages, and the external functions they call.\<close>

record security_pipeline =
  sp_ingress :: ingress_pipeline
  sp_egress :: "sanitizer_config option"
  sp_lower :: "string \<Rightarrow> string"
  sp_nfkc :: "string \<Rightarrow> string"
  sp_find :: find_iter
  sp_patterns :: pii_patterns
  sp_alnum :: "string \<Rightarrow> bool"

definition pipeline_scan :: "security_pipeline \<Rightarrow> string \<Rightarrow> scan_verdict option" where
  "pipeline_scan sec p = scan_prompt (sp_lower sec) (sp_find sec) (sp_ingress sec) p"

definition pipeline_sanitize :: "security_pipeline \<Rightarrow> string \<Rightarrow> sanitized_output" where
  "pipeline_sanitize sec out = sanitize_output (sp_lower sec) (sp_nfkc sec) (sp_patterns sec) (sp_egress sec) out"

text \<open>What the worker reports to the metrics recorder.\<close>

datatype telemetry_event =
    EvScan string nat bool
  | EvAdmissionRejected string string
  | EvSanitize string nat
  | EvSuccess string u64 u64
  | EvFailure string string

text \<open>\<open>ws_tracked\<close>: a lifecycle and a registry were given to the worker.\<close>

record worker_state =
  ws_shared :: shared
  ws_limits :: "limits option"
  ws_lifecycle :: model_lifecycle
  ws_tracked :: bool
  ws_streams :: "chan \<Rightarrow> sink"
  ws_events :: "telemetry_event list"

abbreviation ws_engine :: "worker_state \<Rightarrow> engine" where
  "ws_engine ws \<equiv> ml_engine (ws_lifecycle ws)"

definition emit :: "telemetry_event \<Rightarrow> worker_state \<Rightarrow> worker_state" where
  "emit ev ws = ws\<lparr>ws_events := ws_events ws @ [ev]\<rparr>"

definition send_response :: "queued_request \<Rightarrow> reply \<Rightarrow> worker_state \<Rightarrow> worker_state" where
  "send_response r rep ws = ws\<lparr>ws_shared := send_reply (response_tx r) rep (ws_shared ws)\<rparr>"

section \<open>Admission\<close>

definition scan_ingress ::
  "security_pipeline option \<Rightarrow> queued_request \<Rightarrow> worker_state \<Rightarrow> (bool \<times> worker_state) option" where
  "scan_ingress security r ws =
     (case security of
        None \<Rightarrow> Some (True, ws)
      | Some sec \<Rightarrow>
          (case pipeline_scan sec (prompt r) of
             None \<Rightarrow> None
           | Some v \<Rightarrow>
               let ws1 = emit (EvScan (model_id r) (sv_risk_score v) (\<not> sv_allowed v)) ws in
               if sv_allowed v then Some (True, ws1)
               else Some (False, send_response r (Inl ''request rejected by security policy'') ws1)))"

definition FALLBACK_BYTES :: usize where
  "FALLBACK_BYTES = 256 * 1024 * 1024"

definition estimate_memory :: "engine \<Rightarrow> string \<Rightarrow> usize" where
  "estimate_memory E m = (case model_memory_usage E m of None \<Rightarrow> FALLBACK_BYTES | Some n \<Rightarrow> n)"

definition acquire_guard :: "string \<Rightarrow> worker_state \<Rightarrow> (string + resource_guard option) \<times> worker_state" where
  "acquire_guard m ws =
     (case ws_limits ws of
        None \<Rightarrow> (Inr None, ws)
      | Some L \<Rightarrow>
          (case try_acquire (estimate_memory (ws_engine ws) m) L of
             (Inl e, L') \<Rightarrow> (Inl (show_engine_error e), ws\<lparr>ws_limits := Some L'\<rparr>)
           | (Inr g, L') \<Rightarrow> (Inr (Some g), ws\<lparr>ws_limits := Some L'\<rparr>)))"

text \<open>The guard is dropped when the function that holds it returns.\<close>

definition release_guard :: "resource_guard option \<Rightarrow> worker_state \<Rightarrow> worker_state" where
  "release_guard g ws =
     (case g of None \<Rightarrow> ws | Some gd \<Rightarrow> ws\<lparr>ws_limits := map_option (drop_guard gd) (ws_limits ws)\<rparr>)"

section \<open>Regular requests\<close>

text \<open>
  The readings of one execution: the clock at the stop check and at the rejection, the observations of the
  model call, its duration, and the message of the join error if the model panics.
\<close>

record exec_readings =
  er_stop_at :: instant
  er_reject_at :: instant
  er_run :: observations
  er_latency_ms :: u64
  er_join_error :: string

definition run_blocking ::
  "engine \<Rightarrow> queued_request \<Rightarrow> usize option \<Rightarrow> exec_readings \<Rightarrow> inference_error + inference_result" where
  "run_blocking E r max_mem rd =
     (case run_controlled E (model_id r) (prompt r) (params r) (stop_control_of r) max_mem (er_run rd) of
        None \<Rightarrow> Inl (ExecutionFailed (''inference task failed: '' @ er_join_error rd))
      | Some res \<Rightarrow> res)"

definition apply_egress ::
  "security_pipeline option \<Rightarrow> string \<Rightarrow> inference_error + inference_result \<Rightarrow> worker_state
   \<Rightarrow> (inference_error + inference_result) \<times> worker_state" where
  "apply_egress security m result ws =
     (case security of
        None \<Rightarrow> (result, ws)
      | Some sec \<Rightarrow>
          (case result of
             Inl e \<Rightarrow> (Inl e, ws)
           | Inr r \<Rightarrow>
               let s = pipeline_sanitize sec (r_output r) in
               (Inr (r\<lparr>r_output := so_output s\<rparr>), emit (EvSanitize m (so_redactions s)) ws)))"

definition record_result ::
  "(f64 \<Rightarrow> f64 \<Rightarrow> f64) \<Rightarrow> inference_error + inference_result \<Rightarrow> string \<Rightarrow> u64 \<Rightarrow> worker_state \<Rightarrow> worker_state" where
  "record_result add result m latency ws =
     (case result of
        Inr r \<Rightarrow>
          let ws1 = emit (EvSuccess m latency (r_tokens_generated r)) ws in
          if ws_tracked ws1
          then ws1\<lparr>ws_lifecycle := lifecycle_step add (OpRecord m (F32 (of_nat latency))) (ws_lifecycle ws1)\<rparr>
          else ws1
      | Inl e \<Rightarrow> emit (EvFailure m (show_inference_error e)) ws)"

definition to_reply :: "inference_error + inference_result \<Rightarrow> reply" where
  "to_reply result = (case result of Inl e \<Rightarrow> Inl (show_inference_error e) | Inr r \<Rightarrow> Inr r)"

definition execute_request ::
  "(f64 \<Rightarrow> f64 \<Rightarrow> f64) \<Rightarrow> security_pipeline option \<Rightarrow> exec_readings \<Rightarrow> queued_request \<Rightarrow> worker_state \<Rightarrow> worker_state option" where
  "execute_request add security rd r ws =
     (case scan_ingress security r ws of
        None \<Rightarrow> None
      | Some (False, ws1) \<Rightarrow> Some ws1
      | Some (True, ws1) \<Rightarrow>
          if should_stop (flags (ws_shared ws1)) (er_stop_at rd) (stop_control_of r)
          then Some (ws1\<lparr>ws_shared := reject_unexecuted (er_reject_at rd) r (ws_shared ws1)\<rparr>)
          else
            (case acquire_guard (model_id r) ws1 of
               (Inl msg, ws2) \<Rightarrow> Some (send_response r (Inl msg) (emit (EvAdmissionRejected (model_id r) msg) ws2))
             | (Inr g, ws2) \<Rightarrow>
                 let max_memory = map_option (\<lambda>L. max_memory_per_call (lim_config L)) (ws_limits ws2);
                     result = run_blocking (ws_engine ws2) r max_memory rd;
                     (result', ws3) = apply_egress security (model_id r) result ws2;
                     ws4 = record_result add result' (model_id r) (er_latency_ms rd) ws3
                 in Some (release_guard g (send_response r (to_reply result') ws4))))"

section \<open>Streaming requests\<close>

text \<open>
  The readings of a stream: the clock of the expiry check, the polls of its stop control and the last one
  after the stream, its duration, and the join error and the frames left behind if the task panics.
\<close>

record stream_readings =
  sr_check_at :: instant
  sr_polls :: "nat \<Rightarrow> reading"
  sr_last :: reading
  sr_latency_ms :: u64
  sr_join_error :: string
  sr_panic_sink :: "sink \<Rightarrow> sink"

definition stream_should_stop :: "streaming_request \<Rightarrow> reading \<Rightarrow> bool" where
  "stream_should_stop r rdg \<longleftrightarrow>
     st_is_cancelled (fst rdg) r \<or> (case st_deadline r of None \<Rightarrow> False | Some d \<Rightarrow> d \<le> snd rdg)"

definition end_stream :: "chan \<Rightarrow> stream_terminal \<Rightarrow> worker_state \<Rightarrow> worker_state" where
  "end_stream ch t ws = ws\<lparr>ws_streams := (ws_streams ws)(ch := snd (send_item (ItemEnd t) (ws_streams ws ch)))\<rparr>"

definition stream_scan_ingress ::
  "security_pipeline option \<Rightarrow> streaming_request \<Rightarrow> worker_state \<Rightarrow> (bool \<times> worker_state) option" where
  "stream_scan_ingress security r ws =
     (case security of
        None \<Rightarrow> Some (True, ws)
      | Some sec \<Rightarrow>
          (case pipeline_scan sec (st_prompt r) of
             None \<Rightarrow> None
           | Some v \<Rightarrow>
               let ws1 = emit (EvScan (st_model_id r) (sv_risk_score v) (\<not> sv_allowed v)) ws in
               if sv_allowed v then Some (True, ws1)
               else Some (False, end_stream (st_sender r) (TermRejected ''prompt rejected by ingress security scan'') ws1)))"

definition egress_of :: "security_pipeline \<Rightarrow> egress_fn" where
  "egress_of sec = (\<lambda>t. so_output (pipeline_sanitize sec t), sp_alnum sec)"

definition run_stream_blocking ::
  "engine \<Rightarrow> streaming_request \<Rightarrow> security_pipeline option \<Rightarrow> stream_readings \<Rightarrow> sink \<Rightarrow> (string + unit) \<times> sink" where
  "run_stream_blocking E r security rd sk =
     (case run_stream_sync E (st_model_id r) (st_prompt r) (st_config r) (map_option egress_of security)
             (Some (\<lambda>k. stream_should_stop r (sr_polls rd k))) (stream_should_stop r (sr_last rd)) sk of
        None \<Rightarrow> (Inl (sr_join_error rd), sr_panic_sink rd sk)
      | Some (Inl e, sk') \<Rightarrow> (Inl (show_inference_error e), sk')
      | Some (Inr _, sk') \<Rightarrow> (Inr (), sk'))"

definition execute_stream ::
  "security_pipeline option \<Rightarrow> stream_readings \<Rightarrow> streaming_request \<Rightarrow> worker_state \<Rightarrow> worker_state option" where
  "execute_stream security rd r ws =
     (case stream_scan_ingress security r ws of
        None \<Rightarrow> None
      | Some (False, ws1) \<Rightarrow> Some ws1
      | Some (True, ws1) \<Rightarrow>
          let canc = st_is_cancelled (flags (ws_shared ws1)) r in
          if canc \<or> st_is_expired (sr_check_at rd) r
          then Some (end_stream (st_sender r)
                 (TermError (if canc then ''stream cancelled before execution'' else ''stream deadline exceeded before execution'')) ws1)
          else
            (case acquire_guard (st_model_id r) ws1 of
               (Inl msg, ws2) \<Rightarrow>
                 Some (end_stream (st_sender r) (TermError msg) (emit (EvAdmissionRejected (st_model_id r) msg) ws2))
             | (Inr g, ws2) \<Rightarrow>
                 let (result, sk) = run_stream_blocking (ws_engine ws2) r security rd (ws_streams ws2 (st_sender r));
                     ws3 = ws2\<lparr>ws_streams := (ws_streams ws2)(st_sender r := sk)\<rparr>;
                     ev = (case result of Inr _ \<Rightarrow> EvSuccess (st_model_id r) (sr_latency_ms rd) 0
                                       | Inl e \<Rightarrow> EvFailure (st_model_id r) e)
                 in Some (release_guard g (emit ev ws3))))"

section \<open>The loop\<close>

datatype turn = TurnServed | TurnIdle | TurnExit

text \<open>
  One round of the worker's loop: streams first, then the shutdown signal, then the main queue. When
  nothing is live the worker parks until it is notified, or looks again because a stream has come in.
\<close>

definition worker_turn ::
  "(f64 \<Rightarrow> f64 \<Rightarrow> f64) \<Rightarrow> security_pipeline option \<Rightarrow> bool \<Rightarrow> (nat \<Rightarrow> instant) \<Rightarrow> exec_readings \<Rightarrow> stream_readings
   \<Rightarrow> request_queue \<Rightarrow> worker_state \<Rightarrow> (turn \<times> request_queue \<times> worker_state) option" where
  "worker_turn add security shutdown clk rd srd rq ws =
     (case dequeue_streaming rq of
        (Some sr, rq1) \<Rightarrow> map_option (\<lambda>ws'. (TurnServed, rq1, ws')) (execute_stream security srd sr ws)
      | (None, rq1) \<Rightarrow>
          if shutdown then Some (TurnExit, rq1, ws)
          else
            (case dequeue clk rq1 (ws_shared ws) of
               (None, rq2, sh) \<Rightarrow> Some (TurnIdle, rq2, ws\<lparr>ws_shared := sh\<rparr>)
             | (Some r, rq2, sh) \<Rightarrow>
                 map_option (\<lambda>ws'. (TurnServed, rq2, ws')) (execute_request add security rd r (ws\<lparr>ws_shared := sh\<rparr>))))"

lemmas worker_defs [op_defs] = emit_def send_response_def scan_ingress_def acquire_guard_def release_guard_def
  run_blocking_def apply_egress_def record_result_def end_stream_def stream_scan_ingress_def run_stream_blocking_def

section \<open>Replies\<close>

text \<open>The counters of the limits are 64-bit values.\<close>

definition limits_wf :: "worker_state \<Rightarrow> bool" where
  [inv_defs]: "limits_wf ws \<longleftrightarrow> (\<forall>L. ws_limits ws = Some L \<longrightarrow> current_memory L < two64 \<and> current_concurrent L < two64)"

lemma ws_shared_emit [simp]: "ws_shared (emit ev ws) = ws_shared ws" "ws_limits (emit ev ws) = ws_limits ws"
  "ws_lifecycle (emit ev ws) = ws_lifecycle ws" "ws_streams (emit ev ws) = ws_streams ws"
  by (simp_all add: emit_def)

lemma ws_limits_send [simp]: "ws_limits (send_response r rep ws) = ws_limits ws"
  by (simp add: send_response_def)

lemma ws_shared_send: "response_tx r = Some ch \<Longrightarrow>
  replies (ws_shared (send_response r rep ws)) = (replies (ws_shared ws))(ch \<mapsto> rep)"
  by (simp add: send_response_def send_reply_def)

lemma apply_egress_keeps:
  assumes "apply_egress security m result ws = (result', ws')"
  shows "ws_shared ws' = ws_shared ws \<and> ws_limits ws' = ws_limits ws"
  using assms by (auto simp: apply_egress_def Let_def split: option.splits sum.splits)

lemma record_result_keeps [simp]:
  "ws_shared (record_result add result m latency ws) = ws_shared ws"
  "ws_limits (record_result add result m latency ws) = ws_limits ws"
  by (simp_all add: record_result_def Let_def split: sum.split)

lemma release_guard_shared [simp]: "ws_shared (release_guard g ws) = ws_shared ws" "ws_streams (release_guard g ws) = ws_streams ws"
  by (simp_all add: release_guard_def split: option.split)

lemma failed_acquire: "try_acquire m L = (Inl e, L') \<Longrightarrow> current_memory L < two64 \<Longrightarrow> current_concurrent L < two64 \<Longrightarrow> L' = L"
  by (auto simp: try_acquire_def Let_def split: if_splits)

lemma acquire_guard_spec:
  assumes "acquire_guard m ws = (res, ws')" "limits_wf ws"
  shows "ws_shared ws' = ws_shared ws \<and> ws_lifecycle ws' = ws_lifecycle ws \<and> ws_streams ws' = ws_streams ws \<and>
    (\<forall>e. res = Inl e \<longrightarrow> ws_limits ws' = ws_limits ws) \<and>
    (\<forall>g ws1. res = Inr g \<longrightarrow> ws_limits ws1 = ws_limits ws' \<longrightarrow> ws_limits (release_guard g ws1) = ws_limits ws) \<and>
    map_option lim_config (ws_limits ws') = map_option lim_config (ws_limits ws)"
proof (cases "ws_limits ws")
  case None
  with assms show ?thesis by (auto simp: acquire_guard_def release_guard_def)
next
  case (Some L)
  obtain out L' where try_: "try_acquire (estimate_memory (ws_engine ws) m) L = (out, L')" by (meson surj_pair)
  have wf: "current_memory L < two64" "current_concurrent L < two64" using assms(2) Some by (auto simp: limits_wf_def)
  have cfg: "lim_config L' = lim_config L" using try_ by (auto simp: try_acquire_def Let_def split: if_splits)
  show ?thesis
  proof (cases out)
    case (Inl e)
    with try_ wf have "L' = L" by (auto dest: failed_acquire)
    with assms(1) Some try_ Inl show ?thesis by (auto simp: acquire_guard_def)
  next
    case (Inr g)
    with try_ wf have "drop_guard g L' = L" by (auto dest: drop_after_acquire)
    with assms(1) Some try_ Inr cfg show ?thesis by (auto simp: acquire_guard_def release_guard_def)
  qed
qed

text \<open>Admission by the ingress scan: with no pipeline everything passes.\<close>

definition admitted :: "security_pipeline option \<Rightarrow> string \<Rightarrow> bool" where
  "admitted security p \<longleftrightarrow> (case security of None \<Rightarrow> True | Some sec \<Rightarrow> (\<exists>v. pipeline_scan sec p = Some v \<and> sv_allowed v))"

text \<open>What leaves the runtime for a raw model output.\<close>

definition sanitized_text :: "security_pipeline option \<Rightarrow> string \<Rightarrow> string" where
  "sanitized_text security out = (case security of None \<Rightarrow> out | Some sec \<Rightarrow> so_output (pipeline_sanitize sec out))"

lemma scan_ingress_cases:
  assumes "scan_ingress security r ws = Some (ok, ws1)"
  shows "(ok \<longleftrightarrow> admitted security (prompt r)) \<and> ws_limits ws1 = ws_limits ws \<and> ws_lifecycle ws1 = ws_lifecycle ws \<and>
    (ok \<longrightarrow> ws_shared ws1 = ws_shared ws) \<and>
    (\<not> ok \<longrightarrow> ws_shared ws1 = send_reply (response_tx r) (Inl ''request rejected by security policy'') (ws_shared ws))"
  using assms
  by (auto simp: scan_ingress_def admitted_def Let_def send_response_def split: option.splits if_splits)

lemma apply_egress_reply:
  assumes "apply_egress security m result ws = (result', ws')" "result' = Inr res"
  shows "\<exists>raw. result = Inr raw \<and> res = raw\<lparr>r_output := sanitized_text security (r_output raw)\<rparr>"
  using assms by (auto simp: apply_egress_def sanitized_text_def Let_def split: option.splits sum.splits)

text \<open>The reply to a request, and when it can be a success.\<close>

definition sound_reply ::
  "security_pipeline option \<Rightarrow> exec_readings \<Rightarrow> queued_request \<Rightarrow> worker_state \<Rightarrow> reply \<Rightarrow> bool" where
  "sound_reply security rd r ws rep \<longleftrightarrow>
     (\<forall>res. rep = Inr res \<longrightarrow>
        admitted security (prompt r) \<and>
        \<not> should_stop (flags (ws_shared ws)) (er_stop_at rd) (stop_control_of r) \<and>
        \<not> should_stop (fst (ob_end (er_run rd))) (snd (ob_end (er_run rd))) (stop_control_of r) \<and>
        (\<exists>raw. run_controlled (ws_engine ws) (model_id r) (prompt r) (params r) (stop_control_of r)
            (map_option (\<lambda>L. max_memory_per_call (lim_config L)) (ws_limits ws)) (er_run rd) = Some (Inr raw) \<and>
           res = raw\<lparr>r_output := sanitized_text security (r_output raw)\<rparr>))"

lemma sound_reply_error [simp]: "sound_reply security rd r ws (Inl e)"
  by (simp add: sound_reply_def)

lemma run_not_stopped:
  assumes "run_controlled E m p ps c mm ob = Some (Inr raw)"
  shows "\<not> should_stop (fst (ob_end ob)) (snd (ob_end ob)) c"
  using assms run_controlled_cases [OF assms] infer_controlled_stopped [of _ p ps mm c ob "Inr raw"] stop_error_None by fast

lemma executed_reply:
  assumes acq: "acquire_guard (model_id r) ws1 = (Inr g, ws2)" and wf: "limits_wf ws1"
    and scan: "admitted security (prompt r)" and "\<not> should_stop (flags (ws_shared ws)) (er_stop_at rd) (stop_control_of r)"
    and same: "ws_limits ws1 = ws_limits ws" "ws_lifecycle ws1 = ws_lifecycle ws"
    and egress: "apply_egress security (model_id r)
      (run_blocking (ws_engine ws2) r (map_option (\<lambda>L. max_memory_per_call (lim_config L)) (ws_limits ws2)) rd) ws2 = (result, ws3)"
  shows "sound_reply security rd r ws (to_reply result)"
proof (cases result)
  case (Inr res)
  note spec = acquire_guard_spec [OF acq wf]
  have mm: "map_option (\<lambda>L. max_memory_per_call (lim_config L)) (ws_limits ws2) =
      map_option (\<lambda>L. max_memory_per_call (lim_config L)) (ws_limits ws)"
    using spec same by (metis (mono_tags, lifting) comp_apply option.map_comp option.map_cong0)
  obtain raw where raw: "run_blocking (ws_engine ws2) r (map_option (\<lambda>L. max_memory_per_call (lim_config L)) (ws_limits ws2)) rd = Inr raw"
    "res = raw\<lparr>r_output := sanitized_text security (r_output raw)\<rparr>"
    using apply_egress_reply [OF egress Inr] by blast
  then have "run_controlled (ws_engine ws) (model_id r) (prompt r) (params r) (stop_control_of r)
      (map_option (\<lambda>L. max_memory_per_call (lim_config L)) (ws_limits ws)) (er_run rd) = Some (Inr raw)"
    using spec same mm by (auto simp: run_blocking_def split: option.splits)
  with run_not_stopped [OF this] raw(2) assms(3,4) Inr show ?thesis by (auto simp: sound_reply_def to_reply_def)
qed (simp add: to_reply_def)

lemma execute_request_reply:
  assumes "execute_request add security rd r ws = Some ws'" "response_tx r = Some ch" "limits_wf ws"
  shows "\<exists>rep. replies (ws_shared ws') = (replies (ws_shared ws))(ch \<mapsto> rep) \<and> sound_reply security rd r ws rep \<and>
    ws_limits ws' = ws_limits ws"
proof -
  obtain ok ws1 where scan: "scan_ingress security r ws = Some (ok, ws1)"
    using assms(1) by (auto simp: execute_request_def split: option.splits)
  note sc = scan_ingress_cases [OF scan]
  show ?thesis
  proof (cases ok)
    case False
    with assms(1) scan have "ws' = ws1" by (simp add: execute_request_def)
    with sc False assms(2) show ?thesis
      by (intro exI [of _ "Inl ''request rejected by security policy''"]) (auto simp: send_reply_def)
  next
    case True
    then have sh: "ws_shared ws1 = ws_shared ws" and adm: "admitted security (prompt r)" using sc by auto
    show ?thesis
    proof (cases "should_stop (flags (ws_shared ws1)) (er_stop_at rd) (stop_control_of r)")
      case stopped: True
      then have "ws' = ws1\<lparr>ws_shared := reject_unexecuted (er_reject_at rd) r (ws_shared ws1)\<rparr>"
        using assms(1) scan True by (simp add: execute_request_def)
      with sc sh assms(2) show ?thesis by (auto simp: reject_unexecuted_def send_reply_def Let_def)
    next
      case go: False
      obtain res ws2 where acq: "acquire_guard (model_id r) ws1 = (res, ws2)" by (meson surj_pair)
      have wf: "limits_wf ws1" using assms(3) sc by (simp add: limits_wf_def)
      note spec = acquire_guard_spec [OF acq wf]
      show ?thesis
      proof (cases res)
        case (Inl msg)
        have "ws' = send_response r (Inl msg) (emit (EvAdmissionRejected (model_id r) msg) ws2)"
          using assms(1) scan True go acq Inl by (simp add: execute_request_def)
        with spec sc sh Inl assms(2) show ?thesis by (auto simp: ws_shared_send intro: exI [of _ "Inl msg"])
      next
        case (Inr g)
        let ?run = "run_blocking (ws_engine ws2) r (map_option (\<lambda>L. max_memory_per_call (lim_config L)) (ws_limits ws2)) rd"
        obtain result ws3 where eg: "apply_egress security (model_id r) ?run ws2 = (result, ws3)" by (meson surj_pair)
        have ws': "ws' = release_guard g (send_response r (to_reply result) (record_result add result (model_id r) (er_latency_ms rd) ws3))"
          using assms(1) scan True go acq Inr eg by (simp add: execute_request_def Let_def)
        have "sound_reply security rd r ws (to_reply result)"
          using executed_reply [OF acq [unfolded Inr] wf adm _ _ _ eg] go sc sh by simp
        moreover have "ws_limits ws' = ws_limits ws"
          using spec Inr sc apply_egress_keeps [OF eg] unfolding ws' by simp
        ultimately show ?thesis
          using apply_egress_keeps [OF eg] spec sh assms(2) unfolding ws'
          by (intro exI [of _ "to_reply result"]) (simp add: ws_shared_send)
      qed
    qed
  qed
qed


definition sample_worker :: worker_state where
  "sample_worker =
     \<lparr>ws_shared = \<lparr>flags = (\<lambda>_. False), next_flag = 1, replies = (\<lambda>_. None)\<rparr>, ws_limits = Some (limits_new limits_default),
      ws_lifecycle = snd (lifecycle_load 0 ''m'' sample_metadata
        (sample_model\<lparr>mi_infer_cancellable := (\<lambda>_ _ _. Some (Inr (Generation \<lparr>gr_text = ''ok'', gr_tokens_generated = 1, gr_finish_reason = FinStop\<rparr>)))\<rparr>)
        (lifecycle_new registry_new (engine_new 16))),
      ws_tracked = True, ws_streams = (\<lambda>_. \<lparr>sk_items = [], sk_open = (\<lambda>_. True)\<rparr>), ws_events = []\<rparr>"

definition sample_request :: queued_request where
  "sample_request =
     \<lparr>req_id = 1, model_id = ''m'', prompt = ''hi'', params = params_default, enqueued_at = 0, deadline = Some 9,
      cancelled = 0, response_tx = Some 5\<rparr>"

definition sample_readings :: exec_readings where
  "sample_readings =
     \<lparr>er_stop_at = 1, er_reject_at = 1,
      er_run = \<lparr>ob_start = (\<lambda>_. False, 2), ob_poll = (\<lambda>_. (\<lambda>_. False, 3)), ob_end = (\<lambda>_. False, 4)\<rparr>,
      er_latency_ms = 2, er_join_error = []\<rparr>"

lemma sample_limits: "limits_wf sample_worker"
  by (simp add: limits_wf_def sample_worker_def limits_new_def)

lemma sample_execution: "\<exists>ws'. execute_request (\<lambda>x _. x) None sample_readings sample_request sample_worker = Some ws'"
  by (simp add: execute_request_def scan_ingress_def Let_def split: prod.split sum.split)


section \<open>No request is dropped\<close>

lemma replies_stay:
  assumes "execute_request add security rd r ws = Some ws'" "limits_wf ws" "replies (ws_shared ws) ch \<noteq> None"
  shows "replies (ws_shared ws') ch \<noteq> None"
proof (cases "response_tx r")
  case (Some c)
  from execute_request_reply [OF assms(1) Some assms(2)] assms(3) show ?thesis by auto
next
  case None
  have "replies (ws_shared ws') = replies (ws_shared ws)"
    using assms(1) None
    by (auto simp: execute_request_def scan_ingress_def send_response_def send_reply_def reject_unexecuted_def Let_def
        acquire_guard_def split: option.splits if_splits prod.splits sum.splits dest!: apply_egress_keeps)
  with assms(3) show ?thesis by simp
qed

lemma dequeue_taken:
  assumes "dequeue clk rq sh = (res, rq', sh')" "rq_wf rq"
  shows "\<exists>dead. service_order rq = dead @ (case res of None \<Rightarrow> [] | Some r \<Rightarrow> [r]) @ service_order rq' \<and>
    (\<forall>r \<in> set dead. \<forall>ch. response_tx r = Some ch \<longrightarrow> replies sh' ch \<noteq> None)"
proof -
  obtain q where loop: "dequeue_loop clk 0 (rq_queue rq) sh = (res, q, sh')" and rq': "rq' = rq\<lparr>rq_queue := q\<rparr>"
    using assms(1) by (auto simp: dequeue_def split: prod.splits)
  have "pq_wf (rq_queue rq)" using assms(2) by (simp add: rq_wf_def)
  from dequeue_loop_spec [OF loop this] obtain dead rest where split: "pq.backlog (rq_queue rq) = dead @ rest"
    "res = (case rest of [] \<Rightarrow> None | r # _ \<Rightarrow> Some r)" "pq.backlog q = tl rest"
    and dead: "\<forall>r \<in> set dead. \<forall>ch. response_tx r = Some ch \<longrightarrow> stop_reply (replies sh' ch)"
    unfolding dequeue_splits_def by blast
  have "rest = (case res of None \<Rightarrow> [] | Some r \<Rightarrow> [r]) @ tl rest" using split(2) by (cases rest) auto
  with split(1,3) dead show ?thesis
    unfolding service_order_backlog rq' by (intro exI [of _ dead]) (auto simp: stop_reply_def)
qed

lemma dequeue_streaming_order:
  assumes "dequeue_streaming rq = (sr, rq')"
  shows "service_order rq' = service_order rq \<and> (rq_wf rq \<longrightarrow> rq_wf rq')"
  using assms rq_wf_dequeue_streaming [OF _ assms] by (auto simp: dequeue_streaming_def service_order_def split: list.splits)


definition sample_stream_readings :: stream_readings where
  "sample_stream_readings =
     \<lparr>sr_check_at = 1, sr_polls = (\<lambda>_. (\<lambda>_. False, 2)), sr_last = (\<lambda>_. False, 3), sr_latency_ms = 1, sr_join_error = [],
      sr_panic_sink = id\<rparr>"

definition sample_waiting :: request_queue where
  "sample_waiting = (queue_new queue_config_default)\<lparr>rq_queue := pq_push pq_new sample_request Normal, rq_next_id := 2\<rparr>"

lemmas sample_waiting_defs = sample_waiting_def queue_new_def queue_config_default_def pq_push_def pq_new_def sample_request_def

lemma sample_waiting_wf: "rq_wf sample_waiting"
  by (simp add: rq_wf_def pq_wf_def waiting_ids_def rq_len_def streaming_len_def pq_len_def pq_iter_def Let_def
      sample_waiting_defs two64_numeral)

lemma sample_waiting_pop: "pq_pop (rq_queue sample_waiting) = Some (sample_request, \<lparr>heap = [], next_sequence = Suc 0\<rparr>)"
  by (simp add: pq_pop_def Let_def sample_waiting_defs two64_numeral)

lemma sample_waiting_order: "service_order sample_waiting = [sample_request]"
  by (simp add: service_order_def pq_lanes_def levels_def Let_def sample_waiting_defs)


section \<open>Streams\<close>

lemma stream_scan_cases:
  assumes "stream_scan_ingress security r ws = Some (ok, ws1)"
  shows "(ok \<longleftrightarrow> admitted security (st_prompt r)) \<and> ws_shared ws1 = ws_shared ws \<and> ws_limits ws1 = ws_limits ws \<and>
    ws_lifecycle ws1 = ws_lifecycle ws \<and> (ok \<longrightarrow> ws_streams ws1 = ws_streams ws) \<and>
    (\<not> ok \<longrightarrow> ws_streams ws1 = ws_streams (end_stream (st_sender r) (TermRejected ''prompt rejected by ingress security scan'') ws))"
  using assms
  by (auto simp: stream_scan_ingress_def admitted_def Let_def end_stream_def split: option.splits if_splits)

text \<open>
  What a stream looks like to its receiver: data frames of the right kind, then one terminal frame. A
  terminal that says Complete needs an admitted prompt and a run that was not stopped.
\<close>

definition framed :: "security_pipeline option \<Rightarrow> stream_readings \<Rightarrow> streaming_request \<Rightarrow> sink \<Rightarrow> sink \<Rightarrow> bool" where
  "framed security rd r sk sk' \<longleftrightarrow>
     (\<exists>data. set data \<subseteq> (if security \<noteq> None then range ItemText else range ItemToken) \<and>
        (admitted security (st_prompt r) \<or> data = []) \<and>
        (if sk_open sk (length (sk_items sk @ data))
         then \<exists>t. sk_items sk' = sk_items sk @ data @ [ItemEnd t] \<and>
            (t = TermComplete \<longrightarrow> admitted security (st_prompt r) \<and> \<not> stream_should_stop r (sr_last rd))
         else sk_items sk' = sk_items sk @ data))"

lemma framed_end:
  assumes "t \<noteq> TermComplete"
  shows "framed security rd r (ws_streams ws ch) (ws_streams (end_stream ch t ws) ch)"
  using assms unfolding framed_def by (intro exI [of _ "[]"]) (auto simp: end_stream_def send_item_def)

lemma run_stream_framed:
  assumes "run_stream_sync E (st_model_id r) (st_prompt r) (st_config r) (map_option egress_of security)
      (Some stop) (stream_should_stop r (sr_last rd)) sk = Some (res, sk')" "admitted security (st_prompt r)"
  shows "framed security rd r sk sk'"
proof -
  obtain data where "set data \<subseteq> (if security \<noteq> None then range ItemText else range ItemToken)"
    "if sk_open sk (length (sk_items sk @ data))
     then \<exists>t. sk_items sk' = sk_items sk @ data @ [ItemEnd t] \<and> (t = TermComplete \<longleftrightarrow> res = Inr ())
     else sk_items sk' = sk_items sk @ data" "stream_should_stop r (sr_last rd) \<longrightarrow> res \<noteq> Inr ()"
    using stream_framing [OF assms(1)] by auto
  with assms(2) show ?thesis unfolding framed_def by (intro exI [of _ data]) (auto split: if_splits)
qed

lemma executed_stream:
  assumes acq: "acquire_guard (st_model_id r) ws1 = (Inr g, ws2)" and wf: "limits_wf ws1" and adm: "admitted security (st_prompt r)"
    and run: "run_stream_sync (ws_engine ws1) (st_model_id r) (st_prompt r) (st_config r) (map_option egress_of security)
        (Some (\<lambda>k. stream_should_stop r (sr_polls rd k))) (stream_should_stop r (sr_last rd)) (ws_streams ws1 (st_sender r)) \<noteq> None"
    and rb: "run_stream_blocking (ws_engine ws2) r security rd (ws_streams ws2 (st_sender r)) = (out, sk)"
    and ws': "ws' = release_guard g (emit ev (ws2\<lparr>ws_streams := (ws_streams ws2)(st_sender r := sk)\<rparr>))"
  shows "framed security rd r (ws_streams ws1 (st_sender r)) (ws_streams ws' (st_sender r)) \<and>
    (\<forall>ch. ch \<noteq> st_sender r \<longrightarrow> ws_streams ws' ch = ws_streams ws1 ch) \<and>
    ws_shared ws' = ws_shared ws1 \<and> ws_limits ws' = ws_limits ws1"
proof -
  note spec = acquire_guard_spec [OF acq wf]
  obtain res sk1 where run: "run_stream_sync (ws_engine ws1) (st_model_id r) (st_prompt r) (st_config r) (map_option egress_of security)
      (Some (\<lambda>k. stream_should_stop r (sr_polls rd k))) (stream_should_stop r (sr_last rd)) (ws_streams ws1 (st_sender r)) = Some (res, sk1)"
    using run by auto
  then have "sk1 = sk" using rb spec by (cases res) (auto simp: run_stream_blocking_def)
  with run_stream_framed [OF run adm] spec show ?thesis unfolding ws' by auto
qed


definition sample_stream :: streaming_request where
  "sample_stream =
     \<lparr>st_id = 1, st_model_id = ''m'', st_prompt = ''hi'', st_config = config_default, st_enqueued_at = 0, st_deadline = Some 9,
      st_cancelled = 0, st_sender = 3\<rparr>"


section \<open>Observations\<close>

text \<open>
  The ingress scan runs on the worker task itself, outside the blocking task whose panics are caught. A
  prompt on which the scan panics (\<open>scan_panics_inside_character\<close>) therefore ends the worker: the request has
  no reply and no later request is served.
\<close>

lemma prompt_kills_worker:
  assumes "sp_lower sec = to_ascii_lowercase" "sp_find sec = naive_find" "ip_injection (sp_ingress sec) = Some f"
    and "prompt r = euro_prompt" "naive_find high_risk_patterns euro_prompt = []" "naive_find injection_patterns euro_prompt = []"
  shows "execute_request add (Some sec) rd r ws = None"
  using assms scan_panics_inside_character [of naive_find f]
  by (simp add: execute_request_def scan_ingress_def pipeline_scan_def scan_prompt_def)

text \<open>The shutdown signal is looked at only when no stream is waiting.\<close>

lemma streams_delay_shutdown:
  assumes "rq_streaming rq \<noteq> []"
  shows "worker_turn add security True clk rd srd rq ws = worker_turn add security False clk rd srd rq ws"
  using assms by (auto simp: worker_turn_def dequeue_streaming_def split: list.splits)

end
