(* ===== verification/Model_Loading.thy ===== *)
theory Model_Loading
  imports Model_Lifecycle "HOL-Library.Sublist"
begin

text \<open>
  Loading a model from disk: path validation (\<open>models/loader.rs\<close>), the check against symbolic links
  (\<open>models/containment.rs\<close>), the manifest (\<open>models/manifest.rs\<close>), hash verification
  (\<open>models/integrity.rs\<close>), the choice of the backend (\<open>models/backend_dispatch.rs\<close>,
  \<open>engine/onnx/dispatch.rs\<close>, \<open>engine/gguf/mod.rs\<close>) and the standalone operations
  (\<open>models/model_ops.rs\<close>), on Unix.

  A \<open>PathBuf\<close> is the list of its components, which is what its comparisons look at. The file system is
  explicit: what each path names, the bytes of each file and the resolution of links. Other processes
  change it, so every system call of a load sees the file system of its own moment. The JSON
  parser, SHA-256 and the native readers of model files are parameters.
\<close>

section \<open>Paths\<close>

datatype component = RootDir | CurDir | ParentDir | Normal string

type_synonym path = "component list"

fun split_slash :: "string \<Rightarrow> string list" where
  "split_slash [] = [[]]"
| "split_slash (c # cs) =
     (if c = CHR ''/'' then [] # split_slash cs
      else case split_slash cs of [] \<Rightarrow> [[c]] | p # ps \<Rightarrow> (c # p) # ps)"

definition component_of :: "string \<Rightarrow> component" where
  "component_of s = (if s = ''..'' then ParentDir else Normal s)"

text \<open>\<open>Path::components\<close>: repeated separators and every dot but a leading one are dropped.\<close>

definition components :: "string \<Rightarrow> path" where
  "components s =
     (let parts = split_slash s; body = map component_of (filter (\<lambda>p. p \<noteq> [] \<and> p \<noteq> ''.'') parts) in
      if starts_with s ''/'' then RootDir # body
      else if hd parts = ''.'' then CurDir # body
      else body)"

definition path_join :: "string \<Rightarrow> string \<Rightarrow> string" where
  "path_join base rel =
     (if starts_with rel ''/'' then rel
      else if base = [] \<or> last base = CHR ''/'' then base @ rel
      else base @ ''/'' @ rel)"

text \<open>\<open>PathBuf::pop\<close>: the empty path and the root have no parent.\<close>

definition path_pop :: "path \<Rightarrow> path option" where
  "path_pop p = (if p = [] \<or> last p = RootDir then None else Some (butlast p))"

definition normalize_step :: "component \<Rightarrow> path \<Rightarrow> path option" where
  "normalize_step c p =
     (case c of
        RootDir \<Rightarrow> Some [RootDir]
      | CurDir \<Rightarrow> Some p
      | ParentDir \<Rightarrow> path_pop p
      | Normal s \<Rightarrow> Some (p @ [Normal s]))"

fun normalize_from :: "path \<Rightarrow> path \<Rightarrow> path option" where
  "normalize_from p [] = Some p"
| "normalize_from p (c # cs) = Option.bind (normalize_step c p) (\<lambda>p'. normalize_from p' cs)"

definition normalize_path :: "path \<Rightarrow> path option" where
  "normalize_path cs = normalize_from [] cs"

section \<open>The file system\<close>

datatype node =
    NodeFile "nat \<times> nat"
  | NodeDir "nat \<times> nat"
  | NodeLink "nat \<times> nat" string

datatype io_error = IoNotFound | IoLoop | IoIsDir | IoOther string

record fs =
  fs_lookup :: "path \<Rightarrow> io_error + node"
  fs_data :: "nat \<times> nat \<Rightarrow> string"
  fs_canonicalize :: "path \<Rightarrow> io_error + path"

definition fs_follow :: "fs \<Rightarrow> path \<Rightarrow> io_error + node" where
  "fs_follow F p = (case fs_canonicalize F p of Inl e \<Rightarrow> Inl e | Inr q \<Rightarrow> fs_lookup F q)"

definition path_exists :: "fs \<Rightarrow> path \<Rightarrow> bool" where
  "path_exists F p \<longleftrightarrow> \<not> isl (fs_follow F p)"

fun node_len :: "fs \<Rightarrow> node \<Rightarrow> nat" where
  "node_len F (NodeFile i) = length (fs_data F i)"
| "node_len F (NodeDir i) = length (fs_data F i)"
| "node_len F (NodeLink i target) = length target"

fun node_id :: "node \<Rightarrow> nat \<times> nat" where
  "node_id (NodeFile i) = i"
| "node_id (NodeDir i) = i"
| "node_id (NodeLink i _) = i"

text \<open>Reading the bytes of the file a path names, through links.\<close>

definition read_file :: "fs \<Rightarrow> path \<Rightarrow> io_error + string" where
  "read_file F p =
     (case fs_follow F p of
        Inl e \<Rightarrow> Inl e
      | Inr (NodeFile i) \<Rightarrow> Inr (fs_data F i)
      | Inr (NodeDir _) \<Rightarrow> Inl IoIsDir
      | Inr (NodeLink _ _) \<Rightarrow> Inl IoLoop)"

section \<open>Validation of model paths\<close>

datatype physical = Contained | Absent | Escapes

definition containment_check :: "fs \<Rightarrow> path \<Rightarrow> path list \<Rightarrow> physical" where
  "containment_check F candidate roots =
     (case fs_lookup F candidate of
        Inl IoNotFound \<Rightarrow> Absent
      | Inl _ \<Rightarrow> Escapes
      | Inr _ \<Rightarrow>
          (case fs_canonicalize F candidate of
             Inl _ \<Rightarrow> Escapes
           | Inr loc \<Rightarrow>
               if \<exists>root \<in> set roots. case fs_canonicalize F root of Inl _ \<Rightarrow> False | Inr r \<Rightarrow> prefix r loc
               then Contained else Escapes))"

datatype load_error =
    PathNotAllowed path
  | LoadNotFound path
  | InvalidFormat string
  | LoadIo io_error

definition ALLOWED_DIRS :: "string list" where
  "ALLOWED_DIRS = [''models'', ''tokenizers'']"

text \<open>The directory \<open>base/dir\<close> as validation sees it.\<close>

definition allowed_root :: "string \<Rightarrow> string \<Rightarrow> path" where
  "allowed_root base dir = components (path_join base dir)"

definition validate_path :: "fs \<Rightarrow> string \<Rightarrow> string \<Rightarrow> load_error + path" where
  "validate_path F base rel =
     (if CHR 0x00 \<in> set rel then Inl (PathNotAllowed [Normal ''<nul-byte rejected>''])
      else
        let full_path = components (path_join base rel) in
        case normalize_path full_path of
          None \<Rightarrow> Inl (PathNotAllowed full_path)
        | Some normalized \<Rightarrow>
            let is_allowed = (\<exists>dir \<in> set ALLOWED_DIRS.
                  case normalize_path (allowed_root base dir) of None \<Rightarrow> False | Some r \<Rightarrow> prefix r normalized)
            in if \<not> is_allowed then Inl (PathNotAllowed normalized)
               else
                 (case containment_check F normalized (map (allowed_root base) ALLOWED_DIRS) of
                    Escapes \<Rightarrow> Inl (PathNotAllowed normalized)
                  | _ \<Rightarrow> Inr normalized))"

definition file_name :: "path \<Rightarrow> string option" where
  "file_name p = (if p = [] then None else case last p of Normal s \<Rightarrow> Some s | _ \<Rightarrow> None)"

text \<open>\<open>Path::file_stem\<close>: the name up to its last dot, unless the only dot is the first character.\<close>

definition stem_of :: "string \<Rightarrow> string" where
  "stem_of s =
     (let ext = takeWhile (\<lambda>c. c \<noteq> CHR ''.'') (rev s) in
      if length s \<le> length ext + 1 then s else take (length s - length ext - 1) s)"

definition load_metadata :: "fs \<Rightarrow> path \<Rightarrow> load_error + model_metadata" where
  "load_metadata F p =
     (case fs_follow F p of
        Inl e \<Rightarrow> Inl (LoadNotFound p)
      | Inr nd \<Rightarrow>
          Inr \<lparr>md_name = (case file_name p of None \<Rightarrow> ''unknown'' | Some s \<Rightarrow> stem_of s), md_size_bytes = node_len F nd\<rparr>)"

text \<open>\<open>OpenOptions::open\<close> with \<open>O_NOFOLLOW\<close>: a link at the last component is refused.\<close>

definition open_file_nofollow :: "fs \<Rightarrow> path \<Rightarrow> io_error + node" where
  "open_file_nofollow F p =
     (case fs_lookup F p of Inl e \<Rightarrow> Inl e | Inr (NodeLink _ _) \<Rightarrow> Inl IoLoop | Inr nd \<Rightarrow> Inr nd)"

fun read_handle :: "fs \<Rightarrow> node \<Rightarrow> io_error + string" where
  "read_handle F (NodeFile i) = Inr (fs_data F i)"
| "read_handle F (NodeDir _) = Inl IoIsDir"
| "read_handle F (NodeLink _ _) = Inl IoLoop"

definition mapped_open :: "fs \<Rightarrow> path \<Rightarrow> load_error + string" where
  "mapped_open F p =
     (case open_file_nofollow F p of
        Inl e \<Rightarrow> Inl (LoadIo e)
      | Inr nd \<Rightarrow> (case read_handle F nd of Inl e \<Rightarrow> Inl (LoadIo e) | Inr bytes \<Rightarrow> Inr bytes))"

section \<open>Manifests\<close>

datatype model_capability = CapTextClassification | CapTextGeneration | CapEmbedding | CapNamedEntityRecognition

datatype model_architecture = ArchGguf | ArchOnnx | ArchSafeTensors

record model_manifest =
  mf_model_id :: string
  mf_name :: string
  mf_version :: string
  mf_capabilities :: "model_capability list"
  mf_sha256 :: string
  mf_size_bytes :: u64
  mf_architecture :: model_architecture
  mf_license :: string
  mf_labels :: "string list option"

type_synonym manifest_parser = "string \<Rightarrow> string + model_manifest"

definition manifest_from_json :: "manifest_parser \<Rightarrow> string \<Rightarrow> engine_error + model_manifest" where
  "manifest_from_json parse json =
     (case parse json of Inl e \<Rightarrow> Inl (EModelError (''invalid manifest JSON: '' @ e)) | Inr m \<Rightarrow> Inr m)"

definition manifest_from_file ::
  "manifest_parser \<Rightarrow> (io_error \<Rightarrow> string) \<Rightarrow> fs \<Rightarrow> path \<Rightarrow> engine_error + model_manifest" where
  "manifest_from_file parse show_io F p =
     (case read_file F p of
        Inl e \<Rightarrow> Inl (EModelError (''failed to read manifest: '' @ show_io e))
      | Inr s \<Rightarrow> manifest_from_json parse s)"

definition manifest_validate :: "model_manifest \<Rightarrow> engine_error + unit" where
  "manifest_validate m =
     (if mf_model_id m = [] then Inl (EModelError ''model_id cannot be empty'')
      else if length (mf_sha256 m) \<noteq> 64 then Inl (EModelError ''sha256 must be 64 hex characters'')
      else if mf_capabilities m = [] then Inl (EModelError ''capabilities cannot be empty'')
      else Inr ())"

definition has_capability :: "model_manifest \<Rightarrow> model_capability \<Rightarrow> bool" where
  "has_capability m cap \<longleftrightarrow> cap \<in> set (mf_capabilities m)"

section \<open>Integrity\<close>

record file_identity =
  fi_len :: u64
  fi_dev :: nat
  fi_ino :: nat

definition identity_of :: "fs \<Rightarrow> node \<Rightarrow> file_identity" where
  "identity_of F nd = \<lparr>fi_len = node_len F nd, fi_dev = fst (node_id nd), fi_ino = snd (node_id nd)\<rparr>"

definition at_path :: "(io_error \<Rightarrow> string) \<Rightarrow> fs \<Rightarrow> path \<Rightarrow> engine_error + file_identity" where
  "at_path show_io F p =
     (case fs_lookup F p of
        Inl e \<Rightarrow> Inl (EModelError (''cannot re-stat model: '' @ show_io e))
      | Inr nd \<Rightarrow> Inr (identity_of F nd))"

definition open_nofollow :: "(io_error \<Rightarrow> string) \<Rightarrow> (path \<Rightarrow> string) \<Rightarrow> fs \<Rightarrow> path \<Rightarrow> engine_error + node" where
  "open_nofollow show_io disp F p =
     (case open_file_nofollow F p of
        Inl IoLoop \<Rightarrow> Inl (EModelError (''model path is a symbolic link (refused): '' @ disp p))
      | Inl e \<Rightarrow> Inl (EModelError (''cannot open model for hashing: '' @ show_io e))
      | Inr nd \<Rightarrow> Inr nd)"

definition hash_file ::
  "(string \<Rightarrow> string) \<Rightarrow> (io_error \<Rightarrow> string) \<Rightarrow> (path \<Rightarrow> string) \<Rightarrow> fs \<Rightarrow> path \<Rightarrow> engine_error + string \<times> file_identity" where
  "hash_file sha256 show_io disp F p =
     (case open_nofollow show_io disp F p of
        Inl e \<Rightarrow> Inl e
      | Inr nd \<Rightarrow>
          (case read_handle F nd of
             Inl e \<Rightarrow> Inl (EModelError (''hashing read failed: '' @ show_io e))
           | Inr bytes \<Rightarrow> Inr (sha256 bytes, identity_of F nd)))"

definition eq_ignore_ascii_case :: "string \<Rightarrow> string \<Rightarrow> bool" where
  "eq_ignore_ascii_case a b \<longleftrightarrow> to_ascii_lowercase a = to_ascii_lowercase b"

definition verify_manifest_hash ::
  "(string \<Rightarrow> string) \<Rightarrow> (io_error \<Rightarrow> string) \<Rightarrow> (path \<Rightarrow> string) \<Rightarrow> fs \<Rightarrow> path \<Rightarrow> model_manifest \<Rightarrow> engine_error + file_identity" where
  "verify_manifest_hash sha256 show_io disp F p m =
     (case hash_file sha256 show_io disp F p of
        Inl e \<Rightarrow> Inl e
      | Inr (actual, identity) \<Rightarrow>
          if \<not> eq_ignore_ascii_case actual (mf_sha256 m)
          then Inl (EModelError (''model hash mismatch for '' @ [CHR 0x27] @ mf_model_id m @ [CHR 0x27] @
                 '': manifest declares sha256 '' @ mf_sha256 m @ '' but the file hashes to '' @ actual))
          else Inr identity)"

definition check_identity_unchanged ::
  "(io_error \<Rightarrow> string) \<Rightarrow> (path \<Rightarrow> string) \<Rightarrow> fs \<Rightarrow> path \<Rightarrow> file_identity \<Rightarrow> engine_error + unit" where
  "check_identity_unchanged show_io disp F p hashed =
     (case at_path show_io F p of
        Inl e \<Rightarrow> Inl e
      | Inr now \<Rightarrow>
          if now \<noteq> hashed
          then Inl (EModelError (''model file changed during load (hash no longer attests the loaded bytes): '' @ disp p))
          else Inr ())"

section \<open>Choice of the backend\<close>

datatype backend_choice = BackendOnnx model_manifest | BackendGgufDefault

definition choose_backend :: "model_manifest option \<Rightarrow> backend_choice" where
  "choose_backend m =
     (case m of
        Some mf \<Rightarrow> if mf_architecture mf = ArchOnnx then BackendOnnx mf else BackendGgufDefault
      | None \<Rightarrow> BackendGgufDefault)"

definition with_file_name :: "path \<Rightarrow> string \<Rightarrow> path" where
  "with_file_name p s = (case file_name p of None \<Rightarrow> p | Some _ \<Rightarrow> butlast p) @ [Normal s]"

definition read_sibling_manifest ::
  "manifest_parser \<Rightarrow> (io_error \<Rightarrow> string) \<Rightarrow> (path \<Rightarrow> string) \<Rightarrow> fs \<Rightarrow> fs \<Rightarrow> path \<Rightarrow> engine_error + model_manifest option" where
  "read_sibling_manifest parse show_io disp F F' p =
     (let manifest_path = with_file_name p ''manifest.json'' in
      case fs_lookup F manifest_path of
        Inl IoNotFound \<Rightarrow> Inr None
      | Inl e \<Rightarrow> Inl (EModelError (''manifest present but unreadable ('' @ show_io e @ ''): '' @ disp manifest_path))
      | Inr _ \<Rightarrow>
          (case manifest_from_file parse show_io F' manifest_path of
             Inl e \<Rightarrow> Inl e
           | Inr m \<Rightarrow> (case manifest_validate m of Inl e \<Rightarrow> Inl e | Inr _ \<Rightarrow> Inr (Some m))))"

datatype onnx_load_plan = PlanClassifier "string list" | PlanEmbedder

primrec debug_architecture :: "model_architecture \<Rightarrow> string" where
  "debug_architecture ArchGguf = ''Gguf''"
| "debug_architecture ArchOnnx = ''Onnx''"
| "debug_architecture ArchSafeTensors = ''SafeTensors''"

definition plan_onnx_load :: "model_manifest \<Rightarrow> engine_error + onnx_load_plan" where
  "plan_onnx_load m =
     (if mf_architecture m \<noteq> ArchOnnx
      then Inl (EModelError (''manifest architecture is '' @ debug_architecture (mf_architecture m) @ '', expected Onnx''))
      else
        case (has_capability m CapTextClassification, has_capability m CapEmbedding) of
          (True, True) \<Rightarrow>
            Inl (EModelError ''manifest declares both TextClassification and Embedding; ONNX dispatch is ambiguous'')
        | (True, False) \<Rightarrow>
            (case mf_labels m of
               Some ls \<Rightarrow>
                 if ls \<noteq> [] then Inr (PlanClassifier ls)
                 else Inl (EModelError (''TextClassification manifest requires non-empty '' @ [CHR 0x60] @ ''labels'' @ [CHR 0x60] @ '' for ONNX classifier dispatch''))
             | None \<Rightarrow>
                 Inl (EModelError (''TextClassification manifest requires non-empty '' @ [CHR 0x60] @ ''labels'' @ [CHR 0x60] @ '' for ONNX classifier dispatch'')))
        | (False, True) \<Rightarrow> Inr PlanEmbedder
        | (False, False) \<Rightarrow>
            Inl (EModelError ''manifest declares no ONNX-servable capability (TextClassification or Embedding)''))"

record gguf_env_config =
  ge_n_ctx :: nat
  ge_n_threads :: nat

record gguf_config =
  gc_n_threads :: nat
  gc_n_ctx :: nat
  gc_n_gpu_layers :: nat

definition gguf_config_default :: gguf_config where
  "gguf_config_default = \<lparr>gc_n_threads = 0, gc_n_ctx = 2048, gc_n_gpu_layers = 0\<rparr>"

definition gguf_load_config :: "gguf_env_config \<Rightarrow> gguf_config" where
  "gguf_load_config env = gguf_config_default\<lparr>gc_n_ctx := ge_n_ctx env, gc_n_threads := ge_n_threads env\<rparr>"

text \<open>
  The native readers take the bytes of the model file: llama.cpp gives a model and its size, the ONNX
  reader a model for the planned kind.
\<close>

record native_readers =
  nr_llama :: "gguf_config \<Rightarrow> string \<Rightarrow> string + (llama \<times> usize)"
  nr_onnx :: "onnx_load_plan \<Rightarrow> string \<Rightarrow> string \<Rightarrow> string + model_impl"

definition generator_load ::
  "native_readers \<Rightarrow> (io_error \<Rightarrow> string) \<Rightarrow> fs \<Rightarrow> string \<Rightarrow> path \<Rightarrow> gguf_config \<Rightarrow> engine_error + generator" where
  "generator_load N show_io F m p cfg =
     (case read_file F p of
        Inl e \<Rightarrow> Inl (EModelError (''load: '' @ show_io e))
      | Inr bytes \<Rightarrow>
          (case nr_llama N cfg bytes of
             Inl e \<Rightarrow> Inl (EModelError (''load: '' @ e))
           | Inr (L, mem) \<Rightarrow> Inr \<lparr>gg_model_id = m, gg_memory_bytes = mem, gg_inner = Some L\<rparr>))"

definition load_gguf_model ::
  "native_readers \<Rightarrow> (io_error \<Rightarrow> string) \<Rightarrow> (path \<Rightarrow> string) \<Rightarrow> fs \<Rightarrow> path \<Rightarrow> string \<Rightarrow> gguf_config \<Rightarrow> engine_error + model_impl" where
  "load_gguf_model N show_io disp F p m cfg =
     (if \<not> path_exists F p then Inl (EModelError (''model file not found: '' @ disp p))
      else case generator_load N show_io F m p cfg of Inl e \<Rightarrow> Inl e | Inr g \<Rightarrow> Inr (gguf_model g))"

definition load_onnx_from_manifest ::
  "native_readers \<Rightarrow> (io_error \<Rightarrow> string) \<Rightarrow> (path \<Rightarrow> string) \<Rightarrow> fs \<Rightarrow> model_manifest \<Rightarrow> path \<Rightarrow> engine_error + model_impl" where
  "load_onnx_from_manifest N show_io disp F m p =
     (case plan_onnx_load m of
        Inl e \<Rightarrow> Inl e
      | Inr plan \<Rightarrow>
          (case read_file F p of
             Inl e \<Rightarrow> Inl (EModelError (''load '' @ disp p @ '': '' @ show_io e))
           | Inr bytes \<Rightarrow>
               (case nr_onnx N plan (mf_model_id m) bytes of
                  Inl e \<Rightarrow> Inl (EModelError (''load '' @ disp p @ '': '' @ e))
                | Inr model \<Rightarrow> Inr model)))"

text \<open>
  What a load depends on besides its arguments. \<open>w i\<close> is the file system at the \<open>i\<close>-th step: 0 the stat of
  the manifest, 1 its read, 2 the hashing, 3 the backend, 4 the re-check.
\<close>

record load_env =
  le_parse :: manifest_parser
  le_sha256 :: "string \<Rightarrow> string"
  le_show_io :: "io_error \<Rightarrow> string"
  le_disp :: "path \<Rightarrow> string"
  le_native :: native_readers
  le_gguf :: gguf_env_config

definition load_backend :: "load_env \<Rightarrow> fs \<Rightarrow> backend_choice \<Rightarrow> path \<Rightarrow> string \<Rightarrow> engine_error + model_impl" where
  "load_backend env F choice p m =
     (case choice of
        BackendOnnx mf \<Rightarrow> load_onnx_from_manifest (le_native env) (le_show_io env) (le_disp env) F mf p
      | BackendGgufDefault \<Rightarrow>
          load_gguf_model (le_native env) (le_show_io env) (le_disp env) F p m (gguf_load_config (le_gguf env)))"

definition load_model_dispatch :: "load_env \<Rightarrow> (nat \<Rightarrow> fs) \<Rightarrow> path \<Rightarrow> string \<Rightarrow> engine_error + model_impl" where
  "load_model_dispatch env w p m =
     (case read_sibling_manifest (le_parse env) (le_show_io env) (le_disp env) (w 0) (w 1) p of
        Inl e \<Rightarrow> Inl e
      | Inr manifest \<Rightarrow>
          (case (case manifest of
                   None \<Rightarrow> Inr None
                 | Some mf \<Rightarrow>
                     (case verify_manifest_hash (le_sha256 env) (le_show_io env) (le_disp env) (w 2) p mf of
                        Inl e \<Rightarrow> Inl e | Inr i \<Rightarrow> Inr (Some i))) of
             Inl e \<Rightarrow> Inl e
           | Inr hashed \<Rightarrow>
               (case load_backend env (w 3) (choose_backend manifest) p m of
                  Inl e \<Rightarrow> Inl e
                | Inr model \<Rightarrow>
                    (case hashed of
                       None \<Rightarrow> Inr model
                     | Some identity \<Rightarrow>
                         (case check_identity_unchanged (le_show_io env) (le_disp env) (w 4) p identity of
                            Inl e \<Rightarrow> Inl e | Inr _ \<Rightarrow> Inr model)))))"

section \<open>Standalone operations\<close>

datatype model_op_error =
    OpPath load_error
  | OpBackend string
  | OpLifecycle lifecycle_error

record prepared_model =
  pr_model_id :: string
  pr_metadata :: model_metadata
  pr_model :: model_impl

definition prepare_model ::
  "load_env \<Rightarrow> (nat \<Rightarrow> fs) \<Rightarrow> string \<Rightarrow> string \<Rightarrow> string option \<Rightarrow> model_op_error + prepared_model" where
  "prepare_model env w base rel model_id =
     (case validate_path (w 0) base rel of
        Inl e \<Rightarrow> Inl (OpPath e)
      | Inr p \<Rightarrow>
          (case load_metadata (w 1) p of
             Inl e \<Rightarrow> Inl (OpPath e)
           | Inr md \<Rightarrow>
               let m = (case model_id of None \<Rightarrow> md_name md | Some m \<Rightarrow> m) in
               (case load_model_dispatch env (\<lambda>i. w (i + 2)) p m of
                  Inl e \<Rightarrow> Inl (OpBackend (show_engine_error e))
                | Inr model \<Rightarrow> Inr \<lparr>pr_model_id = m, pr_metadata = md, pr_model = model\<rparr>)))"

definition register_prepared ::
  "instant \<Rightarrow> prepared_model \<Rightarrow> model_lifecycle \<Rightarrow> (model_op_error + string \<times> u64) \<times> model_lifecycle" where
  "register_prepared now pr lc =
     (case lifecycle_load now (pr_model_id pr) (pr_metadata pr) (pr_model pr) lc of
        (Inl e, lc') \<Rightarrow> (Inl (OpLifecycle e), lc')
      | (Inr h, lc') \<Rightarrow> (Inr (pr_model_id pr, h), lc'))"

definition load_model_from_path ::
  "load_env \<Rightarrow> (nat \<Rightarrow> fs) \<Rightarrow> instant \<Rightarrow> string \<Rightarrow> string \<Rightarrow> string option \<Rightarrow> model_lifecycle
   \<Rightarrow> (model_op_error + string \<times> u64) \<times> model_lifecycle" where
  "load_model_from_path env w now base rel model_id lc =
     (case prepare_model env w base rel model_id of
        Inl e \<Rightarrow> (Inl e, lc)
      | Inr pr \<Rightarrow> register_prepared now pr lc)"

definition unload_model :: "string \<Rightarrow> model_lifecycle \<Rightarrow> (model_op_error + unit) \<times> model_lifecycle" where
  "unload_model m lc =
     (case lifecycle_unload m lc of
        (Inl e, lc') \<Rightarrow> (Inl (OpLifecycle e), lc')
      | (Inr _, lc') \<Rightarrow> (Inr (), lc'))"

section \<open>Where a validated path leads\<close>

text \<open>
  The directory a path leads to without links, from the working directory \<open>cwd\<close>: the meaning of the dots,
  independent of normalisation. The parent of the root is the root.
\<close>

fun walk :: "string list \<Rightarrow> path \<Rightarrow> string list" where
  "walk cwd [] = cwd"
| "walk cwd (RootDir # cs) = walk [] cs"
| "walk cwd (CurDir # cs) = walk cwd cs"
| "walk cwd (ParentDir # cs) = walk (butlast cwd) cs"
| "walk cwd (Normal s # cs) = walk (cwd @ [s]) cs"

lemma walk_append: "walk cwd (a @ b) = walk (walk cwd a) b"
  by (induction cwd a rule: walk.induct) auto

lemma walk_Normals [simp]: "walk cwd (map Normal ns) = cwd @ ns"
  by (induction ns arbitrary: cwd) auto

definition normal_form :: "path \<Rightarrow> bool" where
  "normal_form p \<longleftrightarrow> (\<exists>ns. p = map Normal ns \<or> p = RootDir # map Normal ns)"

lemma normal_form_snoc:
  assumes "normal_form p"
  shows "normal_form (p @ [Normal s])"
proof -
  from assms obtain ns where "p = map Normal ns \<or> p = RootDir # map Normal ns" by (auto simp: normal_form_def)
  then have "p @ [Normal s] = map Normal (ns @ [s]) \<or> p @ [Normal s] = RootDir # map Normal (ns @ [s])" by auto
  then show ?thesis unfolding normal_form_def by blast
qed

lemma normal_form_pop:
  assumes "normal_form p" "path_pop p = Some q"
  shows "normal_form q \<and> (\<exists>s. p = q @ [Normal s])"
proof -
  from assms obtain ns where p: "p = map Normal ns \<or> p = RootDir # map Normal ns" by (auto simp: normal_form_def)
  have "ns \<noteq> []" using assms(2) p by (auto simp: path_pop_def)
  then obtain ms s where ns: "ns = ms @ [s]" by (metis rev_exhaust)
  have "q = map Normal ms \<or> q = RootDir # map Normal ms" "p = q @ [Normal s]"
    using assms(2) p by (auto simp: path_pop_def ns butlast_append split: if_splits)
  then show ?thesis by (auto simp: normal_form_def)
qed

lemma normalize_step_walk:
  assumes "normal_form p" "normalize_step c p = Some q"
  shows "normal_form q \<and> walk cwd q = walk (walk cwd p) [c]"
proof (cases c)
  case RootDir
  with assms show ?thesis by (auto simp: normalize_step_def normal_form_def)
next
  case ParentDir
  with assms normal_form_pop [OF assms(1), of q] show ?thesis by (auto simp: normalize_step_def walk_append)
next
  case (Normal s)
  with assms show ?thesis by (auto simp: normalize_step_def normal_form_snoc walk_append)
qed (use assms in \<open>simp add: normalize_step_def\<close>)

lemma normalize_from_walk:
  "normal_form p \<Longrightarrow> normalize_from p cs = Some q \<Longrightarrow> normal_form q \<and> walk cwd q = walk (walk cwd p) cs"
proof (induction cs arbitrary: p)
  case (Cons c cs)
  then obtain p' where p': "normalize_step c p = Some p'" "normalize_from p' cs = Some q"
    by (auto simp: bind_eq_Some_conv)
  from normalize_step_walk [OF Cons.prems(1) p'(1)] Cons.IH [OF _ p'(2)]
  show ?case by (metis append_Cons append_Nil walk_append)
qed simp

lemma normalize_path_walk:
  assumes "normalize_path cs = Some q"
  shows "normal_form q \<and> walk cwd q = walk cwd cs"
  using normalize_from_walk [of "[]" cs q cwd] assms by (simp add: normalize_path_def normal_form_def)

lemma normalize_from_snoc: "normalize_from p (cs @ [Normal s]) = map_option (\<lambda>q. q @ [Normal s]) (normalize_from p cs)"
proof (induction cs arbitrary: p)
  case (Cons c cs)
  then show ?case by (cases "normalize_step c p") auto
qed (simp add: normalize_step_def)

lemma split_slash_nonempty [simp]: "split_slash s \<noteq> []"
  by (induction s) (auto split: list.splits)

lemma split_slash_append: "split_slash (a @ CHR ''/'' # b) = split_slash a @ split_slash b"
  by (induction a) (auto split: list.splits)

lemma allowed_root_last:
  assumes "dir \<in> set ALLOWED_DIRS"
  shows "\<exists>cs. allowed_root base dir = cs @ [Normal dir]"
proof -
  have dir: "split_slash dir = [dir]" "\<not> starts_with dir ''/''" "dir \<noteq> []" "dir \<noteq> ''.''" "component_of dir = Normal dir"
    using assms by (auto simp: ALLOWED_DIRS_def component_of_def)
  show ?thesis
  proof (cases "base = []")
    case True
    with dir show ?thesis by (simp add: allowed_root_def path_join_def components_def)
  next
    case False
    have "\<exists>a. path_join base dir = a @ CHR ''/'' # dir"
    proof (cases "last base = CHR ''/''")
      case True
      then have "base = butlast base @ ''/''" using False by (metis append_butlast_last_id)
      then have "path_join base dir = butlast base @ CHR ''/'' # dir"
        using dir(2) True False by (metis append_Cons append_Nil append_assoc path_join_def)
      then show ?thesis by blast
    qed (use dir(2) False in \<open>auto simp: path_join_def\<close>)
    then obtain a where join: "path_join base dir = a @ CHR ''/'' # dir" by blast
    have "split_slash (path_join base dir) = split_slash a @ [dir]" by (simp add: join split_slash_append dir(1))
    then show ?thesis using dir by (auto simp: allowed_root_def components_def Let_def)
  qed
qed

lemma normal_form_split:
  assumes "normal_form (r @ rest)" "r \<noteq> []"
  shows "\<exists>ns. rest = map Normal ns"
  using assms by (cases r) (auto simp: normal_form_def map_eq_append_conv append_eq_map_conv)

lemma containment_check_contained:
  assumes "containment_check F p roots \<noteq> Escapes" "fs_lookup F p = Inr nd"
  shows "\<exists>r \<in> set roots. \<exists>loc rt. fs_canonicalize F p = Inr loc \<and> fs_canonicalize F r = Inr rt \<and> prefix rt loc"
proof (cases "fs_canonicalize F p")
  case (Inr loc)
  with assms obtain r where "r \<in> set roots" "case fs_canonicalize F r of Inl _ \<Rightarrow> False | Inr rt \<Rightarrow> prefix rt loc"
    by (auto simp: containment_check_def split: if_splits)
  with Inr show ?thesis by (cases "fs_canonicalize F r") auto
qed (use assms in \<open>simp add: containment_check_def\<close>)

text \<open>
  C5: A validated model path cannot leave the allowed directories: it has no NUL byte, it names the same
  place as the path the client asked for, that place is below \<open>models\<close> or \<open>tokenizers\<close> of the base
  directory from wherever the process runs, whatever dots the client used, and if something exists there
  then its real location, links resolved, is below the real location of one of these directories.
\<close>

theorem validated_path_contained:
  assumes "validate_path F base rel = Inr p"
  shows "CHR 0x00 \<notin> set rel \<and> walk cwd p = walk cwd (components (path_join base rel)) \<and>
    (\<exists>dir \<in> {''models'', ''tokenizers''}. prefix (walk cwd (components (path_join base dir))) (walk cwd p)) \<and>
    (\<forall>nd. fs_lookup F p = Inr nd \<longrightarrow>
      (\<exists>dir \<in> {''models'', ''tokenizers''}. \<exists>loc rt. fs_canonicalize F p = Inr loc \<and>
         fs_canonicalize F (components (path_join base dir)) = Inr rt \<and> prefix rt loc))"
proof -
  have norm: "normalize_path (components (path_join base rel)) = Some p" and nul: "CHR 0x00 \<notin> set rel"
    and phys: "containment_check F p (map (allowed_root base) ALLOWED_DIRS) \<noteq> Escapes"
    using assms by (auto simp: validate_path_def Let_def split: if_splits option.splits physical.splits)
  obtain dir r where dir: "dir \<in> set ALLOWED_DIRS" "normalize_path (allowed_root base dir) = Some r" "prefix r p"
    using assms norm by (auto simp: validate_path_def Let_def split: if_splits option.splits)
  obtain cs where "allowed_root base dir = cs @ [Normal dir]" using allowed_root_last [OF dir(1)] by blast
  then have "r \<noteq> []" using dir(2) by (auto simp: normalize_path_def normalize_from_snoc)
  moreover obtain rest where p: "p = r @ rest" using dir(3) by (auto simp: prefix_def)
  ultimately obtain ns where "rest = map Normal ns"
    using normalize_path_walk [OF norm] normal_form_split by blast
  then have "walk cwd p = walk cwd (allowed_root base dir) @ ns"
    using normalize_path_walk [OF dir(2), of cwd] by (simp add: p walk_append)
  moreover have "\<exists>dir \<in> set ALLOWED_DIRS. \<exists>loc rt. fs_canonicalize F p = Inr loc \<and>
      fs_canonicalize F (allowed_root base dir) = Inr rt \<and> prefix rt loc" if "fs_lookup F p = Inr nd" for nd
    using containment_check_contained [OF phys that] by auto
  ultimately show ?thesis
    using nul dir(1) normalize_path_walk [OF norm, of cwd]
    unfolding ALLOWED_DIRS_def allowed_root_def by auto
qed

definition sample_fs :: "string \<Rightarrow> fs" where
  "sample_fs bytes =
     \<lparr>fs_lookup = (\<lambda>p. if p = [Normal ''models'', Normal ''m.gguf''] then Inr (NodeFile (1, 7))
                      else if p = [Normal ''models'', Normal ''manifest.json''] then Inr (NodeFile (1, 8)) else Inl IoNotFound),
      fs_data = (\<lambda>i. if i = (1, 7) then bytes else []), fs_canonicalize = (\<lambda>p. Inr (remove1 CurDir p))\<rparr>"

theorem validated_path_contained_witness:
  "validate_path (sample_fs ''x'') ''.'' ''models/a/../m.gguf'' = Inr [Normal ''models'', Normal ''m.gguf''] \<and>
   prefix [''srv'', ''models''] (walk [''srv''] [Normal ''models'', Normal ''m.gguf''])"
proof -
  have ok: "validate_path (sample_fs ''x'') ''.'' ''models/a/../m.gguf'' = Inr [Normal ''models'', Normal ''m.gguf'']"
    by code_simp
  have dirs: "walk [''srv''] (components (path_join ''.'' ''models'')) = [''srv'', ''models'']"
    "walk [''srv''] (components (path_join ''.'' ''tokenizers'')) = [''srv'', ''tokenizers'']" by code_simp+
  have "\<exists>dir \<in> {''models'', ''tokenizers''}. prefix (walk [''srv''] (components (path_join ''.'' dir)))
      (walk [''srv''] [Normal ''models'', Normal ''m.gguf''])"
    using validated_path_contained [OF ok, of "[''srv'']"] by blast
  with ok show ?thesis by (simp add: dirs)
qed

section \<open>What a manifest guarantees\<close>

text \<open>
  C6: A manifest pins the bytes of the model: when a load with a manifest succeeds, the manifest was well
  formed, the bytes the backend read hash to the declared value, and the model is the one read from these
  bytes by the backend the manifest selects; a mismatch, a link or a replaced file fails the load. The
  hypothesis is about other processes: a file that is at the path both when it is hashed and when it is
  re-checked was there, unchanged, in between.
\<close>

theorem manifest_pins_bytes:
  assumes load: "load_model_dispatch env w p m = Inr model"
    and manifest: "fs_lookup (w 0) (with_file_name p ''manifest.json'') \<noteq> Inl IoNotFound"
    and stable: "\<And>nd nd'. fs_lookup (w 2) p = Inr nd \<Longrightarrow> fs_lookup (w 4) p = Inr nd' \<Longrightarrow> node_id nd = node_id nd' \<Longrightarrow>
      fs_follow (w 3) p = Inr nd \<and> fs_data (w 3) (node_id nd) = fs_data (w 2) (node_id nd)"
  shows "\<exists>mf bytes. manifest_from_file (le_parse env) (le_show_io env) (w 1) (with_file_name p ''manifest.json'') = Inr mf \<and>
    manifest_validate mf = Inr () \<and> read_file (w 3) p = Inr bytes \<and>
    to_ascii_lowercase (le_sha256 env bytes) = to_ascii_lowercase (mf_sha256 mf) \<and>
    load_backend env (w 3) (choose_backend (Some mf)) p m = Inr model"
proof -
  obtain mf where mf: "read_sibling_manifest (le_parse env) (le_show_io env) (le_disp env) (w 0) (w 1) p = Inr (Some mf)"
    "manifest_from_file (le_parse env) (le_show_io env) (w 1) (with_file_name p ''manifest.json'') = Inr mf"
    "manifest_validate mf = Inr ()"
    using load manifest
    by (auto simp: load_model_dispatch_def read_sibling_manifest_def Let_def split: sum.splits io_error.splits)
  obtain i where i: "verify_manifest_hash (le_sha256 env) (le_show_io env) (le_disp env) (w 2) p mf = Inr i"
    and backend: "load_backend env (w 3) (choose_backend (Some mf)) p m = Inr model"
    and same: "check_identity_unchanged (le_show_io env) (le_disp env) (w 4) p i = Inr ()"
    using load mf(1) by (auto simp: load_model_dispatch_def split: sum.splits)
  obtain nd bytes where nd: "fs_lookup (w 2) p = Inr nd" "read_handle (w 2) nd = Inr bytes" "i = identity_of (w 2) nd"
    and hash: "to_ascii_lowercase (le_sha256 env bytes) = to_ascii_lowercase (mf_sha256 mf)"
    using i by (auto simp: verify_manifest_hash_def hash_file_def open_nofollow_def open_file_nofollow_def
        eq_ignore_ascii_case_def split: sum.splits if_splits io_error.splits node.splits)
  obtain nd' where "fs_lookup (w 4) p = Inr nd'" "identity_of (w 4) nd' = i"
    using same by (auto simp: check_identity_unchanged_def at_path_def split: sum.splits if_splits)
  then have "fs_follow (w 3) p = Inr nd" "fs_data (w 3) (node_id nd) = fs_data (w 2) (node_id nd)"
    using stable [OF nd(1)] nd(3) by (auto simp: identity_of_def prod_eq_iff)
  then have "read_file (w 3) p = Inr bytes" using nd(2) by (cases nd) (auto simp: read_file_def)
  with mf backend hash show ?thesis by blast
qed

definition sample_manifest :: model_manifest where
  "sample_manifest =
     \<lparr>mf_model_id = ''m'', mf_name = ''m'', mf_version = ''1'', mf_capabilities = [CapTextGeneration],
      mf_sha256 = replicate 64 (CHR ''a''), mf_size_bytes = 1, mf_architecture = ArchGguf, mf_license = [], mf_labels = None\<rparr>"

text \<open>An environment whose digest is all \<open>a\<close> for the bytes \<open>x\<close> only, and whose models keep their bytes as id.\<close>

definition sample_env :: load_env where
  "sample_env =
     \<lparr>le_parse = (\<lambda>_. Inr sample_manifest), le_sha256 = (\<lambda>b. replicate 64 (if b = ''x'' then CHR ''A'' else CHR ''b'')),
      le_show_io = (\<lambda>_. []), le_disp = (\<lambda>_. []),
      le_native = \<lparr>nr_llama = (\<lambda>_ b. Inr (sample_llama, length b)), nr_onnx = (\<lambda>_ _ _. Inl [])\<rparr>,
      le_gguf = \<lparr>ge_n_ctx = 128, ge_n_threads = 0\<rparr>\<rparr>"

lemmas load_defs = load_model_dispatch_def read_sibling_manifest_def manifest_from_file_def manifest_from_json_def
  manifest_validate_def verify_manifest_hash_def hash_file_def open_nofollow_def open_file_nofollow_def
  eq_ignore_ascii_case_def choose_backend_def load_backend_def load_gguf_model_def generator_load_def path_exists_def
  read_file_def fs_follow_def check_identity_unchanged_def at_path_def identity_of_def with_file_name_def file_name_def
  sample_env_def sample_fs_def sample_manifest_def Let_def

lemma sample_digests:
  "to_ascii_lowercase (replicate 64 (CHR ''A'')) = to_ascii_lowercase (replicate 64 (CHR ''a''))"
  "to_ascii_lowercase (replicate 64 (CHR ''b'')) \<noteq> to_ascii_lowercase (replicate 64 (CHR ''a''))"
  by code_simp+

theorem manifest_pins_bytes_witness:
  "\<exists>model bytes. load_model_dispatch sample_env (\<lambda>_. sample_fs ''x'') [Normal ''models'', Normal ''m.gguf''] ''m'' = Inr model \<and>
     read_file (sample_fs ''x'') [Normal ''models'', Normal ''m.gguf''] = Inr bytes \<and>
     to_ascii_lowercase (le_sha256 sample_env bytes) = to_ascii_lowercase (mf_sha256 sample_manifest)"
proof -
  let ?p = "[Normal ''models'', Normal ''m.gguf'']" and ?w = "\<lambda>_. sample_fs ''x''"
  obtain model where load: "load_model_dispatch sample_env ?w ?p ''m'' = Inr model"
    using sample_digests by (simp add: load_defs)
  have manifest: "fs_lookup (sample_fs ''x'') (with_file_name ?p ''manifest.json'') \<noteq> Inl IoNotFound"
    by (simp add: sample_fs_def with_file_name_def file_name_def)
  have "fs_follow (sample_fs ''x'') ?p = fs_lookup (sample_fs ''x'') ?p" by (simp add: sample_fs_def fs_follow_def)
  then obtain mf bytes where "manifest_from_file (le_parse sample_env) (le_show_io sample_env) (sample_fs ''x'')
      (with_file_name ?p ''manifest.json'') = Inr mf" "read_file (sample_fs ''x'') ?p = Inr bytes"
    "to_ascii_lowercase (le_sha256 sample_env bytes) = to_ascii_lowercase (mf_sha256 mf)"
    using manifest_pins_bytes [OF load manifest] by auto
  moreover from this(1) have "mf = sample_manifest"
    by (auto simp: manifest_from_file_def manifest_from_json_def sample_env_def split: sum.splits)
  ultimately show ?thesis using load by blast
qed

text \<open>
  The hypothesis is needed: a file that is swapped in while the backend reads and swapped out again before
  the re-check is loaded although its hash is not the declared one.
\<close>

lemma substitution_and_back_undetected:
  "let w = (\<lambda>i :: nat. if i = 3 then (sample_fs ''xy'')\<lparr>fs_data := (\<lambda>_. ''evil'')\<rparr> else sample_fs ''x'') in
   \<exists>model. load_model_dispatch sample_env w [Normal ''models'', Normal ''m.gguf''] ''m'' = Inr model \<and>
     read_file (w 3) [Normal ''models'', Normal ''m.gguf''] = Inr ''evil'' \<and>
     to_ascii_lowercase (le_sha256 sample_env ''evil'') \<noteq> to_ascii_lowercase (mf_sha256 sample_manifest)"
  using sample_digests by (simp add: load_defs)

section \<open>Failed loads\<close>

text \<open>
  A failed load leaves nothing behind: when loading from a path fails, in validation, in the backend
  or because the id is taken, the registry, the engine and the index are exactly as before; when it
  succeeds, the new model is served under its id and nothing else has changed its place.
\<close>

theorem load_is_all_or_nothing:
  assumes "load_model_from_path env w now base rel mid lc = (res, lc')"
  shows "(\<forall>e. res = Inl e \<longrightarrow> lc' = lc) \<and>
    (\<forall>m h. res = Inr (m, h) \<longrightarrow>
       \<not> is_loaded lc m \<and> get_handle lc' m = Some h \<and> has_model (ml_engine lc') m \<and>
       (\<exists>p. validate_path (w 0) base rel = Inr p) \<and>
       (\<forall>m'. m' \<noteq> m \<longrightarrow> get_handle lc' m' = get_handle lc m' \<and> get_model (ml_engine lc') m' = get_model (ml_engine lc) m'))"
  using assms
  by (auto simp: load_model_from_path_def prepare_model_def register_prepared_def lifecycle_load_def register_def
      register_with_format_def index_insert_def register_model_def get_model_def table_defs Let_def
      split: sum.splits if_splits)

theorem load_is_all_or_nothing_witness:
  "\<exists>res lc. load_model_from_path sample_env (\<lambda>_. sample_fs ''x'') 0 ''.'' ''../etc/passwd'' None
       (lifecycle_new registry_new (engine_new 8)) = (res, lc) \<and> isl res \<and> lc = lifecycle_new registry_new (engine_new 8)"
proof -
  let ?lc = "lifecycle_new registry_new (engine_new 8)"
  have bad: "isl (validate_path (sample_fs ''x'') ''.'' ''../etc/passwd'')" by code_simp
  obtain res lc where run: "load_model_from_path sample_env (\<lambda>_. sample_fs ''x'') 0 ''.'' ''../etc/passwd'' None ?lc = (res, lc)"
    by (meson surj_pair)
  have "isl res" using run bad by (auto simp: load_model_from_path_def prepare_model_def split: sum.splits)
  with load_is_all_or_nothing [OF run] run show ?thesis by (auto simp: isl_def)
qed

end
