(* ===== verification/Model_Swap.thy ===== *)
theory Model_Swap
  imports Model_Loading
begin

text \<open>
  Hot swapping of models: the routing table (\<open>models/router.rs\<close>), the tracker of requests in flight
  (\<open>models/drain.rs\<close>), preloading (\<open>models/preload.rs\<close>) and the swap itself (\<open>models/swap.rs\<close>). Each
  operation on a table takes that table's own lock, so the step relation of the last sections interleaves
  the swaps and the requests between these operations.
\<close>

section \<open>Router\<close>

type_synonym router = "(string, model_handle) hash_map"

datatype router_error = RouteExists string

definition resolve :: "router \<Rightarrow> string \<Rightarrow> model_handle option" where
  "resolve rt m = map_of rt m"

definition add_route :: "string \<Rightarrow> model_handle \<Rightarrow> router \<Rightarrow> (router_error + unit) \<times> router" where
  "add_route m h rt = (if map_of rt m \<noteq> None then (Inl (RouteExists m), rt) else (Inr (), AList.update m h rt))"

definition swap_route :: "string \<Rightarrow> model_handle \<Rightarrow> router \<Rightarrow> model_handle option \<times> router" where
  "swap_route m h rt = (map_of rt m, AList.update m h rt)"

definition remove_route :: "string \<Rightarrow> router \<Rightarrow> model_handle option \<times> router" where
  "remove_route m rt = (map_of rt m, AList.delete m rt)"

definition has_route :: "router \<Rightarrow> string \<Rightarrow> bool" where
  "has_route rt m \<longleftrightarrow> map_of rt m \<noteq> None"

definition route_count :: "router \<Rightarrow> usize" where
  "route_count rt = length rt"

section \<open>Requests in flight\<close>

text \<open>
  A guard keeps its counter alive after the tracker has dropped the entry, so the counters are cells of
  their own. A counter is a \<open>u32\<close>.
\<close>

record flight_tracker =
  ft_in_flight :: "(model_handle, nat) hash_map"
  ft_cells :: "nat \<Rightarrow> u32"
  ft_next :: nat

definition tracker_new :: flight_tracker where
  "tracker_new = \<lparr>ft_in_flight = [], ft_cells = (\<lambda>_. 0), ft_next = 0\<rparr>"

text \<open>\<open>track\<close> takes the counter under the lock and increments it after it.\<close>

definition track_entry :: "model_handle \<Rightarrow> flight_tracker \<Rightarrow> nat \<times> flight_tracker" where
  "track_entry h T =
     (case map_of (ft_in_flight T) h of
        Some c \<Rightarrow> (c, T)
      | None \<Rightarrow>
          (ft_next T,
           T\<lparr>ft_in_flight := AList.update h (ft_next T) (ft_in_flight T), ft_cells := (ft_cells T)(ft_next T := 0),
             ft_next := Suc (ft_next T)\<rparr>))"

definition track_add :: "nat \<Rightarrow> flight_tracker \<Rightarrow> flight_tracker" where
  "track_add c T = T\<lparr>ft_cells := (ft_cells T)(c := ft_cells T c + 1)\<rparr>"

definition guard_drop :: "nat \<Rightarrow> flight_tracker \<Rightarrow> flight_tracker" where
  "guard_drop c T = T\<lparr>ft_cells := (ft_cells T)(c := ft_cells T c - 1)\<rparr>"

definition in_flight_count :: "flight_tracker \<Rightarrow> model_handle \<Rightarrow> u32" where
  "in_flight_count T h = (case map_of (ft_in_flight T) h of None \<Rightarrow> 0 | Some c \<Rightarrow> ft_cells T c)"

definition tracker_remove :: "model_handle \<Rightarrow> flight_tracker \<Rightarrow> flight_tracker" where
  "tracker_remove h T = T\<lparr>ft_in_flight := AList.delete h (ft_in_flight T)\<rparr>"

text \<open>
  One round of the polling loop of \<open>drain\<close>: done, timed out, or sleep and poll again. \<open>drain_loop\<close> runs it on
  the observed counts and clock readings, \<open>fuel\<close> of them at most.
\<close>

datatype drain_round = Drained | DrainTimedOut | DrainSleep

definition drain_poll :: "u32 \<Rightarrow> instant \<Rightarrow> instant \<Rightarrow> drain_round" where
  "drain_poll count now deadline = (if count = 0 then Drained else if deadline \<le> now then DrainTimedOut else DrainSleep)"

fun drain_loop :: "nat \<Rightarrow> (nat \<Rightarrow> u32) \<Rightarrow> (nat \<Rightarrow> instant) \<Rightarrow> instant \<Rightarrow> nat \<Rightarrow> bool option" where
  "drain_loop 0 counts clk deadline k = None"
| "drain_loop (Suc fuel) counts clk deadline k =
     (case drain_poll (counts k) (clk k) deadline of
        Drained \<Rightarrow> Some True
      | DrainTimedOut \<Rightarrow> Some False
      | DrainSleep \<Rightarrow> drain_loop fuel counts clk deadline (Suc k))"

section \<open>Preloading\<close>

datatype preload_error =
    ManifestInvalid string
  | HashMismatch string string
  | PreloadLoadFailed string
  | ValidationFailed string

definition preload_validate :: "model_manifest \<Rightarrow> preload_error + unit" where
  "preload_validate m =
     (if mf_model_id m = [] then Inl (ManifestInvalid ''model_id cannot be empty'')
      else if length (mf_sha256 m) \<noteq> 64 then Inl (ManifestInvalid ''sha256 must be 64 hex characters'')
      else if mf_capabilities m = [] then Inl (ManifestInvalid ''capabilities cannot be empty'')
      else Inr ())"

definition preload :: "instant \<Rightarrow> model_manifest \<Rightarrow> model_registry \<Rightarrow> (preload_error + model_handle) \<times> model_registry" where
  "preload now m R =
     (case preload_validate m of
        Inl e \<Rightarrow> (Inl e, R)
      | Inr _ \<Rightarrow>
          (case register now \<lparr>md_name = mf_name m, md_size_bytes = mf_size_bytes m\<rparr> (mf_size_bytes m) R of
             (h, R') \<Rightarrow> (Inr h, R')))"

definition preload_abort :: "model_handle \<Rightarrow> model_registry \<Rightarrow> model_registry" where
  "preload_abort h R = snd (unregister h R)"

section \<open>Swaps and requests, interleaved\<close>

datatype swap_state = SwapIdle | SwapPreparing | SwapDraining | SwapSwapping

datatype swap_error =
    RouteNotFound string
  | SwapInProgress
  | PreloadFailed preload_error
  | DrainTimeout

text \<open>
  Where a call of \<open>execute_swap\<close> stands: before it has the state, with the state, after resolving, after
  preloading, while draining, after draining, after the route swap, after unregistering, before the state is
  reset (with the result), and done.
\<close>

datatype swap_pc =
    ScStart
  | ScPrepare
  | ScResolved model_handle
  | ScPreloaded model_handle model_handle
  | ScDrain model_handle model_handle
  | ScDrained model_handle model_handle
  | ScSwapping model_handle model_handle
  | ScRouted model_handle model_handle
  | ScUnregistered model_handle model_handle
  | ScReset "swap_error + model_handle \<times> model_handle"
  | ScDone "swap_error + model_handle \<times> model_handle"

text \<open>A request: it resolves its model, takes the counter, counts itself, runs, and drops the guard.\<close>

datatype req_pc =
    RqStart
  | RqResolved model_handle
  | RqEntry model_handle nat
  | RqRunning model_handle nat
  | RqDone

record swap_system =
  sy_state :: swap_state
  sy_registry :: model_registry
  sy_router :: router
  sy_tracker :: flight_tracker
  sy_swaps :: "nat \<Rightarrow> swap_pc"
  sy_reqs :: "nat \<Rightarrow> req_pc"

text \<open>\<open>swap t\<close> asks to replace the model \<open>fst\<close> by the manifest \<open>snd\<close>; \<open>req r\<close> is the model a request names.\<close>

inductive swap_step :: "(nat \<Rightarrow> string \<times> model_manifest) \<Rightarrow> (nat \<Rightarrow> string) \<Rightarrow> swap_system \<Rightarrow> swap_system \<Rightarrow> bool"
  for swap :: "nat \<Rightarrow> string \<times> model_manifest" and req :: "nat \<Rightarrow> string"
where
  busy: "sy_swaps s t = ScStart \<Longrightarrow> sy_state s \<noteq> SwapIdle \<Longrightarrow>
    swap_step swap req s (s\<lparr>sy_swaps := (sy_swaps s)(t := ScDone (Inl SwapInProgress))\<rparr>)"
| enter: "sy_swaps s t = ScStart \<Longrightarrow> sy_state s = SwapIdle \<Longrightarrow>
    swap_step swap req s (s\<lparr>sy_state := SwapPreparing, sy_swaps := (sy_swaps s)(t := ScPrepare)\<rparr>)"
| no_route: "sy_swaps s t = ScPrepare \<Longrightarrow> resolve (sy_router s) (fst (swap t)) = None \<Longrightarrow>
    swap_step swap req s (s\<lparr>sy_swaps := (sy_swaps s)(t := ScReset (Inl (RouteNotFound (fst (swap t)))))\<rparr>)"
| route: "sy_swaps s t = ScPrepare \<Longrightarrow> resolve (sy_router s) (fst (swap t)) = Some old \<Longrightarrow>
    swap_step swap req s (s\<lparr>sy_swaps := (sy_swaps s)(t := ScResolved old)\<rparr>)"
| preload_fails: "sy_swaps s t = ScResolved old \<Longrightarrow> preload now (snd (swap t)) (sy_registry s) = (Inl e, R) \<Longrightarrow>
    swap_step swap req s (s\<lparr>sy_registry := R, sy_swaps := (sy_swaps s)(t := ScReset (Inl (PreloadFailed e)))\<rparr>)"
| preloads: "sy_swaps s t = ScResolved old \<Longrightarrow> preload now (snd (swap t)) (sy_registry s) = (Inr new, R) \<Longrightarrow>
    swap_step swap req s (s\<lparr>sy_registry := R, sy_swaps := (sy_swaps s)(t := ScPreloaded old new)\<rparr>)"
| start_drain: "sy_swaps s t = ScPreloaded old new \<Longrightarrow>
    swap_step swap req s (s\<lparr>sy_state := SwapDraining, sy_swaps := (sy_swaps s)(t := ScDrain old new)\<rparr>)"
| drained: "sy_swaps s t = ScDrain old new \<Longrightarrow> drain_poll (in_flight_count (sy_tracker s) old) now deadline = Drained \<Longrightarrow>
    swap_step swap req s (s\<lparr>sy_swaps := (sy_swaps s)(t := ScDrained old new)\<rparr>)"
| drain_timeout: "sy_swaps s t = ScDrain old new \<Longrightarrow> drain_poll (in_flight_count (sy_tracker s) old) now deadline = DrainTimedOut \<Longrightarrow>
    swap_step swap req s (s\<lparr>sy_registry := preload_abort new (sy_registry s), sy_swaps := (sy_swaps s)(t := ScReset (Inl DrainTimeout))\<rparr>)"
| start_swap: "sy_swaps s t = ScDrained old new \<Longrightarrow>
    swap_step swap req s (s\<lparr>sy_state := SwapSwapping, sy_swaps := (sy_swaps s)(t := ScSwapping old new)\<rparr>)"
| swap_routes: "sy_swaps s t = ScSwapping old new \<Longrightarrow>
    swap_step swap req s (s\<lparr>sy_router := snd (swap_route (fst (swap t)) new (sy_router s)), sy_swaps := (sy_swaps s)(t := ScRouted old new)\<rparr>)"
| unregisters: "sy_swaps s t = ScRouted old new \<Longrightarrow>
    swap_step swap req s (s\<lparr>sy_registry := snd (unregister old (sy_registry s)), sy_swaps := (sy_swaps s)(t := ScUnregistered old new)\<rparr>)"
| forgets: "sy_swaps s t = ScUnregistered old new \<Longrightarrow>
    swap_step swap req s (s\<lparr>sy_tracker := tracker_remove old (sy_tracker s), sy_swaps := (sy_swaps s)(t := ScReset (Inr (old, new)))\<rparr>)"
| reset: "sy_swaps s t = ScReset res \<Longrightarrow>
    swap_step swap req s (s\<lparr>sy_state := SwapIdle, sy_swaps := (sy_swaps s)(t := ScDone res)\<rparr>)"
| req_resolve: "sy_reqs s r = RqStart \<Longrightarrow> resolve (sy_router s) (req r) = Some h \<Longrightarrow>
    swap_step swap req s (s\<lparr>sy_reqs := (sy_reqs s)(r := RqResolved h)\<rparr>)"
| req_entry: "sy_reqs s r = RqResolved h \<Longrightarrow> track_entry h (sy_tracker s) = (c, T) \<Longrightarrow>
    swap_step swap req s (s\<lparr>sy_tracker := T, sy_reqs := (sy_reqs s)(r := RqEntry h c)\<rparr>)"
| req_count: "sy_reqs s r = RqEntry h c \<Longrightarrow>
    swap_step swap req s (s\<lparr>sy_tracker := track_add c (sy_tracker s), sy_reqs := (sy_reqs s)(r := RqRunning h c)\<rparr>)"
| req_finish: "sy_reqs s r = RqRunning h c \<Longrightarrow>
    swap_step swap req s (s\<lparr>sy_tracker := guard_drop c (sy_tracker s), sy_reqs := (sy_reqs s)(r := RqDone)\<rparr>)"

text \<open>A system at rest: routes to registered models, each handle routed once, no swap and no request under way.\<close>

definition swap_init :: "swap_system \<Rightarrow> bool" where
  "swap_init s \<longleftrightarrow>
     sy_state s = SwapIdle \<and> (\<forall>t. sy_swaps s t = ScStart) \<and> (\<forall>r. sy_reqs s r = RqStart) \<and>
     inj_on (map_of (sy_router s)) (dom (map_of (sy_router s))) \<and>
     (\<forall>h \<in> ran (map_of (sy_router s)). registry_contains (sy_registry s) h) \<and>
     (\<forall>h. registry_contains (sy_registry s) h \<longrightarrow> h < mr_next_id (sy_registry s)) \<and> mr_next_id (sy_registry s) < two64"

section \<open>Routes lead to registered models\<close>

text \<open>The handles of a swap that is under way: the one it replaces and the one it brings in.\<close>

fun swap_active :: "swap_pc \<Rightarrow> bool" where
  "swap_active ScStart = False"
| "swap_active (ScDone _) = False"
| "swap_active _ = True"

text \<open>
  What holds of a swap of the model \<open>m\<close> at each point: before the route swap the old handle is routed and the
  new one is registered and not routed; after it the new one is routed and the old one is not.
\<close>

fun swap_pc_ok :: "swap_system \<Rightarrow> string \<Rightarrow> swap_pc \<Rightarrow> bool" where
  "swap_pc_ok s m (ScResolved old) \<longleftrightarrow> map_of (sy_router s) m = Some old"
| "swap_pc_ok s m (ScPreloaded old new) \<longleftrightarrow> map_of (sy_router s) m = Some old \<and> registry_contains (sy_registry s) new \<and> new \<notin> ran (map_of (sy_router s))"
| "swap_pc_ok s m (ScDrain old new) \<longleftrightarrow> map_of (sy_router s) m = Some old \<and> registry_contains (sy_registry s) new \<and> new \<notin> ran (map_of (sy_router s))"
| "swap_pc_ok s m (ScDrained old new) \<longleftrightarrow> map_of (sy_router s) m = Some old \<and> registry_contains (sy_registry s) new \<and> new \<notin> ran (map_of (sy_router s))"
| "swap_pc_ok s m (ScSwapping old new) \<longleftrightarrow> map_of (sy_router s) m = Some old \<and> registry_contains (sy_registry s) new \<and> new \<notin> ran (map_of (sy_router s))"
| "swap_pc_ok s m (ScRouted old new) \<longleftrightarrow> old \<notin> ran (map_of (sy_router s))"
| "swap_pc_ok s m _ \<longleftrightarrow> True"

definition tables_ok :: "nat \<Rightarrow> swap_system \<Rightarrow> bool" where
  [inv_defs]: "tables_ok k s \<longleftrightarrow>
     inj_on (map_of (sy_router s)) (dom (map_of (sy_router s))) \<and>
     (\<forall>h \<in> ran (map_of (sy_router s)). registry_contains (sy_registry s) h) \<and>
     (\<forall>h. registry_contains (sy_registry s) h \<longrightarrow> h < mr_next_id (sy_registry s)) \<and>
     mr_next_id (sy_registry s) \<le> k"

definition swap_inv :: "(nat \<Rightarrow> string \<times> model_manifest) \<Rightarrow> nat \<Rightarrow> swap_system \<Rightarrow> bool" where
  [inv_defs]: "swap_inv swap k s \<longleftrightarrow>
     tables_ok k s \<and>
     (\<forall>t t'. swap_active (sy_swaps s t) \<and> swap_active (sy_swaps s t') \<longrightarrow> t = t') \<and>
     ((\<exists>t. swap_active (sy_swaps s t)) \<longleftrightarrow> sy_state s \<noteq> SwapIdle) \<and>
     (\<forall>t. swap_pc_ok s (fst (swap t)) (sy_swaps s t))"

lemma swap_pc_ok_inactive: "\<not> swap_active pc \<Longrightarrow> swap_pc_ok s m pc"
  by (cases pc) auto

lemma swap_pc_ok_cong:
  "sy_router s' = sy_router s \<Longrightarrow> sy_registry s' = sy_registry s \<Longrightarrow> swap_pc_ok s' m pc = swap_pc_ok s m pc"
  by (cases pc) auto

text \<open>A move of the swap that holds the state, or that takes it.\<close>

lemma swap_inv_move:
  assumes "swap_inv swap k s" "swap_active (sy_swaps s t) \<or> sy_state s = SwapIdle"
    and "sy_swaps s' = (sy_swaps s)(t := pc)" "sy_state s' \<noteq> SwapIdle \<longleftrightarrow> swap_active pc"
    and "tables_ok k' s'" "swap_pc_ok s' (fst (swap t)) pc"
  shows "swap_inv swap k' s'"
proof -
  have "\<not> swap_active (sy_swaps s u)" if "u \<noteq> t" for u
    using assms(1,2) that unfolding swap_inv_def by blast
  with assms(3-6) show ?thesis
    unfolding swap_inv_def by (auto simp: swap_pc_ok_inactive)
qed

lemma swap_inv_unrelated:
  assumes "swap_inv swap k s" "sy_router s' = sy_router s" "sy_registry s' = sy_registry s" "sy_state s' = sy_state s"
    "sy_swaps s' = sy_swaps s"
  shows "swap_inv swap k s'"
  using assms by (simp add: swap_inv_def tables_ok_def swap_pc_ok_cong [of s' s])

lemma swap_inv_mono: "swap_inv swap k s \<Longrightarrow> swap_inv swap (Suc k) s"
  by (auto simp: swap_inv_def tables_ok_def)

lemma swap_inv_rejected:
  assumes "swap_inv swap k s" "sy_swaps s t = ScStart"
  shows "swap_inv swap k (s\<lparr>sy_swaps := (sy_swaps s)(t := ScDone res)\<rparr>)"
proof -
  have *: "swap_active (((sy_swaps s)(t := ScDone res)) u) = swap_active (sy_swaps s u)" for u
    using assms(2) by simp
  have "swap_pc_ok (s\<lparr>sy_swaps := (sy_swaps s)(t := ScDone res)\<rparr>) m pc = swap_pc_ok s m pc" for m pc
    by (rule swap_pc_ok_cong) simp_all
  with assms(1) * show ?thesis
    unfolding swap_inv_def tables_ok_def by (auto simp: swap_pc_ok_inactive)
qed

lemma preload_registry:
  assumes "preload now m R = (Inr h, R')" "mr_next_id R + 1 < two64"
  shows "h = mr_next_id R" "mr_next_id R' = Suc h" "registry_contains R' x \<longleftrightarrow> x = h \<or> registry_contains R x"
  using assms
  by (auto simp: preload_def register_def register_with_format_def registry_contains_def Let_def split: sum.splits)

lemma swap_inv_pc:
  assumes "swap_inv swap k s" "sy_swaps s t = pc"
  shows "swap_pc_ok s (fst (swap t)) pc" "tables_ok k s"
  using assms by (auto simp: swap_inv_def)

lemma swap_inv_step:
  assumes "swap_step swap req s s'" "swap_inv swap k s" "Suc k < two64"
  shows "swap_inv swap (Suc k) s'"
proof -
  have held: "swap_active (sy_swaps s t) \<Longrightarrow> sy_state s \<noteq> SwapIdle" for t
    using assms(2) by (auto simp: swap_inv_def)
  show ?thesis
    using assms(1)
  proof cases
    case (busy t)
    with swap_inv_rejected assms(2) swap_inv_mono show ?thesis by simp
  next
    case (enter t)
    with swap_inv_pc(1) [where t = t, OF assms(2) refl] swap_inv_pc(2) [OF assms(2) refl] show ?thesis
      by (intro swap_inv_move [OF assms(2), of t]) (auto simp: tables_ok_def)
  next
    case (no_route t)
    with swap_inv_pc(1) [where t = t, OF assms(2) refl] swap_inv_pc(2) [OF assms(2) refl] show ?thesis
      by (intro swap_inv_move [OF assms(2), of t]) (use held [of t] in \<open>auto simp: tables_ok_def\<close>)
  next
    case (route t old)
    with swap_inv_pc(1) [where t = t, OF assms(2) refl] swap_inv_pc(2) [OF assms(2) refl] show ?thesis
      by (intro swap_inv_move [OF assms(2), of t]) (use held [of t] in \<open>auto simp: tables_ok_def resolve_def\<close>)
  next
    case (preload_fails t old now e R)
    then have "R = sy_registry s" by (auto simp: preload_def split: sum.splits prod.splits)
    with preload_fails swap_inv_pc(1) [where t = t, OF assms(2) refl] swap_inv_pc(2) [OF assms(2) refl] show ?thesis
      by (intro swap_inv_move [OF assms(2), of t]) (use held [of t] in \<open>auto simp: tables_ok_def\<close>)
  next
    case (preloads t old now new R)
    have old: "map_of (sy_router s) (fst (swap t)) = Some old" and tables: "tables_ok k s"
      using swap_inv_pc [OF assms(2) preloads(2)] by auto
    from tables assms(3) have "mr_next_id (sy_registry s) + 1 < two64" by (auto simp: tables_ok_def)
    note R = preload_registry [OF preloads(3) this]
    have "new \<notin> ran (map_of (sy_router s))" using tables R(1) unfolding tables_ok_def by blast
    with preloads old tables R show ?thesis
      by (intro swap_inv_move [OF assms(2), of t]) (use held [of t] in \<open>auto simp: tables_ok_def less_Suc_eq\<close>)
  next
    case (start_drain t old new)
    with swap_inv_pc(1) [where t = t, OF assms(2) refl] swap_inv_pc(2) [OF assms(2) refl] show ?thesis
      by (intro swap_inv_move [OF assms(2), of t]) (auto simp: tables_ok_def)
  next
    case (drained t old new)
    with swap_inv_pc(1) [where t = t, OF assms(2) refl] swap_inv_pc(2) [OF assms(2) refl] show ?thesis
      by (intro swap_inv_move [OF assms(2), of t]) (use held [of t] in \<open>auto simp: tables_ok_def\<close>)
  next
    case (drain_timeout t old new)
    with swap_inv_pc(1) [where t = t, OF assms(2) refl] swap_inv_pc(2) [OF assms(2) refl] show ?thesis
      by (intro swap_inv_move [OF assms(2), of t])
        (use held [of t] in \<open>auto simp: tables_ok_def preload_abort_def unregister_def registry_contains_def split: if_splits\<close>)
  next
    case (start_swap t old new)
    with swap_inv_pc(1) [where t = t, OF assms(2) refl] swap_inv_pc(2) [OF assms(2) refl] show ?thesis
      by (intro swap_inv_move [OF assms(2), of t]) (auto simp: tables_ok_def)
  next
    case (swap_routes t old new)
    let ?rt = "map_of (sy_router s)" and ?m = "fst (swap t)"
    have *: "?rt ?m = Some old" "registry_contains (sy_registry s) new" "new \<notin> ran ?rt" and tables: "tables_ok k s"
      using swap_inv_pc [OF assms(2) swap_routes(2)] by auto
    have "inj_on (?rt(?m \<mapsto> new)) (dom (?rt(?m \<mapsto> new)))" "ran (?rt(?m \<mapsto> new)) \<subseteq> insert new (ran ?rt)"
      using tables *(3) by (auto simp: tables_ok_def inj_on_def ran_def)
    moreover have "old \<notin> ran (?rt(?m \<mapsto> new))"
      using tables * by (auto simp: tables_ok_def inj_on_def ran_def dom_def split: if_splits)
    ultimately show ?thesis
      using swap_routes * tables
      by (intro swap_inv_move [OF assms(2), of t]) (use held [of t] in \<open>auto simp: tables_ok_def swap_route_def\<close>)
  next
    case (unregisters t old new)
    with swap_inv_pc(1) [where t = t, OF assms(2) refl] swap_inv_pc(2) [OF assms(2) refl] show ?thesis
      by (intro swap_inv_move [OF assms(2), of t])
        (use held [of t] in \<open>auto simp: tables_ok_def unregister_def registry_contains_def split: if_splits\<close>)
  next
    case (forgets t old new)
    with swap_inv_pc(1) [where t = t, OF assms(2) refl] swap_inv_pc(2) [OF assms(2) refl] show ?thesis
      by (intro swap_inv_move [OF assms(2), of t]) (use held [of t] in \<open>auto simp: tables_ok_def\<close>)
  next
    case (reset t res)
    with swap_inv_pc(1) [where t = t, OF assms(2) refl] swap_inv_pc(2) [OF assms(2) refl] show ?thesis
      by (intro swap_inv_move [OF assms(2), of t]) (auto simp: tables_ok_def)
  next
    case (req_resolve r h)
    then show ?thesis using swap_inv_unrelated [OF swap_inv_mono [OF assms(2)]] by simp
  next
    case (req_entry r h c T)
    then show ?thesis using swap_inv_unrelated [OF swap_inv_mono [OF assms(2)]] by simp
  next
    case (req_count r h c)
    then show ?thesis using swap_inv_unrelated [OF swap_inv_mono [OF assms(2)]] by simp
  next
    case (req_finish r h c)
    then show ?thesis using swap_inv_unrelated [OF swap_inv_mono [OF assms(2)]] by simp
  qed
qed

text \<open>Runs of a given number of steps: the number bounds the handles given out.\<close>

inductive swap_run :: "(nat \<Rightarrow> string \<times> model_manifest) \<Rightarrow> (nat \<Rightarrow> string) \<Rightarrow> nat \<Rightarrow> swap_system \<Rightarrow> swap_system \<Rightarrow> bool"
  for swap :: "nat \<Rightarrow> string \<times> model_manifest" and req :: "nat \<Rightarrow> string"
where
  run_none: "swap_run swap req 0 s s"
| run_more: "swap_run swap req n s s1 \<Longrightarrow> swap_step swap req s1 s2 \<Longrightarrow> swap_run swap req (Suc n) s s2"

lemma swap_inv_init: "swap_init s \<Longrightarrow> swap_inv swap (mr_next_id (sy_registry s)) s"
  by (simp add: swap_init_def swap_inv_def tables_ok_def)

lemma swap_inv_run:
  assumes "swap_run swap req n s0 s" "swap_init s0" "mr_next_id (sy_registry s0) + n < two64"
  shows "swap_inv swap (mr_next_id (sy_registry s0) + n) s"
  using assms
proof (induction rule: swap_run.induct)
  case (run_more n s s1 s2)
  then have "swap_inv swap (mr_next_id (sy_registry s) + n) s1" by simp
  from swap_inv_step [OF run_more.hyps(2) this] run_more.prems(2) show ?case by simp
qed (simp add: swap_inv_init)

lemma swap_step_routes:
  assumes "swap_step swap req s s'" "swap_inv swap k s"
  shows "dom (map_of (sy_router s')) = dom (map_of (sy_router s))"
  using assms(1)
proof cases
  case (swap_routes t old new)
  have "map_of (sy_router s) (fst (swap t)) = Some old"
    using swap_inv_pc(1) [OF assms(2) swap_routes(2)] by simp
  with swap_routes show ?thesis by (auto simp: swap_route_def)
qed simp_all


definition sample_swap :: "nat \<Rightarrow> string \<times> model_manifest" where
  "sample_swap t = (''a'', sample_manifest)"

definition sample_system :: swap_system where
  "sample_system =
     \<lparr>sy_state = SwapIdle, sy_registry = snd (register 0 sample_metadata 4 registry_new), sy_router = [(''a'', 1)],
      sy_tracker = tracker_new, sy_swaps = (\<lambda>_. ScStart), sy_reqs = (\<lambda>_. RqStart)\<rparr>"

lemma sample_init: "swap_init sample_system"
  by (simp add: swap_init_def sample_system_def registry_defs Let_def two64_numeral)

lemma sample_preload: "\<exists>R. preload 0 sample_manifest (sy_registry sample_system) = (Inr 2, R)"
  by (simp add: sample_system_def preload_def preload_validate_def sample_manifest_def registry_defs Let_def two64_numeral)

text \<open>The steps of one whole swap, with a request that has resolved the old handle before and counts itself after.\<close>

lemma sample_race:
  "\<exists>s. swap_run sample_swap (\<lambda>_. ''a'') 11 sample_system s \<and>
     sy_reqs s 0 = RqRunning 1 0 \<and> \<not> registry_contains (sy_registry s) 1 \<and> resolve (sy_router s) ''a'' = Some 2"
proof -
  obtain R where R: "preload 0 sample_manifest (sy_registry sample_system) = (Inr 2, R)" using sample_preload by blast
  let ?req = "\<lambda>_ :: nat. ''a''" and ?step = "swap_step sample_swap (\<lambda>_. ''a'')"
  define s1 where "s1 = sample_system\<lparr>sy_reqs := (sy_reqs sample_system)(0 := RqResolved 1)\<rparr>"
  define s2 where "s2 = s1\<lparr>sy_state := SwapPreparing, sy_swaps := (sy_swaps s1)(0 := ScPrepare)\<rparr>"
  define s3 where "s3 = s2\<lparr>sy_swaps := (sy_swaps s2)(0 := ScResolved 1)\<rparr>"
  define s4 where "s4 = s3\<lparr>sy_registry := R, sy_swaps := (sy_swaps s3)(0 := ScPreloaded 1 2)\<rparr>"
  define s5 where "s5 = s4\<lparr>sy_state := SwapDraining, sy_swaps := (sy_swaps s4)(0 := ScDrain 1 2)\<rparr>"
  define s6 where "s6 = s5\<lparr>sy_swaps := (sy_swaps s5)(0 := ScDrained 1 2)\<rparr>"
  define s7 where "s7 = s6\<lparr>sy_state := SwapSwapping, sy_swaps := (sy_swaps s6)(0 := ScSwapping 1 2)\<rparr>"
  define s8 where "s8 = s7\<lparr>sy_router := snd (swap_route (fst (sample_swap 0)) 2 (sy_router s7)), sy_swaps := (sy_swaps s7)(0 := ScRouted 1 2)\<rparr>"
  define s9 where "s9 = s8\<lparr>sy_registry := snd (unregister 1 (sy_registry s8)), sy_swaps := (sy_swaps s8)(0 := ScUnregistered 1 2)\<rparr>"
  define s10 where "s10 = s9\<lparr>sy_tracker := snd (track_entry 1 (sy_tracker s9)), sy_reqs := (sy_reqs s9)(0 := RqEntry 1 0)\<rparr>"
  define s11 where "s11 = s10\<lparr>sy_tracker := track_add 0 (sy_tracker s10), sy_reqs := (sy_reqs s10)(0 := RqRunning 1 0)\<rparr>"
  note defs = s1_def s2_def s3_def s4_def s5_def s6_def s7_def s8_def s9_def s10_def s11_def
  have st1: "?step sample_system s1" unfolding s1_def by (rule req_resolve) (simp_all add: sample_system_def resolve_def)
  have st2: "?step s1 s2" unfolding s2_def by (rule enter) (simp_all add: s1_def sample_system_def)
  have st3: "?step s2 s3" unfolding s3_def by (rule route) (simp_all add: defs sample_system_def sample_swap_def resolve_def)
  have st4: "?step s3 s4" unfolding s4_def by (rule preloads [where now = 0]) (simp_all add: defs R sample_swap_def)
  have st5: "?step s4 s5" unfolding s5_def by (rule start_drain) (simp add: defs)
  have st6: "?step s5 s6" unfolding s6_def
    by (rule drained [where now = 0 and deadline = 0]) (simp_all add: defs drain_poll_def in_flight_count_def sample_system_def tracker_new_def)
  have st7: "?step s6 s7" unfolding s7_def by (rule start_swap) (simp add: defs)
  have st8: "?step s7 s8" unfolding s8_def by (rule swap_routes) (simp add: defs)
  have st9: "?step s8 s9" unfolding s9_def by (rule unregisters) (simp add: defs)
  have st10: "?step s9 s10" unfolding s10_def
    by (rule req_entry [where h = 1]) (simp_all add: defs sample_system_def tracker_new_def track_entry_def)
  have st11: "?step s10 s11" unfolding s11_def by (rule req_count) (simp add: defs)
  note r1 = run_more [OF run_none st1]
  note r2 = run_more [OF r1 st2]
  note r3 = run_more [OF r2 st3]
  note r4 = run_more [OF r3 st4]
  note r5 = run_more [OF r4 st5]
  note r6 = run_more [OF r5 st6]
  note r7 = run_more [OF r6 st7]
  note r8 = run_more [OF r7 st8]
  note r9 = run_more [OF r8 st9]
  note r10 = run_more [OF r9 st10]
  note r11 = run_more [OF r10 st11]
  have "swap_run sample_swap ?req 11 sample_system s11" using r11 by (simp add: numeral_eq_Suc)
  moreover have "sy_reqs s11 0 = RqRunning 1 0" "\<not> registry_contains (sy_registry s11) 1" "resolve (sy_router s11) ''a'' = Some 2"
    by (simp_all add: defs registry_contains_def unregister_def resolve_def swap_route_def sample_swap_def sample_system_def)
  ultimately show ?thesis by blast
qed


text \<open>
  Draining does not keep new requests away from the old model: a request that resolved its handle before the
  swap and counts itself after the drain runs on a model that is no longer registered.
\<close>

lemma swap_unregisters_model_in_use:
  "\<exists>s n. swap_run sample_swap (\<lambda>_. ''a'') n sample_system s \<and> swap_init sample_system \<and>
     sy_reqs s 0 = RqRunning 1 0 \<and> \<not> registry_contains (sy_registry s) 1"
  using sample_race sample_init by blast

text \<open>
  The swap does not go through the lifecycle: after a swap of a model that the lifecycle loaded, its index
  still names the old handle, which the registry no longer knows.
\<close>

lemma swap_leaves_lifecycle_stale:
  assumes "get_handle lc m = Some old" "lc' = lc\<lparr>ml_registry := snd (unregister old (ml_registry lc))\<rparr>"
  shows "get_handle lc' m = Some old \<and> \<not> validate_handle lc' old"
  using assms by (simp add: get_handle_def validate_handle_def registry_contains_def unregister_def)

section \<open>Draining ends\<close>

lemma drain_loop_result:
  assumes clock: "\<And>k. clk k + from_millis 10 \<le> clk (Suc k)"
  shows "deadline \<le> clk k + n * from_millis 10 \<Longrightarrow>
    \<exists>b j. drain_loop (Suc n) counts clk deadline k = Some b \<and> k \<le> j \<and> j \<le> k + n \<and> (\<forall>i. k \<le> i \<and> i < j \<longrightarrow> counts i \<noteq> 0) \<and>
      (if b then counts j = 0 else counts j \<noteq> 0 \<and> deadline \<le> clk j)"
proof (induction n arbitrary: k)
  case 0
  then show ?case by (intro exI [of _ "counts k = 0"] exI [of _ k]) (auto simp: drain_poll_def)
next
  case (Suc n)
  show ?case
  proof (cases "counts k = 0 \<or> deadline \<le> clk k")
    case True
    then show ?thesis by (intro exI [of _ "counts k = 0"] exI [of _ k]) (auto simp: drain_poll_def)
  next
    case False
    have "deadline \<le> clk (Suc k) + n * from_millis 10" using Suc.prems clock [of k] by simp
    from Suc.IH [OF this] obtain b j where j: "drain_loop (Suc n) counts clk deadline (Suc k) = Some b" "Suc k \<le> j" "j \<le> Suc k + n"
      "\<forall>i. Suc k \<le> i \<and> i < j \<longrightarrow> counts i \<noteq> 0" "if b then counts j = 0 else counts j \<noteq> 0 \<and> deadline \<le> clk j" by blast
    have "\<forall>i. k \<le> i \<and> i < j \<longrightarrow> counts i \<noteq> 0" using j(4) False by (metis Suc_leI le_neq_implies_less)
    moreover have "drain_loop (Suc (Suc n)) counts clk deadline k = Some b" using False j(1) by (simp add: drain_poll_def)
    ultimately show ?thesis using j(2,3,5) by (intro exI [of _ b] exI [of _ j]) auto
  qed
qed

text \<open>
  Draining always ends: since each round sleeps ten milliseconds, a drain with a timeout of \<open>n\<close> such
  rounds returns after at most \<open>n + 1\<close> polls, whatever the requests do. It reports success at the first poll
  that sees no request in flight, and a timeout only if every poll up to the deadline saw one.
\<close>

theorem drain_terminates:
  assumes "\<And>k. clk k + from_millis 10 \<le> clk (Suc k)" "deadline = clk 0 + n * from_millis 10"
  shows "\<exists>b j. drain_loop (Suc n) counts clk deadline 0 = Some b \<and> j \<le> n \<and> (\<forall>i < j. counts i \<noteq> 0) \<and>
    (if b then counts j = 0 else counts j \<noteq> 0 \<and> deadline \<le> clk j)"
  using drain_loop_result [of clk deadline 0 n counts] assms by auto

theorem drain_terminates_witness:
  "\<exists>b (j :: nat). drain_loop (Suc 3) (\<lambda>k. if k < 2 then 1 else 0) (\<lambda>k. k * 10000000) 30000000 0 = Some b \<and> j \<le> 3 \<and>
     (\<forall>i < j. (if i < 2 then 1 else 0 :: u32) \<noteq> 0) \<and>
     (if b then (if j < 2 then 1 else 0 :: u32) = 0 else (if j < 2 then 1 else 0 :: u32) \<noteq> 0 \<and> 30000000 \<le> j * 10000000)"
  by (rule drain_terminates [of "\<lambda>k. k * 10000000" 30000000 3]) (simp_all add: from_millis_def)

end
