(* ===== verification/Paged_Memory.thy ===== *)
theory Paged_Memory
  imports GG_Prelude
begin

text \<open>
  The page pool under the KV cache (\<open>memory/paged.rs\<close>). A page holds \<open>PAGE_TOKENS\<close> rows of keys and of
  values. The element type is a type with a zero; the pool only moves elements and zeroes them.

  The locale \<open>page_pool\<close> is what the cache relies on: an allocated page is not live, freeing ends
  liveness, neither touches the content of another live page, and a freshly allocated page is blank.
  Inside it, the ownership lemmas of the client are proved once.
\<close>

section \<open>The contract\<close>

locale page_pool =
  fixes alloc :: "'p \<Rightarrow> (nat \<times> 'p) option"
    and free :: "nat list \<Rightarrow> 'p \<Rightarrow> 'p"
    and invar :: "'p \<Rightarrow> bool"
    and live :: "'p \<Rightarrow> nat set"
    and content :: "'p \<Rightarrow> nat \<Rightarrow> 'c"
    and blank :: "'p \<Rightarrow> 'c"
  assumes alloc_Some: "invar p \<Longrightarrow> alloc p = Some (i, p') \<Longrightarrow>
      invar p' \<and> i \<notin> live p \<and> live p' = insert i (live p) \<and> content p' i = blank p' \<and>
      (\<forall>j\<in>live p. content p' j = content p j)"
    and free_live: "invar p \<Longrightarrow> distinct ids \<Longrightarrow> set ids \<subseteq> live p \<Longrightarrow>
      invar (free ids p) \<and> live (free ids p) = live p - set ids \<and>
      (\<forall>j\<in>live p - set ids. content (free ids p) j = content p j)"
begin

text \<open>\<open>own s\<close> is the list of pages that sequence \<open>s\<close> owns.\<close>

definition owns :: "'p \<Rightarrow> ('k \<Rightarrow> nat list) \<Rightarrow> bool" where
  "owns p own \<longleftrightarrow> invar p \<and> (\<forall>s. distinct (own s) \<and> set (own s) \<subseteq> live p) \<and>
     (\<forall>s t. s \<noteq> t \<longrightarrow> set (own s) \<inter> set (own t) = {})"

lemma owns_alloc:
  assumes "owns p own" and "alloc p = Some (i, p')"
  shows "owns p' own" "owns p' (own(s := own s @ [i]))"
    "j \<in> set (own t) \<Longrightarrow> content p' j = content p j \<and> j \<noteq> i"
proof -
  have inv: "invar p" using assms(1) by (simp add: owns_def)
  note a = alloc_Some [OF inv assms(2)]
  from assms(1) a show "owns p' own"
    unfolding owns_def by blast
  from assms(1) a have "\<forall>t. i \<notin> set (own t)"
    unfolding owns_def by blast
  with assms(1) a show "owns p' (own(s := own s @ [i]))"
    unfolding owns_def by auto
  from assms(1) a show "j \<in> set (own t) \<Longrightarrow> content p' j = content p j \<and> j \<noteq> i"
    unfolding owns_def by blast
qed

lemma owns_free_prefix:
  assumes "owns p own"
  shows "owns (free (take n (own s)) p) (own(s := drop n (own s)))"
    "j \<in> set ((own(s := drop n (own s))) t) \<Longrightarrow> content (free (take n (own s)) p) j = content p j"
proof -
  have o: "invar p" "distinct (own s)" "set (own s) \<subseteq> live p"
    using assms by (auto simp: owns_def)
  have f: "invar (free (take n (own s)) p)" "live (free (take n (own s)) p) = live p - set (take n (own s))"
    "\<forall>j\<in>live p - set (take n (own s)). content (free (take n (own s)) p) j = content p j"
    using free_live [OF o(1), of "take n (own s)"] o(2,3) set_take_subset [of n "own s"] by auto
  have sub: "set ((own(s := drop n (own s))) t) \<subseteq> set (own t)" for t
    using set_drop_subset [of n "own s"] by simp
  have dl: "set (drop n (own s)) \<subseteq> live p"
    using o(3) set_drop_subset [of n "own s"] by (rule order_trans [rotated])
  have disj: "set (drop n (own s)) \<inter> set (take n (own s)) = {}"
    using o(2) set_take_disj_set_drop_if_distinct [of "own s" n n] by auto
  have other: "set (own t) \<inter> set (take n (own s)) = {}" if "t \<noteq> s" for t
    using assms that set_take_subset [of n "own s"] unfolding owns_def by blast
  show "owns (free (take n (own s)) p) (own(s := drop n (own s)))"
    unfolding owns_def
  proof (intro conjI allI impI)
    show "invar (free (take n (own s)) p)" by (rule f(1))
    fix t
    show "distinct ((own(s := drop n (own s))) t)"
      using assms by (simp add: owns_def)
    show "set ((own(s := drop n (own s))) t) \<subseteq> live (free (take n (own s)) p)"
      using dl disj other [of t] f(2) assms unfolding owns_def by (cases "t = s") auto
    fix u
    assume "t \<noteq> u"
    then show "set ((own(s := drop n (own s))) t) \<inter> set ((own(s := drop n (own s))) u) = {}"
      using assms sub [of t] sub [of u] unfolding owns_def by blast
  qed
  show "content (free (take n (own s)) p) j = content p j" if "j \<in> set ((own(s := drop n (own s))) t)"
  proof -
    have "j \<in> live p - set (take n (own s))"
      using that assms dl disj other [of t] unfolding owns_def by (auto split: if_splits)
    then show ?thesis using f(3) by blast
  qed
qed

lemma owns_free:
  assumes "owns p own"
  shows "owns (free (own s) p) (own(s := []))"
    "t \<noteq> s \<Longrightarrow> j \<in> set (own t) \<Longrightarrow> content (free (own s) p) j = content p j"
  using owns_free_prefix(1) [OF assms, of "length (own s)" s]
    owns_free_prefix(2) [OF assms, where n = "length (own s)" and s = s and t = t and j = j] by auto

lemma owns_forget: "owns p own \<Longrightarrow> owns p (\<lambda>_. [])"
  by (simp add: owns_def)

end

section \<open>Pages\<close>

definition PAGE_TOKENS :: nat where
  "PAGE_TOKENS = 16"

record 'a page =
  pg_id :: nat
  pg_keys :: "'a list"
  pg_values :: "'a list"
  used_slots :: usize
  pg_hidden_dim :: usize

definition page_new :: "nat \<Rightarrow> usize \<Rightarrow> 'a::zero page" where
  "page_new i d =
     \<lparr>pg_id = i, pg_keys = replicate (PAGE_TOKENS * d) 0, pg_values = replicate (PAGE_TOKENS * d) 0,
      used_slots = 0, pg_hidden_dim = d\<rparr>"

text \<open>\<open>copy_from_slice\<close> into \<open>buf[from..from + length xs]\<close>, for a range inside the buffer.\<close>

definition copy_into :: "nat \<Rightarrow> 'a list \<Rightarrow> 'a list \<Rightarrow> 'a list" where
  "copy_into from xs buf = take from buf @ xs @ drop (from + length xs) buf"

text \<open>
  The flag is False when one of the slice operations panics: a range outside the buffer or a row of
  the wrong length. The keys are copied before the values are looked at.
\<close>

definition page_write :: "nat \<Rightarrow> 'a list \<Rightarrow> 'a list \<Rightarrow> 'a page \<Rightarrow> bool \<times> 'a page" where
  "page_write slot ks vs p =
     (let d = pg_hidden_dim p;
          offset = slot * d
      in if length (pg_keys p) < offset + d \<or> length ks \<noteq> d then (False, p)
         else
           let p1 = p\<lparr>pg_keys := copy_into offset ks (pg_keys p)\<rparr>
           in if length (pg_values p) < offset + d \<or> length vs \<noteq> d then (False, p1)
              else (True, p1\<lparr>pg_values := copy_into offset vs (pg_values p),
                            used_slots := max (used_slots p) (slot + 1)\<rparr>))"

definition slice_at :: "nat \<Rightarrow> nat \<Rightarrow> 'a list \<Rightarrow> 'a list option" where
  "slice_at from n xs = (if length xs < from + n then None else Some (take n (drop from xs)))"

definition page_read_keys :: "nat \<Rightarrow> 'a page \<Rightarrow> 'a list option" where
  "page_read_keys slot p = slice_at (slot * pg_hidden_dim p) (pg_hidden_dim p) (pg_keys p)"

definition page_read_values :: "nat \<Rightarrow> 'a page \<Rightarrow> 'a list option" where
  "page_read_values slot p = slice_at (slot * pg_hidden_dim p) (pg_hidden_dim p) (pg_values p)"

definition page_is_full :: "'a page \<Rightarrow> bool" where
  "page_is_full p \<longleftrightarrow> PAGE_TOKENS \<le> used_slots p"

definition page_reset :: "'a::zero page \<Rightarrow> 'a page" where
  "page_reset p =
     p\<lparr>used_slots := 0, pg_keys := map (\<lambda>_. 0) (pg_keys p), pg_values := map (\<lambda>_. 0) (pg_values p)\<rparr>"

section \<open>The page table\<close>

record 'a page_table =
  free_pages :: "nat list"
  pages :: "'a page list"
  pt_next_id :: usize
  pt_hidden_dim :: usize
  pt_max_pages :: usize

definition pt_new :: "usize \<Rightarrow> usize \<Rightarrow> 'a page_table" where
  "pt_new d mx = \<lparr>free_pages = [], pages = [], pt_next_id = 0, pt_hidden_dim = d, pt_max_pages = mx\<rparr>"

definition get_or_create_page :: "'a::zero page_table \<Rightarrow> (nat \<times> 'a page_table) option" where
  "get_or_create_page pt =
     (case free_pages pt of
        i # is \<Rightarrow> Some (i, pt\<lparr>free_pages := is\<rparr>)
      | [] \<Rightarrow>
          if pt_max_pages pt \<le> length (pages pt) then None
          else
            let i = pt_next_id pt
            in Some (i, pt\<lparr>pt_next_id := wrap_add i 1,
                          pages := pages pt @ [page_new i (pt_hidden_dim pt)]\<rparr>))"

definition allocate_page :: "'a::zero page_table \<Rightarrow> (nat \<times> 'a page_table) option" where
  "allocate_page pt = get_or_create_page pt"

definition pt_page :: "nat \<Rightarrow> 'a page_table \<Rightarrow> 'a page option" where
  "pt_page i pt = (if i < length (pages pt) then Some (pages pt ! i) else None)"

fun pt_free :: "nat list \<Rightarrow> 'a::zero page_table \<Rightarrow> 'a page_table" where
  "pt_free [] pt = pt"
| "pt_free (i # is) pt =
     (if i < length (pages pt)
      then pt_free is (pt\<lparr>pages := (pages pt)[i := page_reset (pages pt ! i)], free_pages := free_pages pt @ [i]\<rparr>)
      else pt_free is pt)"

definition slot_in_page :: "nat \<Rightarrow> nat" where
  "slot_in_page pos = pos mod PAGE_TOKENS"

definition page_count :: "'a page_table \<Rightarrow> usize" where
  "page_count pt = length (pages pt)"

definition free_count :: "'a page_table \<Rightarrow> usize" where
  "free_count pt = length (free_pages pt)"

subsection \<open>The page table is a page pool\<close>

definition page_ok :: "usize \<Rightarrow> nat \<Rightarrow> 'a page \<Rightarrow> bool" where
  "page_ok d i p \<longleftrightarrow> pg_id p = i \<and> pg_hidden_dim p = d \<and>
     length (pg_keys p) = PAGE_TOKENS * d \<and> length (pg_values p) = PAGE_TOKENS * d"

definition pt_wf :: "'a::zero page_table \<Rightarrow> bool" where
  [inv_defs]: "pt_wf pt \<longleftrightarrow>
     pt_next_id pt = length (pages pt) \<and> length (pages pt) \<le> pt_max_pages pt \<and> pt_max_pages pt < two64 \<and>
     distinct (free_pages pt) \<and> set (free_pages pt) \<subseteq> {..<length (pages pt)} \<and>
     (\<forall>i < length (pages pt). page_ok (pt_hidden_dim pt) i (pages pt ! i)) \<and>
     (\<forall>i \<in> set (free_pages pt). pages pt ! i = page_new i (pt_hidden_dim pt))"

definition pt_live :: "'a page_table \<Rightarrow> nat set" where
  "pt_live pt = {..<length (pages pt)} - set (free_pages pt)"

type_synonym 'a page_content = "'a list \<times> 'a list \<times> nat"

definition page_content_of :: "'a page \<Rightarrow> 'a page_content" where
  "page_content_of p = (pg_keys p, pg_values p, used_slots p)"

definition pt_content :: "'a page_table \<Rightarrow> nat \<Rightarrow> 'a page_content" where
  "pt_content pt i = page_content_of (pages pt ! i)"

definition pt_blank :: "'a::zero page_table \<Rightarrow> 'a page_content" where
  "pt_blank pt = page_content_of (page_new 0 (pt_hidden_dim pt))"

lemma page_ok_new [simp]: "page_ok d i (page_new i d)"
  by (simp add: page_ok_def page_new_def)

lemma page_reset_ok: "page_ok d i p \<Longrightarrow> page_reset p = page_new i d"
  by (cases p) (auto simp: page_ok_def page_new_def page_reset_def map_replicate_const)

lemma pt_wf_new: "mx < two64 \<Longrightarrow> pt_wf (pt_new d mx)"
  by (simp add: pt_wf_def pt_new_def)

lemma pt_dims_free [simp]:
  "pt_hidden_dim (pt_free ids pt) = pt_hidden_dim pt" "pt_max_pages (pt_free ids pt) = pt_max_pages pt"
  "length (pages (pt_free ids pt)) = length (pages pt)" "pt_next_id (pt_free ids pt) = pt_next_id pt"
  by (induction ids pt rule: pt_free.induct) auto

lemma pt_free_pages:
  "set ids \<subseteq> {..<length (pages pt)} \<Longrightarrow>
   free_pages (pt_free ids pt) = free_pages pt @ ids \<and>
   (\<forall>j. j \<notin> set ids \<longrightarrow> pages (pt_free ids pt) ! j = pages pt ! j)"
  by (induction ids pt rule: pt_free.induct) auto

lemma pt_wf_free:
  "pt_wf pt \<Longrightarrow> distinct ids \<Longrightarrow> set ids \<subseteq> pt_live pt \<Longrightarrow> pt_wf (pt_free ids pt)"
proof (induction ids pt rule: pt_free.induct)
  case (1 pt)
  then show ?case by simp
next
  case (2 i "is" pt)
  let ?pt = "pt\<lparr>pages := (pages pt)[i := page_reset (pages pt ! i)], free_pages := free_pages pt @ [i]\<rparr>"
  have i: "i < length (pages pt)" "i \<notin> set (free_pages pt)"
    using "2.prems"(3) by (auto simp: pt_live_def)
  have reset: "page_reset (pages pt ! i) = page_new i (pt_hidden_dim pt)"
    using "2.prems"(1) i(1) by (auto simp: pt_wf_def intro: page_reset_ok)
  have "pt_wf ?pt"
    using "2.prems"(1) i by (auto simp: pt_wf_def reset nth_list_update)
  moreover have "set is \<subseteq> pt_live ?pt"
    using "2.prems"(2,3) by (auto simp: pt_live_def)
  ultimately show ?case
    using "2.IH"(1) [OF i(1)] "2.prems"(2) i(1) by simp
qed

lemma pt_wf_alloc:
  assumes "pt_wf pt" and "allocate_page pt = Some (i, pt')"
  shows "pt_wf pt' \<and> i \<notin> pt_live pt \<and> pt_live pt' = insert i (pt_live pt) \<and>
    pt_content pt' i = pt_blank pt' \<and> pt_hidden_dim pt' = pt_hidden_dim pt \<and>
    (\<forall>j\<in>pt_live pt. pt_content pt' j = pt_content pt j)"
proof (cases "free_pages pt")
  case Nil
  with assms show ?thesis
    by (auto simp: allocate_page_def get_or_create_page_def Let_def pt_wf_def pt_live_def pt_content_def
        pt_blank_def page_content_of_def page_new_def nth_append less_Suc_eq page_ok_def split: if_splits)
next
  case (Cons k ks)
  with assms show ?thesis
    by (auto simp: allocate_page_def get_or_create_page_def pt_wf_def pt_live_def pt_content_def
        pt_blank_def page_content_of_def page_new_def)
qed

interpretation pool: page_pool allocate_page pt_free pt_wf pt_live pt_content pt_blank
proof unfold_locales
  fix p :: "'a::zero page_table" and i p'
  assume "pt_wf p" "allocate_page p = Some (i, p')"
  then show "pt_wf p' \<and> i \<notin> pt_live p \<and> pt_live p' = insert i (pt_live p) \<and>
      pt_content p' i = pt_blank p' \<and> (\<forall>j\<in>pt_live p. pt_content p' j = pt_content p j)"
    using pt_wf_alloc by blast
next
  fix p :: "'a::zero page_table" and ids
  assume *: "pt_wf p" "distinct ids" "set ids \<subseteq> pt_live p"
  then have sub: "set ids \<subseteq> {..<length (pages p)}"
    by (auto simp: pt_live_def)
  from * pt_wf_free [OF *] pt_free_pages [OF sub]
  show "pt_wf (pt_free ids p) \<and> pt_live (pt_free ids p) = pt_live p - set ids \<and>
      (\<forall>j\<in>pt_live p - set ids. pt_content (pt_free ids p) j = pt_content p j)"
    by (auto simp: pt_live_def pt_content_def)
qed

lemma allocate_page_None:
  "allocate_page pt = None \<longleftrightarrow> free_pages pt = [] \<and> pt_max_pages pt \<le> length (pages pt)"
  by (auto simp: allocate_page_def get_or_create_page_def Let_def split: list.splits)

subsection \<open>Writing a row\<close>

definition pt_update :: "nat \<Rightarrow> 'a page \<Rightarrow> 'a page_table \<Rightarrow> 'a page_table" where
  "pt_update i p pt = pt\<lparr>pages := (pages pt)[i := p]\<rparr>"

lemma length_copy_into [simp]:
  "from + length xs \<le> length buf \<Longrightarrow> length (copy_into from xs buf) = length buf"
  by (simp add: copy_into_def)

lemma slice_copy_same:
  "from + length xs \<le> length buf \<Longrightarrow> slice_at from (length xs) (copy_into from xs buf) = Some xs"
  by (simp add: slice_at_def copy_into_def)

lemma slice_copy_other:
  assumes "from + length xs \<le> length buf" and "from' + n \<le> from \<or> from + length xs \<le> from'"
  shows "slice_at from' n (copy_into from xs buf) = slice_at from' n buf"
proof -
  have "take n (drop from' (copy_into from xs buf)) = take n (drop from' buf)"
    if "from' + n \<le> length buf"
    using assms that
    by (intro nth_equalityI) (auto simp: copy_into_def nth_append)
  with assms(1) show ?thesis by (auto simp: slice_at_def)
qed

lemma page_write_ok:
  assumes "page_ok d i p" and "slot < PAGE_TOKENS" and "length ks = d" and "length vs = d"
  shows "\<exists>p'. page_write slot ks vs p = (True, p') \<and> page_ok d i p' \<and>
    page_read_keys slot p' = Some ks \<and> page_read_values slot p' = Some vs \<and>
    (\<forall>j. j \<noteq> slot \<longrightarrow> page_read_keys j p' = page_read_keys j p \<and> page_read_values j p' = page_read_values j p)"
proof -
  have bound: "slot * d + d \<le> PAGE_TOKENS * d"
    using assms(2) by (metis Suc_leI add.commute mult_Suc mult_le_mono1)
  let ?p = "p\<lparr>pg_keys := copy_into (slot * d) ks (pg_keys p), pg_values := copy_into (slot * d) vs (pg_values p),
      used_slots := max (used_slots p) (slot + 1)\<rparr>"
  have w: "page_write slot ks vs p = (True, ?p)"
    using assms bound by (simp add: page_write_def page_ok_def Let_def)
  have apart: "j * d + d \<le> slot * d \<or> slot * d + d \<le> j * d" if "j \<noteq> slot" for j
    using that by (metis Suc_leI add.commute linorder_neqE_nat mult_Suc mult_le_mono1)
  have "page_read_keys j ?p = page_read_keys j p \<and> page_read_values j ?p = page_read_values j p"
    if "j \<noteq> slot" for j
    using assms bound apart [OF that]
    by (simp add: page_read_keys_def page_read_values_def page_ok_def slice_copy_other)
  moreover have "page_ok d i ?p" "page_read_keys slot ?p = Some ks" "page_read_values slot ?p = Some vs"
    using assms bound slice_copy_same [of "slot * d" ks "pg_keys p"] slice_copy_same [of "slot * d" vs "pg_values p"]
    by (simp_all add: page_ok_def page_read_keys_def page_read_values_def)
  ultimately show ?thesis using w by blast
qed

text \<open>A panicking write changes no length either.\<close>

lemma page_write_keeps_ok: "page_ok d i p \<Longrightarrow> page_write slot ks vs p = (b, p') \<Longrightarrow> page_ok d i p'"
  by (auto simp: page_write_def page_ok_def Let_def split: if_splits)

lemma pt_wf_update:
  assumes "pt_wf pt" and "i \<in> pt_live pt" and "page_ok (pt_hidden_dim pt) i p"
  shows "pt_wf (pt_update i p pt)" "pt_live (pt_update i p pt) = pt_live pt"
  using assms by (auto simp: pt_wf_def pt_update_def pt_live_def nth_list_update)

lemma owns_update:
  "pool.owns pt own \<Longrightarrow> i \<in> pt_live pt \<Longrightarrow> page_ok (pt_hidden_dim pt) i p \<Longrightarrow> pool.owns (pt_update i p pt) own"
  by (auto simp: pool.owns_def pt_wf_update)

end
