(* ===== verification/KV_Cache.thy ===== *)
theory KV_Cache
  imports Paged_Memory
begin

text \<open>
  The KV cache manager (\<open>memory/kv_cache_config.rs\<close>, \<open>memory/kv_cache_core.rs\<close>,
  \<open>memory/kv_cache_ops.rs\<close>) of the default build, without the quantised side store of the feature
  \<open>advanced\<close>. Each public call is one state transformer; a poisoned lock is recovered, so a call that
  panics leaves the state it had reached, which is the result \<open>None\<close> with that state.

  What a client sees of the cache is \<open>kv_rows\<close>: a finite list of key and value rows per live
  sequence. The operations are shown to be the obvious ones on these lists.
\<close>

section \<open>State\<close>

datatype eviction_policy = Lru | Fifo | Lfu

record sliding_window =
  window_size :: usize
  overlap_tokens :: usize

record kv_config =
  kc_hidden_dim :: usize
  kc_max_pages :: usize
  kc_max_seq_len :: usize
  kc_num_heads :: usize
  kc_head_dim :: usize
  kc_enable_quantization :: bool
  kc_enable_paged :: bool
  kc_eviction_policy :: eviction_policy
  kc_sliding_window :: "sliding_window option"

definition kv_config_default :: kv_config where
  "kv_config_default =
     \<lparr>kc_hidden_dim = 4096, kc_max_pages = 1024, kc_max_seq_len = 4096, kc_num_heads = 32, kc_head_dim = 128,
      kc_enable_quantization = True, kc_enable_paged = True, kc_eviction_policy = Lru, kc_sliding_window = None\<rparr>"

datatype kv_error =
    SequenceNotFound u64
  | PositionOutOfBounds usize usize
  | PageNotFound
  | MemoryExhausted
  | QuantizationError string

record seq_entry =
  se_id :: u64
  page_ids :: "nat list"
  seq_len :: usize
  last_access :: instant
  access_count :: u64

record seq_store =
  entries :: "(u64, seq_entry) hash_map"
  access_order :: "u64 list"

definition touch :: "u64 \<Rightarrow> seq_store \<Rightarrow> seq_store" where
  "touch s st = st\<lparr>access_order := filter (\<lambda>i. i \<noteq> s) (access_order st) @ [s]\<rparr>"

record 'a kv_cache =
  kv_config :: kv_config
  kv_pages :: "'a page_table"
  sequences :: seq_store
  next_seq_id :: u64

definition kv_new :: "kv_config \<Rightarrow> 'a kv_cache" where
  "kv_new cfg =
     \<lparr>kv_config = cfg, kv_pages = pt_new (kc_hidden_dim cfg) (kc_max_pages cfg),
      sequences = \<lparr>entries = [], access_order = []\<rparr>, next_seq_id = 1\<rparr>"

section \<open>Operations\<close>

definition set_entry :: "u64 \<Rightarrow> seq_entry \<Rightarrow> 'a kv_cache \<Rightarrow> 'a kv_cache" where
  "set_entry s e m = m\<lparr>sequences := (sequences m)\<lparr>entries := AList.update s e (entries (sequences m))\<rparr>\<rparr>"

definition lookup_entry :: "u64 \<Rightarrow> 'a kv_cache \<Rightarrow> seq_entry option" where
  "lookup_entry s m = map_of (entries (sequences m)) s"

definition kv_touch :: "u64 \<Rightarrow> 'a kv_cache \<Rightarrow> 'a kv_cache" where
  "kv_touch s m = m\<lparr>sequences := touch s (sequences m)\<rparr>"

definition accessed :: "instant \<Rightarrow> seq_entry \<Rightarrow> seq_entry" where
  "accessed now e = e\<lparr>last_access := now, access_count := access_count e + 1\<rparr>"

definition allocate_sequence :: "instant \<Rightarrow> 'a kv_cache \<Rightarrow> u64 \<times> 'a kv_cache" where
  "allocate_sequence now m =
     (let i = next_seq_id m;
          e = \<lparr>se_id = i, page_ids = [], seq_len = 0, last_access = now, access_count = 0\<rparr>;
          st = sequences m
      in (i, m\<lparr>next_seq_id := wrap_add i 1,
              sequences := st\<lparr>entries := AList.update i e (entries st), access_order := access_order st @ [i]\<rparr>\<rparr>))"

definition free_sequence :: "u64 \<Rightarrow> 'a::zero kv_cache \<Rightarrow> (kv_error + unit) \<times> 'a kv_cache" where
  "free_sequence s m =
     (case lookup_entry s m of
        None \<Rightarrow> (Inl (SequenceNotFound s), m)
      | Some e \<Rightarrow>
          (let st = sequences m
           in (Inr (),
               m\<lparr>sequences := st\<lparr>entries := AList.delete s (entries st),
                                access_order := filter (\<lambda>i. i \<noteq> s) (access_order st)\<rparr>,
                 kv_pages := pt_free (page_ids e) (kv_pages m)\<rparr>)))"

definition evict_lru :: "'a::zero kv_cache \<Rightarrow> (kv_error + unit) \<times> 'a kv_cache" where
  "evict_lru m =
     (case access_order (sequences m) of
        [] \<Rightarrow> (Inr (), m)
      | v # vs \<Rightarrow> free_sequence v (m\<lparr>sequences := (sequences m)\<lparr>access_order := vs\<rparr>\<rparr>))"

definition push_page :: "u64 \<Rightarrow> nat \<Rightarrow> 'a kv_cache \<Rightarrow> 'a kv_cache" where
  "push_page s i m =
     (case lookup_entry s m of
        None \<Rightarrow> m
      | Some e \<Rightarrow> set_entry s (e\<lparr>page_ids := page_ids e @ [i]\<rparr>) m)"

definition allocate_page_for_seq :: "u64 \<Rightarrow> 'a::zero kv_cache \<Rightarrow> (kv_error + unit) \<times> 'a kv_cache" where
  "allocate_page_for_seq s m =
     (case allocate_page (kv_pages m) of
        Some (i, pt) \<Rightarrow> (Inr (), push_page s i (m\<lparr>kv_pages := pt\<rparr>))
      | None \<Rightarrow>
          (case evict_lru m of
             (Inl e, m1) \<Rightarrow> (Inl e, m1)
           | (Inr _, m1) \<Rightarrow>
               (case allocate_page (kv_pages m1) of
                  None \<Rightarrow> (Inl MemoryExhausted, m1)
                | Some (i, pt) \<Rightarrow> (Inr (), push_page s i (m1\<lparr>kv_pages := pt\<rparr>)))))"

definition write_to_page :: "nat \<Rightarrow> nat \<Rightarrow> 'a list \<Rightarrow> 'a list \<Rightarrow> 'a kv_cache \<Rightarrow> bool \<times> 'a kv_cache" where
  "write_to_page i slot ks vs m =
     (case pt_page i (kv_pages m) of
        None \<Rightarrow> (True, m)
      | Some p \<Rightarrow> (case page_write slot ks vs p of (b, p') \<Rightarrow> (b, m\<lparr>kv_pages := pt_update i p' (kv_pages m)\<rparr>)))"

definition finish_append :: "u64 \<Rightarrow> nat \<Rightarrow> 'a list \<Rightarrow> 'a list \<Rightarrow> 'a kv_cache \<Rightarrow> (kv_error + unit) option \<times> 'a kv_cache"
where
  "finish_append s pos ks vs m =
     (case lookup_entry s m of
        None \<Rightarrow> (Some (Inl (SequenceNotFound s)), m)
      | Some e \<Rightarrow>
          if page_ids e = [] then (Some (Inl PageNotFound), m)
          else
            (case write_to_page (last (page_ids e)) (pos mod PAGE_TOKENS) ks vs m of
               (False, m1) \<Rightarrow> (None, m1)
             | (True, m1) \<Rightarrow> (Some (Inr ()), set_entry s (e\<lparr>seq_len := seq_len e + 1\<rparr>) m1)))"

definition append_kv ::
  "instant \<Rightarrow> u64 \<Rightarrow> 'a list \<Rightarrow> 'a list \<Rightarrow> 'a::zero kv_cache \<Rightarrow> (kv_error + unit) option \<times> 'a kv_cache"
where
  "append_kv now s ks vs m =
     (let m1 = kv_touch s m
      in case lookup_entry s m1 of
           None \<Rightarrow> (Some (Inl (SequenceNotFound s)), m1)
         | Some e \<Rightarrow>
             (let m2 = set_entry s (accessed now e) m1;
                  pos = seq_len e;
                  needs_page = (pos mod PAGE_TOKENS = 0 \<or> page_ids e = [])
              in if needs_page
                 then (case allocate_page_for_seq s m2 of
                         (Inl err, m3) \<Rightarrow> (Some (Inl err), m3)
                       | (Inr _, m3) \<Rightarrow> finish_append s pos ks vs m3)
                 else finish_append s pos ks vs m2))"

definition kv_reset :: "'a kv_cache \<Rightarrow> 'a kv_cache" where
  "kv_reset m = m\<lparr>sequences := \<lparr>entries = [], access_order = []\<rparr>\<rparr>"

text \<open>\<open>ko\<close> and \<open>vo\<close> are the lengths of the output buffers the caller passes.\<close>

definition read_from_page_table ::
  "nat \<Rightarrow> nat \<Rightarrow> nat \<Rightarrow> nat \<Rightarrow> 'a kv_cache \<Rightarrow> (kv_error + 'a list \<times> 'a list) option"
where
  "read_from_page_table i slot ko vo m =
     (case pt_page i (kv_pages m) of
        None \<Rightarrow> Some (Inl PageNotFound)
      | Some p \<Rightarrow>
          (case (page_read_keys slot p, page_read_values slot p) of
             (Some ks, Some vs) \<Rightarrow> if length ks = ko \<and> length vs = vo then Some (Inr (ks, vs)) else None
           | _ \<Rightarrow> None))"

definition read_kv ::
  "instant \<Rightarrow> u64 \<Rightarrow> nat \<Rightarrow> nat \<Rightarrow> nat \<Rightarrow> 'a kv_cache \<Rightarrow> (kv_error + 'a list \<times> 'a list) option \<times> 'a kv_cache"
where
  "read_kv now s pos ko vo m =
     (let m1 = kv_touch s m
      in case lookup_entry s m1 of
           None \<Rightarrow> (Some (Inl (SequenceNotFound s)), m1)
         | Some e \<Rightarrow>
             if seq_len e \<le> pos then (Some (Inl (PositionOutOfBounds pos (seq_len e))), m1)
             else
               let m2 = set_entry s (accessed now e) m1;
                   page_idx = pos div PAGE_TOKENS
               in if page_idx < length (page_ids e)
                  then (read_from_page_table (page_ids e ! page_idx) (pos mod PAGE_TOKENS) ko vo m2, m2)
                  else (Some (Inl PageNotFound), m2))"

definition dot_product :: "'a list \<Rightarrow> 'a list \<Rightarrow> 'a::{zero, plus, times}" where
  "dot_product a b = foldl (+) 0 (map (\<lambda>(x, y). x * y) (zip a b))"

text \<open>A position whose page cannot be resolved keeps the score the caller's buffer had.\<close>

definition score_at :: "nat list \<Rightarrow> 'a list \<Rightarrow> 'a::{zero, plus, times} page_table \<Rightarrow> nat \<Rightarrow> 'a \<Rightarrow> 'a option" where
  "score_at ids query pt pos old =
     (if pos div PAGE_TOKENS < length ids then
        (case pt_page (ids ! (pos div PAGE_TOKENS)) pt of
           None \<Rightarrow> Some old
         | Some p \<Rightarrow> map_option (dot_product query) (page_read_keys (pos mod PAGE_TOKENS) p))
      else Some old)"

fun attention_from_pages ::
  "nat \<Rightarrow> nat \<Rightarrow> nat list \<Rightarrow> 'a list \<Rightarrow> 'a::{zero, plus, times} page_table \<Rightarrow> 'a list \<Rightarrow> 'a list option"
where
  "attention_from_pages pos n ids query pt [] = Some []"
| "attention_from_pages pos n ids query pt (x # xs) =
     (if n \<le> pos then Some (x # xs)
      else
        (case score_at ids query pt pos x of
           None \<Rightarrow> None
         | Some y \<Rightarrow> map_option ((#) y) (attention_from_pages (Suc pos) n ids query pt xs)))"

definition attention_scores ::
  "u64 \<Rightarrow> 'a list \<Rightarrow> 'a list \<Rightarrow> 'a::{zero, plus, times} kv_cache \<Rightarrow> (kv_error + 'a list) option"
where
  "attention_scores s query out m =
     (case lookup_entry s m of
        None \<Rightarrow> Some (Inl (SequenceNotFound s))
      | Some e \<Rightarrow> map_option Inr (attention_from_pages 0 (seq_len e) (page_ids e) query (kv_pages m) out))"

definition evict_pages_before :: "u64 \<Rightarrow> nat \<Rightarrow> 'a::zero kv_cache \<Rightarrow> nat \<times> 'a kv_cache" where
  "evict_pages_before s cutoff m =
     (case lookup_entry s m of
        None \<Rightarrow> (0, m)
      | Some e \<Rightarrow>
          (let cutoff_page = cutoff div PAGE_TOKENS
           in if cutoff_page = 0 then (0, m)
              else
                let n = min cutoff_page (length (page_ids e));
                    m1 = set_entry s (e\<lparr>page_ids := drop n (page_ids e)\<rparr>) m
                in (n, m1\<lparr>kv_pages := pt_free (take n (page_ids e)) (kv_pages m1)\<rparr>)))"

definition sat_add :: "nat \<Rightarrow> nat \<Rightarrow> nat" where
  "sat_add a b = min (a + b) (two64 - 1)"

definition evict_beyond_window :: "u64 \<Rightarrow> nat \<Rightarrow> 'a::zero kv_cache \<Rightarrow> nat \<times> 'a kv_cache" where
  "evict_beyond_window s current m =
     (case kc_sliding_window (kv_config m) of
        None \<Rightarrow> (0, m)
      | Some sw \<Rightarrow>
          (let cutoff = current - sat_add (window_size sw) (overlap_tokens sw)
           in if cutoff = 0 then (0, m) else evict_pages_before s cutoff m))"

definition kv_seq_len :: "u64 \<Rightarrow> 'a kv_cache \<Rightarrow> kv_error + usize" where
  "kv_seq_len s m =
     (case lookup_entry s m of None \<Rightarrow> Inl (SequenceNotFound s) | Some e \<Rightarrow> Inr (seq_len e))"

definition has_sequence :: "u64 \<Rightarrow> 'a kv_cache \<Rightarrow> bool" where
  "has_sequence s m \<longleftrightarrow> lookup_entry s m \<noteq> None"

definition active_sequences :: "'a kv_cache \<Rightarrow> usize" where
  "active_sequences m = length (entries (sequences m))"

definition memory_usage :: "'a kv_cache \<Rightarrow> usize" where
  "memory_usage m = page_count (kv_pages m) * PAGE_TOKENS * kc_hidden_dim (kv_config m) * 2 * 4"

definition sequence_page_count :: "u64 \<Rightarrow> 'a kv_cache \<Rightarrow> usize" where
  "sequence_page_count s m = (case lookup_entry s m of None \<Rightarrow> 0 | Some e \<Rightarrow> length (page_ids e))"

section \<open>The client's view\<close>

text \<open>The page list and the length of every live sequence; access times and counts are dropped.\<close>

definition kv_view :: "'a kv_cache \<Rightarrow> u64 \<Rightarrow> (nat list \<times> nat) option" where
  "kv_view m s = map_option (\<lambda>e. (page_ids e, seq_len e)) (lookup_entry s m)"

definition own_of :: "(u64 \<Rightarrow> (nat list \<times> nat) option) \<Rightarrow> u64 \<Rightarrow> nat list" where
  "own_of v s = (case v s of None \<Rightarrow> [] | Some (ids, n) \<Rightarrow> ids)"

definition content_row :: "nat \<Rightarrow> 'a page_content \<Rightarrow> nat \<Rightarrow> 'a list \<times> 'a list" where
  "content_row d c slot = (take d (drop (slot * d) (fst c)), take d (drop (slot * d) (fst (snd c))))"

definition rows_of :: "'a page_table \<Rightarrow> nat list \<Rightarrow> nat \<Rightarrow> ('a list \<times> 'a list) list" where
  "rows_of pt ids n =
     map (\<lambda>pos. content_row (pt_hidden_dim pt) (pt_content pt (ids ! (pos div PAGE_TOKENS))) (pos mod PAGE_TOKENS)) [0..<n]"

definition kv_rows :: "'a kv_cache \<Rightarrow> u64 \<Rightarrow> ('a list \<times> 'a list) list option" where
  "kv_rows m s = map_option (\<lambda>(ids, n). rows_of (kv_pages m) ids n) (kv_view m s)"

definition kv_inv :: "'a::zero kv_cache \<Rightarrow> bool" where
  [inv_defs]: "kv_inv m \<longleftrightarrow>
     pool.owns (kv_pages m) (own_of (kv_view m)) \<and> pt_hidden_dim (kv_pages m) = kc_hidden_dim (kv_config m)"

text \<open>Without window eviction a sequence of length \<open>n\<close> has exactly the pages it needs.\<close>

definition pages_needed :: "nat \<Rightarrow> nat" where
  "pages_needed n = (n + 15) div PAGE_TOKENS"

definition kv_compact :: "'a kv_cache \<Rightarrow> bool" where
  "kv_compact m \<longleftrightarrow> (\<forall>s ids n. kv_view m s = Some (ids, n) \<longrightarrow> length ids = pages_needed n)"

subsection \<open>Frame lemmas\<close>

lemma lookup_set_entry [simp]: "lookup_entry t (set_entry s e m) = (if t = s then Some e else lookup_entry t m)"
  by (simp add: lookup_entry_def set_entry_def)

lemma lookup_kv_touch [simp]: "lookup_entry t (kv_touch s m) = lookup_entry t m"
  by (simp add: lookup_entry_def kv_touch_def touch_def)

lemma lookup_pages [simp]:
  "lookup_entry t (m\<lparr>kv_pages := pt\<rparr>) = lookup_entry t m"
  "lookup_entry t (m\<lparr>sequences := (sequences m)\<lparr>access_order := vs\<rparr>\<rparr>) = lookup_entry t m"
  by (simp_all add: lookup_entry_def)

lemma kv_pages_simps [simp]:
  "kv_pages (set_entry s e m) = kv_pages m" "kv_pages (kv_touch s m) = kv_pages m"
  "kv_config (set_entry s e m) = kv_config m" "kv_config (kv_touch s m) = kv_config m"
  by (simp_all add: set_entry_def kv_touch_def)

lemma kv_view_simps [simp]:
  "kv_view (set_entry s e m) = (kv_view m)(s \<mapsto> (page_ids e, seq_len e))"
  "kv_view (kv_touch s m) = kv_view m"
  "kv_view (m\<lparr>kv_pages := pt\<rparr>) = kv_view m"
  "kv_view (m\<lparr>sequences := (sequences m)\<lparr>access_order := vs\<rparr>\<rparr>) = kv_view m"
  by (auto simp: kv_view_def fun_eq_iff)

lemma view_accessed:
  "lookup_entry s m = Some e \<Longrightarrow> (kv_view m)(s \<mapsto> (page_ids (accessed now e), seq_len (accessed now e))) = kv_view m"
  by (auto simp: kv_view_def accessed_def fun_eq_iff)

lemma own_of_upd: "own_of (v(s \<mapsto> (ids, n))) = (own_of v)(s := ids)" "own_of (v(s := None)) = (own_of v)(s := [])"
  by (auto simp: own_of_def fun_eq_iff)

lemma rows_of_cong:
  assumes "n \<le> PAGE_TOKENS * length ids" and "pt_hidden_dim pt' = pt_hidden_dim pt"
    and "\<And>j. j \<in> set ids \<Longrightarrow> pt_content pt' j = pt_content pt j"
  shows "rows_of pt' ids n = rows_of pt ids n"
proof -
  have "ids ! (pos div PAGE_TOKENS) \<in> set ids" if "pos < n" for pos
  proof -
    have "pos div PAGE_TOKENS < length ids"
      using that assms(1) by (simp add: PAGE_TOKENS_def)
    then show ?thesis by simp
  qed
  with assms(2,3) show ?thesis by (auto simp: rows_of_def)
qed

lemma rows_of_extend: "n \<le> PAGE_TOKENS * length ids \<Longrightarrow> rows_of pt (ids @ [i]) n = rows_of pt ids n"
  by (auto simp: rows_of_def nth_append PAGE_TOKENS_def)

lemma pages_needed_bound: "n \<le> PAGE_TOKENS * pages_needed n"
  by (simp add: pages_needed_def PAGE_TOKENS_def)

lemma pages_needed_Suc:
  "pages_needed (Suc n) = Suc (n div PAGE_TOKENS)"
  "n mod PAGE_TOKENS = 0 \<Longrightarrow> pages_needed n = n div PAGE_TOKENS"
  "n mod PAGE_TOKENS \<noteq> 0 \<Longrightarrow> pages_needed n = Suc (n div PAGE_TOKENS)"
proof -
  define q r where "q = n div PAGE_TOKENS" and "r = n mod PAGE_TOKENS"
  have n: "n = 16 * q + r" "r < 16" "n div PAGE_TOKENS = q" "n mod PAGE_TOKENS = r"
    by (simp_all add: q_def r_def PAGE_TOKENS_def)
  show "pages_needed (Suc n) = Suc (n div PAGE_TOKENS)"
    unfolding n(3) pages_needed_def PAGE_TOKENS_def using n(1,2) by (intro div_nat_eqI) simp_all
  show "pages_needed n = n div PAGE_TOKENS" if "n mod PAGE_TOKENS = 0"
  proof -
    have "r = 0" using that n(4) by simp
    with n(1) show ?thesis
      unfolding n(3) pages_needed_def PAGE_TOKENS_def by (intro div_nat_eqI) simp_all
  qed
  show "pages_needed n = Suc (n div PAGE_TOKENS)" if "n mod PAGE_TOKENS \<noteq> 0"
  proof -
    have "0 < r" using that n(4) by simp
    with n(1,2) show ?thesis
      unfolding n(3) pages_needed_def PAGE_TOKENS_def by (intro div_nat_eqI) simp_all
  qed
qed

lemma kv_compactD: "kv_compact m \<Longrightarrow> kv_view m s = Some (ids, n) \<Longrightarrow> n \<le> PAGE_TOKENS * length ids"
  unfolding kv_compact_def using pages_needed_bound by metis

lemma kv_view_lookup: "lookup_entry s m = Some e \<Longrightarrow> kv_view m s = Some (page_ids e, seq_len e)"
  by (simp add: kv_view_def)

lemma own_lookup: "lookup_entry s m = Some e \<Longrightarrow> own_of (kv_view m) s = page_ids e"
  by (simp add: own_of_def kv_view_def)

subsection \<open>Eviction and allocation\<close>

text \<open>
  \<open>m'\<close> differs from \<open>m\<close> by the loss of the sequences in \<open>V\<close>: every other sequence keeps its pages, its
  length and the content of its pages.
\<close>

definition evicts :: "u64 set \<Rightarrow> 'a::zero kv_cache \<Rightarrow> 'a kv_cache \<Rightarrow> bool" where
  "evicts V m m' \<longleftrightarrow> kv_inv m' \<and> kv_config m' = kv_config m \<and>
     kv_view m' = (\<lambda>s. if s \<in> V then None else kv_view m s) \<and>
     (\<forall>s. s \<notin> V \<longrightarrow> (\<forall>j \<in> set (own_of (kv_view m) s). pt_content (kv_pages m') j = pt_content (kv_pages m) j))"

lemma evicts_refl: "kv_inv m \<Longrightarrow> evicts {} m m"
  by (simp add: evicts_def)

lemma evicts_rows:
  assumes "evicts V m m'" and "kv_compact m" and "kv_inv m"
  shows "kv_rows m' = (\<lambda>s. if s \<in> V then None else kv_rows m s)" "kv_compact m'"
proof -
  have dim: "pt_hidden_dim (kv_pages m') = pt_hidden_dim (kv_pages m)"
    using assms by (simp add: evicts_def kv_inv_def)
  show "kv_rows m' = (\<lambda>s. if s \<in> V then None else kv_rows m s)"
  proof
    fix s
    show "kv_rows m' s = (if s \<in> V then None else kv_rows m s)"
    proof (cases "s \<in> V \<or> kv_view m s = None")
      case True
      with assms(1) show ?thesis by (auto simp: kv_rows_def evicts_def)
    next
      case False
      then obtain ids n where v: "s \<notin> V" "kv_view m s = Some (ids, n)" by auto
      then have "\<forall>j \<in> set ids. pt_content (kv_pages m') j = pt_content (kv_pages m) j"
        using assms(1) by (auto simp: evicts_def own_of_def)
      then have "rows_of (kv_pages m') ids n = rows_of (kv_pages m) ids n"
        using rows_of_cong [OF kv_compactD [OF assms(2) v(2)] dim] by blast
      with v assms(1) show ?thesis by (simp add: kv_rows_def evicts_def)
    qed
  qed
  show "kv_compact m'"
    using assms(1,2) by (auto simp: kv_compact_def evicts_def split: if_splits)
qed

lemma free_sequence_evicts:
  assumes "kv_inv m" and "free_sequence s m = (Inr (), m')"
  shows "evicts {s} m m'"
proof -
  obtain e where e: "lookup_entry s m = Some e"
    using assms(2) by (auto simp: free_sequence_def split: option.splits)
  have pt: "kv_pages m' = pt_free (own_of (kv_view m) s) (kv_pages m)" and cfg: "kv_config m' = kv_config m"
    using assms(2) e by (auto simp: free_sequence_def own_lookup Let_def)
  have view: "kv_view m' = (kv_view m)(s := None)"
    using assms(2) e by (auto simp: free_sequence_def kv_view_def lookup_entry_def Let_def fun_eq_iff)
  have owns: "pool.owns (kv_pages m) (own_of (kv_view m))"
    using assms(1) by (simp add: kv_inv_def)
  have "kv_inv m'"
    using pool.owns_free(1) [OF owns, of s] assms(1) by (simp add: kv_inv_def pt view own_of_upd cfg)
  moreover have "pt_content (kv_pages m') j = pt_content (kv_pages m) j"
    if "t \<noteq> s" "j \<in> set (own_of (kv_view m) t)" for t j
    using pool.owns_free(2) [OF owns that] by (simp add: pt)
  ultimately show ?thesis
    by (auto simp: evicts_def cfg view)
qed

lemma evict_lru_evicts:
  assumes "kv_inv m" and "evict_lru m = (Inr (), m')"
  shows "\<exists>V. V \<subseteq> set (take 1 (access_order (sequences m))) \<and> evicts V m m'"
proof (cases "access_order (sequences m)")
  case Nil
  with assms show ?thesis by (auto simp: evict_lru_def intro: evicts_refl)
next
  case (Cons v vs)
  let ?m = "m\<lparr>sequences := (sequences m)\<lparr>access_order := vs\<rparr>\<rparr>"
  have same: "kv_view ?m = kv_view m" "kv_pages ?m = kv_pages m" "kv_config ?m = kv_config m"
    by simp_all
  then have "kv_inv ?m"
    using assms(1) by (simp add: kv_inv_def)
  then have "evicts {v} ?m m'"
    using assms(2) Cons by (intro free_sequence_evicts) (simp_all add: evict_lru_def)
  then have "evicts {v} m m'"
    unfolding evicts_def same .
  with Cons show ?thesis by auto
qed

text \<open>The error path loses nothing but the head of the access order.\<close>

lemma free_sequence_error: "free_sequence s m = (Inl e, m') \<Longrightarrow> m' = m \<and> e = SequenceNotFound s \<and> lookup_entry s m = None"
  by (auto simp: free_sequence_def Let_def split: option.splits)

lemma evict_lru_error:
  "kv_inv m \<Longrightarrow> evict_lru m = (Inl e, m') \<Longrightarrow> evicts {} m m'"
  by (auto simp: evict_lru_def evicts_def kv_inv_def split: list.splits dest!: free_sequence_error)

lemma allocate_page_for_seq_spec:
  assumes "kv_inv m" and "allocate_page_for_seq s m = (res, m')"
  shows "\<exists>V m1. V \<subseteq> set (take 1 (access_order (sequences m))) \<and> evicts V m m1 \<and>
    (case res of
       Inl e \<Rightarrow> m' = m1
     | Inr _ \<Rightarrow> \<exists>i pt. allocate_page (kv_pages m1) = Some (i, pt) \<and> m' = push_page s i (m1\<lparr>kv_pages := pt\<rparr>))"
proof (cases "allocate_page (kv_pages m)")
  case (Some ip)
  then show ?thesis
    using assms by (intro exI [of _ "{}"] exI [of _ m])
      (auto simp: allocate_page_for_seq_def evicts_refl split: prod.splits)
next
  case None
  obtain r m1 where ev: "evict_lru m = (r, m1)" by (cases "evict_lru m")
  show ?thesis
  proof (cases r)
    case (Inl e)
    with None ev assms have "res = Inl e" "m' = m1"
      by (simp_all add: allocate_page_for_seq_def)
    with evict_lru_error [OF assms(1) ev [unfolded Inl]] show ?thesis
      by (intro exI [of _ "{}"] exI [of _ m1]) simp
  next
    case (Inr u)
    then obtain V where "V \<subseteq> set (take 1 (access_order (sequences m)))" "evicts V m m1"
      using evict_lru_evicts [OF assms(1), of m1] ev by auto
    with None ev Inr assms(2) show ?thesis
      by (intro exI [of _ V] exI [of _ m1]) (auto simp: allocate_page_for_seq_def split: option.splits prod.splits)
  qed
qed

lemma push_page_spec:
  assumes "kv_inv m" and "allocate_page (kv_pages m) = Some (i, pt)"
    and m': "m' = push_page s i (m\<lparr>kv_pages := pt\<rparr>)"
  shows "kv_inv m'" "kv_config m' = kv_config m" "kv_pages m' = pt"
    "kv_view m' = (case kv_view m s of None \<Rightarrow> kv_view m | Some (ids, n) \<Rightarrow> (kv_view m)(s \<mapsto> (ids @ [i], n)))"
    "j \<in> set (own_of (kv_view m) t) \<Longrightarrow> pt_content pt j = pt_content (kv_pages m) j"
proof -
  have owns: "pool.owns (kv_pages m) (own_of (kv_view m))"
    and dim: "pt_hidden_dim pt = kc_hidden_dim (kv_config m)"
    using assms(1) pt_wf_alloc [OF _ assms(2)] by (auto simp: kv_inv_def pool.owns_def)
  show view: "kv_view m' = (case kv_view m s of None \<Rightarrow> kv_view m | Some (ids, n) \<Rightarrow> (kv_view m)(s \<mapsto> (ids @ [i], n)))"
    by (cases "lookup_entry s m") (auto simp: m' push_page_def kv_view_def fun_eq_iff)
  show pt: "kv_pages m' = pt" and cfg: "kv_config m' = kv_config m"
    by (simp_all add: m' push_page_def split: option.splits)
  have "pool.owns pt (own_of (kv_view m'))"
  proof (cases "kv_view m s")
    case None
    then show ?thesis using pool.owns_alloc(1) [OF owns assms(2)] by (simp add: view)
  next
    case (Some p)
    then have "own_of (kv_view m') = (own_of (kv_view m))(s := own_of (kv_view m) s @ [i])"
      by (cases p) (simp add: view own_of_upd, simp add: own_of_def)
    then show ?thesis using pool.owns_alloc(2) [OF owns assms(2)] by simp
  qed
  then show "kv_inv m'" by (simp add: kv_inv_def pt cfg dim)
  show "j \<in> set (own_of (kv_view m) t) \<Longrightarrow> pt_content pt j = pt_content (kv_pages m) j"
    using pool.owns_alloc(3) [OF owns assms(2)] by blast
qed

subsection \<open>Writing the row\<close>

lemma content_row_read:
  "page_ok d i p \<Longrightarrow> page_read_keys slot p = Some k \<Longrightarrow> page_read_values slot p = Some v \<Longrightarrow>
   content_row d (page_content_of p) slot = (k, v)"
  by (auto simp: page_ok_def content_row_def page_content_of_def page_read_keys_def page_read_values_def
      slice_at_def split: if_splits)

lemma page_reads_defined:
  assumes "page_ok d i p" and "slot < PAGE_TOKENS"
  shows "page_read_keys slot p = Some (fst (content_row d (page_content_of p) slot))"
    "page_read_values slot p = Some (snd (content_row d (page_content_of p) slot))"
proof -
  have "slot * d + d \<le> PAGE_TOKENS * d"
    using assms(2) by (metis Suc_leI add.commute mult_Suc mult_le_mono1)
  with assms(1) show "page_read_keys slot p = Some (fst (content_row d (page_content_of p) slot))"
    "page_read_values slot p = Some (snd (content_row d (page_content_of p) slot))"
    by (auto simp: page_ok_def content_row_def page_content_of_def page_read_keys_def page_read_values_def
        slice_at_def)
qed

lemma finish_append_spec:
  assumes inv: "kv_inv m" and v: "kv_view m s = Some (ids, n)" and len: "length ids = Suc (n div PAGE_TOKENS)"
    and row: "length ks = kc_hidden_dim (kv_config m)" "length vs = kc_hidden_dim (kv_config m)"
  shows "\<exists>m'. finish_append s n ks vs m = (Some (Inr ()), m') \<and> kv_inv m' \<and> kv_config m' = kv_config m \<and>
    kv_view m' = (kv_view m)(s \<mapsto> (ids, Suc n)) \<and>
    rows_of (kv_pages m') ids (Suc n) = rows_of (kv_pages m) ids n @ [(ks, vs)] \<and>
    (\<forall>t. t \<noteq> s \<longrightarrow> (\<forall>j \<in> set (own_of (kv_view m) t). pt_content (kv_pages m') j = pt_content (kv_pages m) j))"
proof -
  let ?pt = "kv_pages m" and ?d = "kc_hidden_dim (kv_config m)" and ?slot = "n mod PAGE_TOKENS"
  define l where "l = last ids"
  obtain e where e: "lookup_entry s m = Some e" "page_ids e = ids" "seq_len e = n"
    using v by (auto simp: kv_view_def)
  have ne: "ids \<noteq> []" and own: "own_of (kv_view m) s = ids"
    using len v by (auto simp: own_of_def)
  have owns: "pool.owns ?pt (own_of (kv_view m))" and dim: "pt_hidden_dim ?pt = ?d"
    using inv by (auto simp: kv_inv_def)
  have dist: "distinct ids" and live: "l \<in> pt_live ?pt"
    using owns own ne unfolding pool.owns_def l_def by (metis last_in_set subsetD)+
  have l: "l < length (pages ?pt)" and ok: "page_ok ?d l (pages ?pt ! l)"
    using live owns dim by (auto simp: pt_live_def pool.owns_def pt_wf_def)
  have slot: "?slot < PAGE_TOKENS" by (simp add: PAGE_TOKENS_def)
  obtain p' where w: "page_write ?slot ks vs (pages ?pt ! l) = (True, p')" and ok': "page_ok ?d l p'"
    and same: "page_read_keys ?slot p' = Some ks" "page_read_values ?slot p' = Some vs"
    and other: "\<forall>j. j \<noteq> ?slot \<longrightarrow> page_read_keys j p' = page_read_keys j (pages ?pt ! l) \<and>
      page_read_values j p' = page_read_values j (pages ?pt ! l)"
    using page_write_ok [OF ok slot row] by blast
  define m' where "m' = set_entry s (e\<lparr>seq_len := n + 1\<rparr>) (m\<lparr>kv_pages := pt_update l p' ?pt\<rparr>)"
  have fin: "finish_append s n ks vs m = (Some (Inr ()), m')"
    using e ne l w by (simp add: finish_append_def write_to_page_def pt_page_def l_def m'_def)
  have view: "kv_view m' = (kv_view m)(s \<mapsto> (ids, Suc n))"
    by (simp add: m'_def e)
  have "own_of (kv_view m') = own_of (kv_view m)"
    using own by (simp add: view own_of_upd fun_upd_idem)
  then have "kv_inv m'"
    using owns_update [OF owns live, of p'] ok' dim by (simp add: kv_inv_def m'_def) (simp add: pt_update_def)
  moreover have "kv_config m' = kv_config m" by (simp add: m'_def)
  moreover have content: "pt_content (kv_pages m') j = (if j = l then page_content_of p' else pt_content ?pt j)" for j
    using l by (simp add: m'_def pt_update_def pt_content_def)
  moreover have "l \<notin> set (own_of (kv_view m) t)" if "t \<noteq> s" for t
    using owns own that ne unfolding pool.owns_def l_def by (metis disjoint_iff last_in_set)
  moreover have "rows_of (kv_pages m') ids (Suc n) = rows_of ?pt ids n @ [(ks, vs)]"
  proof -
    have dim': "pt_hidden_dim (kv_pages m') = ?d"
      using dim by (simp add: m'_def pt_update_def)
    have idx: "ids ! (n div PAGE_TOKENS) = l"
      using len ne by (simp add: l_def last_conv_nth)
    have "content_row ?d (pt_content (kv_pages m') (ids ! (pos div PAGE_TOKENS))) (pos mod PAGE_TOKENS) =
        content_row ?d (pt_content ?pt (ids ! (pos div PAGE_TOKENS))) (pos mod PAGE_TOKENS)" if pos: "pos < n" for pos
    proof (cases "ids ! (pos div PAGE_TOKENS) = l")
      case True
      have le: "pos div PAGE_TOKENS \<le> n div PAGE_TOKENS"
        using pos by (simp add: div_le_mono)
      with True idx dist len have "pos div PAGE_TOKENS = n div PAGE_TOKENS"
        by (metis le_imp_less_Suc lessI nth_eq_iff_index_eq)
      then have diff: "pos mod PAGE_TOKENS \<noteq> ?slot"
        using pos by (metis div_mult_mod_eq less_irrefl)
      have sl: "pos mod PAGE_TOKENS < PAGE_TOKENS" by (simp add: PAGE_TOKENS_def)
      have "content_row ?d (page_content_of p') (pos mod PAGE_TOKENS) =
          content_row ?d (page_content_of (pages ?pt ! l)) (pos mod PAGE_TOKENS)"
        using other [rule_format, OF diff] page_reads_defined [OF ok sl] page_reads_defined [OF ok' sl]
        by (simp add: prod_eq_iff)
      with True show ?thesis by (simp add: content) (simp add: pt_content_def)
    next
      case False
      then show ?thesis by (simp add: content)
    qed
    moreover have "content_row ?d (pt_content (kv_pages m') (ids ! (n div PAGE_TOKENS))) ?slot = (ks, vs)"
      using content_row_read [OF ok' same] by (simp add: content idx)
    ultimately show ?thesis
      by (simp add: rows_of_def dim' dim)
  qed
  ultimately show ?thesis
    using fin view by (intro exI [of _ m']) auto
qed

lemma kv_rows_cong:
  assumes "kv_compact m" and "kv_view m' t = kv_view m t" and "pt_hidden_dim (kv_pages m') = pt_hidden_dim (kv_pages m)"
    and "\<forall>j \<in> set (own_of (kv_view m) t). pt_content (kv_pages m') j = pt_content (kv_pages m) j"
  shows "kv_rows m' t = kv_rows m t"
proof (cases "kv_view m t")
  case None
  with assms(2) show ?thesis by (simp add: kv_rows_def)
next
  case (Some p)
  obtain ids n where p: "p = (ids, n)" by (cases p)
  have "rows_of (kv_pages m') ids n = rows_of (kv_pages m) ids n"
    using rows_of_cong [OF kv_compactD [OF assms(1) Some [unfolded p]] assms(3)] assms(4) Some p
    by (simp add: own_of_def)
  with Some p assms(2) show ?thesis by (simp add: kv_rows_def)
qed

lemma append_in_place:
  assumes inv: "kv_inv m" "kv_compact m" and v: "kv_view m s = Some (ids, n)" and part: "n mod PAGE_TOKENS \<noteq> 0"
    and row: "length ks = kc_hidden_dim (kv_config m)" "length vs = kc_hidden_dim (kv_config m)"
  shows "\<exists>m'. finish_append s n ks vs m = (Some (Inr ()), m') \<and> kv_inv m' \<and> kv_compact m' \<and>
    kv_rows m' = (kv_rows m)(s \<mapsto> the (kv_rows m s) @ [(ks, vs)])"
proof -
  have len: "length ids = Suc (n div PAGE_TOKENS)"
    using inv(2) v part by (simp add: kv_compact_def pages_needed_Suc)
  obtain m' where m': "finish_append s n ks vs m = (Some (Inr ()), m')" "kv_inv m'" "kv_config m' = kv_config m"
    "kv_view m' = (kv_view m)(s \<mapsto> (ids, Suc n))" "rows_of (kv_pages m') ids (Suc n) = rows_of (kv_pages m) ids n @ [(ks, vs)]"
    "\<forall>t. t \<noteq> s \<longrightarrow> (\<forall>j \<in> set (own_of (kv_view m) t). pt_content (kv_pages m') j = pt_content (kv_pages m) j)"
    using finish_append_spec [OF inv(1) v len row] by blast
  have dim: "pt_hidden_dim (kv_pages m') = pt_hidden_dim (kv_pages m)"
    using inv(1) m'(2,3) by (simp add: kv_inv_def)
  have "kv_rows m' = (kv_rows m)(s \<mapsto> the (kv_rows m s) @ [(ks, vs)])"
  proof
    fix t
    show "kv_rows m' t = ((kv_rows m)(s \<mapsto> the (kv_rows m s) @ [(ks, vs)])) t"
      using kv_rows_cong [OF inv(2) _ dim, of t] m'(4-6) v by (cases "t = s") (simp_all add: kv_rows_def)
  qed
  moreover have "kv_compact m'"
    using inv(2) m'(4) len by (auto simp: kv_compact_def pages_needed_Suc split: if_splits)
  ultimately show ?thesis using m'(1,2) by blast
qed

lemma append_on_new_page:
  assumes inv: "kv_inv m" "kv_compact m" and v: "kv_view m s = Some (ids, n)" and full: "n mod PAGE_TOKENS = 0"
    and row: "length ks = kc_hidden_dim (kv_config m)" "length vs = kc_hidden_dim (kv_config m)"
    and alloc: "allocate_page (kv_pages m) = Some (i, pt)"
  shows "\<exists>m'. finish_append s n ks vs (push_page s i (m\<lparr>kv_pages := pt\<rparr>)) = (Some (Inr ()), m') \<and>
    kv_inv m' \<and> kv_compact m' \<and> kv_rows m' = (kv_rows m)(s \<mapsto> the (kv_rows m s) @ [(ks, vs)])"
proof -
  define m1 where "m1 = push_page s i (m\<lparr>kv_pages := pt\<rparr>)"
  note pp = push_page_spec [OF inv(1) alloc m1_def]
  have view1: "kv_view m1 = (kv_view m)(s \<mapsto> (ids @ [i], n))"
    using pp(4) v by simp
  have len0: "length ids = n div PAGE_TOKENS"
    using inv(2) v full by (simp add: kv_compact_def pages_needed_Suc)
  then have len: "length (ids @ [i]) = Suc (n div PAGE_TOKENS)" by simp
  have v1: "kv_view m1 s = Some (ids @ [i], n)" by (simp add: view1)
  obtain m' where m': "finish_append s n ks vs m1 = (Some (Inr ()), m')" "kv_inv m'" "kv_config m' = kv_config m1"
    "kv_view m' = (kv_view m1)(s \<mapsto> (ids @ [i], Suc n))"
    "rows_of (kv_pages m') (ids @ [i]) (Suc n) = rows_of (kv_pages m1) (ids @ [i]) n @ [(ks, vs)]"
    "\<forall>t. t \<noteq> s \<longrightarrow> (\<forall>j \<in> set (own_of (kv_view m1) t). pt_content (kv_pages m') j = pt_content (kv_pages m1) j)"
    using finish_append_spec [OF pp(1) v1 len row [folded pp(2)]] by blast
  have dims: "pt_hidden_dim (kv_pages m1) = pt_hidden_dim (kv_pages m)" "pt_hidden_dim (kv_pages m') = pt_hidden_dim (kv_pages m)"
    using inv(1) pp(1,2) m'(2,3) by (simp_all add: kv_inv_def)
  have bound: "n \<le> PAGE_TOKENS * length ids" by (rule kv_compactD [OF inv(2) v])
  have "rows_of (kv_pages m1) (ids @ [i]) n = rows_of (kv_pages m) ids n"
    unfolding rows_of_extend [OF bound]
    by (rule rows_of_cong [OF bound dims(1)]) (use pp(3) pp(5) [of _ s] v in \<open>simp add: own_of_def\<close>)
  moreover have "kv_rows m' t = kv_rows m t" if "t \<noteq> s" for t
    using that m'(4,6) pp(3) pp(5) [of _ t] view1
    by (intro kv_rows_cong [OF inv(2) _ dims(2)]) (auto simp: own_of_def)
  ultimately have "kv_rows m' = (kv_rows m)(s \<mapsto> the (kv_rows m s) @ [(ks, vs)])"
    using v m'(4,5) by (auto simp: kv_rows_def fun_eq_iff)
  moreover have "kv_compact m'"
    using inv(2) m'(4) view1 len by (auto simp: kv_compact_def pages_needed_Suc split: if_splits)
  ultimately show ?thesis using m'(1,2) by (auto simp: m1_def)
qed

subsection \<open>The whole append\<close>

text \<open>The state after the first phase: the sequence is the most recently used one, and nothing else changed.\<close>

definition noted :: "instant \<Rightarrow> u64 \<Rightarrow> seq_entry \<Rightarrow> 'a kv_cache \<Rightarrow> 'a kv_cache" where
  "noted now s e m = set_entry s (accessed now e) (kv_touch s m)"

lemma noted_simps:
  assumes "lookup_entry s m = Some e"
  shows "kv_view (noted now s e m) = kv_view m" "kv_pages (noted now s e m) = kv_pages m"
    "kv_config (noted now s e m) = kv_config m" "kv_rows (noted now s e m) = kv_rows m"
    "kv_inv (noted now s e m) \<longleftrightarrow> kv_inv m" "kv_compact (noted now s e m) \<longleftrightarrow> kv_compact m"
proof -
  show view: "kv_view (noted now s e m) = kv_view m"
    using view_accessed [OF assms, of now] by (simp add: noted_def)
  show pt: "kv_pages (noted now s e m) = kv_pages m" and cfg: "kv_config (noted now s e m) = kv_config m"
    by (simp_all add: noted_def)
  show "kv_rows (noted now s e m) = kv_rows m"
    by (simp add: fun_eq_iff kv_rows_def view pt)
  show "kv_inv (noted now s e m) \<longleftrightarrow> kv_inv m" "kv_compact (noted now s e m) \<longleftrightarrow> kv_compact m"
    by (simp_all add: kv_inv_def kv_compact_def view pt cfg)
qed

lemma append_kv_noted:
  "append_kv now s ks vs m =
     (case lookup_entry s m of
        None \<Rightarrow> (Some (Inl (SequenceNotFound s)), kv_touch s m)
      | Some e \<Rightarrow>
          if seq_len e mod PAGE_TOKENS = 0 \<or> page_ids e = []
          then (case allocate_page_for_seq s (noted now s e m) of
                  (Inl err, m3) \<Rightarrow> (Some (Inl err), m3)
                | (Inr _, m3) \<Rightarrow> finish_append s (seq_len e) ks vs m3)
          else finish_append s (seq_len e) ks vs (noted now s e m))"
  by (simp add: append_kv_def noted_def Let_def split: option.splits)

text \<open>The outcome of an append that may have evicted the sequences in \<open>V\<close> to find a page.\<close>

definition append_outcome ::
  "u64 \<Rightarrow> 'a list \<Rightarrow> 'a list \<Rightarrow> u64 set \<Rightarrow> (u64 \<Rightarrow> ('a list \<times> 'a list) list option)
   \<Rightarrow> (kv_error + unit) option \<Rightarrow> (u64 \<Rightarrow> ('a list \<times> 'a list) list option) \<Rightarrow> bool"
where
  "append_outcome s ks vs V rows res rows' =
     (case res of
        None \<Rightarrow> False
      | Some (Inl e) \<Rightarrow> rows' = (\<lambda>t. if t \<in> V then None else rows t)
      | Some (Inr _) \<Rightarrow> s \<notin> V \<and> rows s \<noteq> None \<and>
          rows' = (\<lambda>t. if t \<in> V then None else if t = s then Some (the (rows s) @ [(ks, vs)]) else rows t))"

lemma push_page_missing:
  "lookup_entry s m = None \<Longrightarrow> push_page s i m = m"
  by (simp add: push_page_def)

lemma append_after_allocation:
  assumes inv: "kv_inv m" "kv_compact m" and v: "kv_view m s = Some (ids, n)" and full: "n mod PAGE_TOKENS = 0"
    and row: "length ks = kc_hidden_dim (kv_config m)" "length vs = kc_hidden_dim (kv_config m)"
    and ev: "evicts V m m1" and alloc: "allocate_page (kv_pages m1) = Some (i, pt)"
    and fin: "finish_append s n ks vs (push_page s i (m1\<lparr>kv_pages := pt\<rparr>)) = (res, m')"
  shows "kv_inv m' \<and> kv_compact m' \<and> append_outcome s ks vs V (kv_rows m) res (kv_rows m')"
proof -
  note er = evicts_rows [OF ev inv(2,1)]
  have inv1: "kv_inv m1" "kv_config m1 = kv_config m" and view1: "kv_view m1 = (\<lambda>s. if s \<in> V then None else kv_view m s)"
    using ev by (auto simp: evicts_def)
  show ?thesis
  proof (cases "s \<in> V")
    case True
    then have "kv_view m1 s = None"
      using view1 by simp
    then have none: "lookup_entry s m1 = None"
      by (simp add: kv_view_def)
    let ?m2 = "m1\<lparr>kv_pages := pt\<rparr>"
    have pp: "push_page s i ?m2 = ?m2"
      using none by (simp add: push_page_missing)
    have m': "m' = ?m2" and res: "res = Some (Inl (SequenceNotFound s))"
      using fin none by (simp_all add: pp finish_append_def)
    note ps = push_page_spec [OF inv1(1) alloc pp [symmetric]]
    have dim: "pt_hidden_dim (kv_pages ?m2) = pt_hidden_dim (kv_pages m1)"
      using ps(1,2) inv1(1) by (simp add: kv_inv_def)
    have "kv_rows ?m2 t = kv_rows m1 t" for t
      by (rule kv_rows_cong [OF er(2) _ dim]) (use ps(3) ps(5) [of _ t] in auto)
    moreover have "kv_compact ?m2"
      using er(2) by (simp add: kv_compact_def)
    ultimately show ?thesis
      using ps(1) er(1) by (auto simp: append_outcome_def m' res fun_eq_iff)
  next
    case False
    then have v1: "kv_view m1 s = Some (ids, n)"
      using view1 v by simp
    obtain m2 where "finish_append s n ks vs (push_page s i (m1\<lparr>kv_pages := pt\<rparr>)) = (Some (Inr ()), m2)"
      "kv_inv m2" "kv_compact m2" "kv_rows m2 = (kv_rows m1)(s \<mapsto> the (kv_rows m1 s) @ [(ks, vs)])"
      using append_on_new_page [OF inv1(1) er(2) v1 full row [folded inv1(2)] alloc] by blast
    with fin False v er(1) show ?thesis
      by (auto simp: append_outcome_def kv_rows_def fun_eq_iff)
  qed
qed

lemma append_kv_outcome:
  assumes inv: "kv_inv m" "kv_compact m"
    and row: "length ks = kc_hidden_dim (kv_config m)" "length vs = kc_hidden_dim (kv_config m)"
    and app: "append_kv now s ks vs m = (res, m')"
  shows "kv_inv m' \<and> kv_compact m' \<and>
    (\<exists>V. V \<subseteq> set (take 1 (access_order (touch s (sequences m)))) \<and>
       append_outcome s ks vs V (kv_rows m) res (kv_rows m'))"
proof (cases "lookup_entry s m")
  case None
  with app have "res = Some (Inl (SequenceNotFound s))" "m' = kv_touch s m"
    by (simp_all add: append_kv_noted)
  with inv show ?thesis
    by (auto simp: kv_inv_def kv_compact_def append_outcome_def kv_rows_def fun_eq_iff intro!: exI [of _ "{}"])
next
  case (Some e)
  let ?m = "noted now s e m"
  note ns = noted_simps [OF Some, of now]
  have v: "kv_view ?m s = Some (page_ids e, seq_len e)"
    using Some ns(1) by (simp add: kv_view_def)
  have inv': "kv_inv ?m" "kv_compact ?m" and row': "length ks = kc_hidden_dim (kv_config ?m)" "length vs = kc_hidden_dim (kv_config ?m)"
    using inv row ns by auto
  have order: "access_order (sequences ?m) = access_order (touch s (sequences m))"
    by (simp add: noted_def set_entry_def kv_touch_def)
  show ?thesis
  proof (cases "seq_len e mod PAGE_TOKENS = 0")
    case True
    obtain r m3 where al: "allocate_page_for_seq s ?m = (r, m3)" by (cases "allocate_page_for_seq s ?m")
    obtain V m1 where V: "V \<subseteq> set (take 1 (access_order (sequences ?m)))" "evicts V ?m m1"
      and c: "case r of Inl e \<Rightarrow> m3 = m1 | Inr _ \<Rightarrow> \<exists>i pt. allocate_page (kv_pages m1) = Some (i, pt) \<and>
        m3 = push_page s i (m1\<lparr>kv_pages := pt\<rparr>)"
      using allocate_page_for_seq_spec [OF inv'(1) al] by blast
    show ?thesis
    proof (cases r)
      case (Inl err)
      with app Some True al c have "res = Some (Inl err)" "m' = m1"
        by (simp_all add: append_kv_noted)
      with evicts_rows [OF V(2) inv'(2,1), unfolded ns(4)] V order show ?thesis
        by (auto simp: append_outcome_def evicts_def)
    next
      case (Inr u)
      then obtain i pt where "allocate_page (kv_pages m1) = Some (i, pt)"
        and m3: "m3 = push_page s i (m1\<lparr>kv_pages := pt\<rparr>)"
        using c by auto
      moreover have "finish_append s (seq_len e) ks vs m3 = (res, m')"
        using app Some True al Inr by (simp add: append_kv_noted)
      ultimately have "kv_inv m' \<and> kv_compact m' \<and> append_outcome s ks vs V (kv_rows ?m) res (kv_rows m')"
        using append_after_allocation [OF inv' v True row' V(2)] by blast
      with V(1) ns(4) order show ?thesis by auto
    qed
  next
    case False
    have "length (page_ids e) = pages_needed (seq_len e)"
      using inv'(2) v by (simp add: kv_compact_def)
    with pages_needed_Suc(3) [OF False] have "page_ids e \<noteq> []" by auto
    with False app Some have fin: "finish_append s (seq_len e) ks vs ?m = (res, m')"
      by (simp add: append_kv_noted)
    have "kv_rows m s \<noteq> None"
      using Some by (simp add: kv_rows_def kv_view_def)
    with fin append_in_place [OF inv' v False row', unfolded ns(4)] show ?thesis
      by (auto simp: append_outcome_def fun_eq_iff intro!: exI [of _ "{}"])
  qed
qed

section \<open>Every operation keeps the ownership of pages exclusive\<close>

text \<open>The calls a client can make, with rows of any length, and with panics recovered.\<close>

inductive kv_step :: "'a::zero kv_cache \<Rightarrow> 'a kv_cache \<Rightarrow> bool" where
  step_alloc: "allocate_sequence now m = (i, m') \<Longrightarrow> kv_step m m'"
| step_append: "append_kv now s ks vs m = (res, m') \<Longrightarrow> kv_step m m'"
| step_free: "free_sequence s m = (fres, m') \<Longrightarrow> kv_step m m'"
| step_read: "read_kv now s pos ko vo m = (rres, m') \<Longrightarrow> kv_step m m'"
| step_window: "evict_beyond_window s pos m = (n, m') \<Longrightarrow> kv_step m m'"
| step_reset: "kv_step m (kv_reset m)"

lemma owns_own_empty: "pool.owns pt own \<Longrightarrow> pool.owns pt (own(s := []))"
  by (auto simp: pool.owns_def)

lemma kv_inv_new: "kc_max_pages cfg < two64 \<Longrightarrow> kv_inv (kv_new cfg)"
  by (simp add: kv_inv_def kv_new_def pool.owns_def pt_wf_new own_of_def kv_view_def lookup_entry_def)
    (simp add: pt_new_def)

lemma kv_inv_alloc: "kv_inv m \<Longrightarrow> allocate_sequence now m = (i, m') \<Longrightarrow> kv_inv m'"
proof -
  assume inv: "kv_inv m" and a: "allocate_sequence now m = (i, m')"
  have "kv_view m' = (kv_view m)(i \<mapsto> ([], 0))" "kv_pages m' = kv_pages m" "kv_config m' = kv_config m"
    using a by (auto simp: allocate_sequence_def Let_def kv_view_def lookup_entry_def fun_eq_iff)
  with inv show ?thesis by (simp add: kv_inv_def own_of_upd owns_own_empty)
qed

lemma kv_inv_finish_append:
  assumes inv: "kv_inv m" and fin: "finish_append s n ks vs m = (res, m')"
  shows "kv_inv m'"
proof (cases "lookup_entry s m")
  case None
  with assms show ?thesis by (simp add: finish_append_def)
next
  case (Some e)
  let ?l = "last (page_ids e)" and ?pt = "kv_pages m"
  show ?thesis
  proof (cases "page_ids e = []")
    case True
    with Some assms show ?thesis by (simp add: finish_append_def)
  next
    case False
    have owns: "pool.owns ?pt (own_of (kv_view m))"
      using inv by (simp add: kv_inv_def)
    have live: "?l \<in> pt_live ?pt"
      using owns own_lookup [OF Some] False unfolding pool.owns_def by (metis last_in_set subsetD)
    then have l: "?l < length (pages ?pt)" and ok: "page_ok (pt_hidden_dim ?pt) ?l (pages ?pt ! ?l)"
      using owns by (auto simp: pt_live_def pool.owns_def pt_wf_def)
    obtain b p' where w: "page_write (n mod PAGE_TOKENS) ks vs (pages ?pt ! ?l) = (b, p')"
      by (cases "page_write (n mod PAGE_TOKENS) ks vs (pages ?pt ! ?l)")
    have upd: "pool.owns (pt_update ?l p' ?pt) (own_of (kv_view m))"
      by (rule owns_update [OF owns live page_write_keeps_ok [OF ok w]])
    have "kv_pages m' = pt_update ?l p' ?pt" "kv_config m' = kv_config m" "own_of (kv_view m') = own_of (kv_view m)"
      using fin Some False l w own_lookup [OF Some]
      by (cases b; auto simp: finish_append_def write_to_page_def pt_page_def own_of_upd fun_upd_idem)+
    with upd inv show ?thesis by (simp add: kv_inv_def) (simp add: pt_update_def)
  qed
qed

lemma kv_inv_touch [simp]: "kv_inv (kv_touch s m) \<longleftrightarrow> kv_inv m"
  by (simp add: kv_inv_def)

lemma kv_inv_alloc_page:
  assumes "kv_inv m" and "allocate_page_for_seq s m = (r, m3)"
  shows "kv_inv m3"
proof -
  obtain V m1 where "evicts V m m1" and c: "case r of Inl e \<Rightarrow> m3 = m1 | Inr _ \<Rightarrow>
      \<exists>i pt. allocate_page (kv_pages m1) = Some (i, pt) \<and> m3 = push_page s i (m1\<lparr>kv_pages := pt\<rparr>)"
    using allocate_page_for_seq_spec [OF assms] by blast
  then have "kv_inv m1" by (simp add: evicts_def)
  with c show ?thesis by (cases r) (auto intro: push_page_spec(1))
qed

lemma kv_inv_append: "kv_inv m \<Longrightarrow> append_kv now s ks vs m = (res, m') \<Longrightarrow> kv_inv m'"
proof (cases "lookup_entry s m")
  case (Some e)
  assume inv: "kv_inv m" and app: "append_kv now s ks vs m = (res, m')"
  let ?m = "noted now s e m"
  have inv': "kv_inv ?m" using inv noted_simps [OF Some] by simp
  obtain r m3 where al: "allocate_page_for_seq s ?m = (r, m3)" by (cases "allocate_page_for_seq s ?m")
  have "kv_inv m3" by (rule kv_inv_alloc_page [OF inv' al])
  with inv' app Some al show ?thesis
    by (auto simp: append_kv_noted split: if_splits sum.splits intro: kv_inv_finish_append)
qed (auto simp: append_kv_noted)

lemma kv_inv_window: "kv_inv m \<Longrightarrow> evict_pages_before s cutoff m = (n, m') \<Longrightarrow> kv_inv m'"
proof (cases "lookup_entry s m")
  case (Some e)
  assume inv: "kv_inv m" and ev: "evict_pages_before s cutoff m = (n, m')"
  show ?thesis
  proof (cases "cutoff div PAGE_TOKENS = 0")
    case False
    let ?n = "min (cutoff div PAGE_TOKENS) (length (page_ids e))"
    have "kv_view m' = (kv_view m)(s \<mapsto> (drop ?n (page_ids e), seq_len e))" "kv_config m' = kv_config m"
      "kv_pages m' = pt_free (take ?n (page_ids e)) (kv_pages m)"
      using ev Some False by (auto simp: evict_pages_before_def Let_def)
    with inv pool.owns_free_prefix(1) [of "kv_pages m" "own_of (kv_view m)" ?n s] own_lookup [OF Some]
    show ?thesis by (simp add: kv_inv_def own_of_upd)
  qed (use inv ev Some in \<open>simp add: evict_pages_before_def\<close>)
qed (simp add: evict_pages_before_def)

lemma kv_inv_step:
  assumes "kv_step m m'" and "kv_inv m"
  shows "kv_inv m'"
  using assms
proof (cases rule: kv_step.cases)
  case (step_free s fres)
  with assms(2) show ?thesis
    by (cases fres) (auto dest: free_sequence_error free_sequence_evicts simp: evicts_def)
next
  case (step_read now s pos ko vo rres)
  with assms(2) noted_simps(5) [of s m _ now] show ?thesis
    by (auto simp: read_kv_def Let_def noted_def [symmetric] split: option.splits if_splits)
next
  case (step_window s pos n)
  with assms(2) show ?thesis
    by (auto simp: evict_beyond_window_def Let_def split: option.splits if_splits intro: kv_inv_window)
next
  case step_reset
  then have "kv_view m' = (\<lambda>_. None)" "kv_pages m' = kv_pages m" "kv_config m' = kv_config m"
    by (auto simp: kv_reset_def kv_view_def lookup_entry_def fun_eq_iff)
  moreover have "own_of (\<lambda>_. None) = (\<lambda>_. [])" by (simp add: own_of_def fun_eq_iff)
  ultimately show ?thesis
    using assms(2) pool.owns_forget by (auto simp: kv_inv_def)
qed (auto intro: kv_inv_alloc kv_inv_append)

lemma kv_config_free [simp]: "free_sequence s m = (r, m') \<Longrightarrow> kv_config m' = kv_config m"
  by (auto simp: free_sequence_def Let_def split: option.splits)

lemma kv_config_evict: "evict_lru m = (r, m') \<Longrightarrow> kv_config m' = kv_config m"
  by (auto simp: evict_lru_def split: list.splits dest: kv_config_free)

lemma kv_config_push [simp]: "kv_config (push_page s i m) = kv_config m"
  by (simp add: push_page_def split: option.splits)

lemma kv_config_allocate: "allocate_page_for_seq s m = (r, m') \<Longrightarrow> kv_config m' = kv_config m"
  by (auto simp: allocate_page_for_seq_def split: option.splits sum.splits prod.splits dest: kv_config_evict)

lemma kv_config_finish: "finish_append s n ks vs m = (r, m') \<Longrightarrow> kv_config m' = kv_config m"
  by (auto simp: finish_append_def write_to_page_def split: option.splits if_splits prod.splits bool.splits)

lemma kv_config_append: "append_kv now s ks vs m = (r, m') \<Longrightarrow> kv_config m' = kv_config m"
  by (auto simp: append_kv_noted noted_def split: option.splits if_splits prod.splits sum.splits
      dest!: kv_config_allocate kv_config_finish)

lemma kv_config_step: "kv_step m m' \<Longrightarrow> kv_config m' = kv_config m"
  by (erule kv_step.cases)
    (auto simp: allocate_sequence_def read_kv_def evict_beyond_window_def evict_pages_before_def kv_reset_def Let_def
      split: option.splits if_splits dest: kv_config_free kv_config_append)

lemma kv_alloc_blank:
  assumes "kv_inv m" and "allocate_page (kv_pages m) = Some (i, pt)"
  shows "pages pt ! i = page_new i (kc_hidden_dim (kv_config m))" "i \<notin> set (own_of (kv_view m) s)"
proof -
  have wf: "pt_wf (kv_pages m)" and dim: "pt_hidden_dim (kv_pages m) = kc_hidden_dim (kv_config m)"
    using assms(1) by (auto simp: kv_inv_def pool.owns_def)
  show "pages pt ! i = page_new i (kc_hidden_dim (kv_config m))"
    using assms(2) wf dim
    by (auto simp: allocate_page_def get_or_create_page_def Let_def pt_wf_def nth_append
        split: list.splits if_splits)
  show "i \<notin> set (own_of (kv_view m) s)"
    using assms pt_wf_alloc [OF wf assms(2)] by (auto simp: kv_inv_def pool.owns_def)
qed

lemma kv_inv_reach:
  assumes "kv_step\<^sup>*\<^sup>* (kv_new cfg) m" and "kc_max_pages cfg < two64"
  shows "kv_inv m"
  using assms(1) by (induction rule: rtranclp_induct) (auto intro: kv_inv_new [OF assms(2)] kv_inv_step)

section \<open>Properties of the cache\<close>



lemma read_page_row:
  assumes inv: "kv_inv m" and live: "i \<in> pt_live (kv_pages m)" and slot: "slot < PAGE_TOKENS"
    and d: "d = kc_hidden_dim (kv_config m)"
  shows "read_from_page_table i slot d d m = Some (Inr (content_row d (pt_content (kv_pages m) i) slot))"
proof -
  let ?pt = "kv_pages m"
  have i: "i < length (pages ?pt)" and ok: "page_ok d i (pages ?pt ! i)"
    using inv live d by (auto simp: kv_inv_def pool.owns_def pt_live_def pt_wf_def)
  have bound: "slot * d + d \<le> PAGE_TOKENS * d"
    using slot by (metis Suc_leI add.commute mult_Suc mult_le_mono1)
  have "length (fst (content_row d (page_content_of (pages ?pt ! i)) slot)) = d"
    "length (snd (content_row d (page_content_of (pages ?pt ! i)) slot)) = d"
    using ok bound by (auto simp: content_row_def page_content_of_def page_ok_def)
  then show ?thesis
    using i page_reads_defined [OF ok slot] by (simp add: read_from_page_table_def pt_page_def pt_content_def)
qed

lemma owned_live:
  "kv_inv m \<Longrightarrow> kv_view m s = Some (ids, n) \<Longrightarrow> k < length ids \<Longrightarrow> ids ! k \<in> pt_live (kv_pages m)"
  unfolding kv_inv_def pool.owns_def own_of_def
  by (metis (mono_tags, lifting) case_prod_conv nth_mem option.simps(5) subsetD)

lemma read_row:
  assumes inv: "kv_inv m" "kv_compact m" and v: "kv_view m s = Some (ids, n)" and pos: "pos < n"
  shows "read_from_page_table (ids ! (pos div PAGE_TOKENS)) (pos mod PAGE_TOKENS)
      (kc_hidden_dim (kv_config m)) (kc_hidden_dim (kv_config m)) m = Some (Inr (rows_of (kv_pages m) ids n ! pos))"
    "pos div PAGE_TOKENS < length ids"
proof -
  show idx: "pos div PAGE_TOKENS < length ids"
    using kv_compactD [OF inv(2) v] pos by (simp add: PAGE_TOKENS_def)
  have "pt_hidden_dim (kv_pages m) = kc_hidden_dim (kv_config m)" using inv(1) by (simp add: kv_inv_def)
  then show "read_from_page_table (ids ! (pos div PAGE_TOKENS)) (pos mod PAGE_TOKENS)
      (kc_hidden_dim (kv_config m)) (kc_hidden_dim (kv_config m)) m = Some (Inr (rows_of (kv_pages m) ids n ! pos))"
    using read_page_row [OF inv(1) owned_live [OF inv(1) v idx], of "pos mod PAGE_TOKENS"] pos
    by (simp add: rows_of_def) (simp add: PAGE_TOKENS_def)
qed

text \<open>
  \<open>read_kv\<close> reads what was appended: at a position inside the sequence it returns exactly the row
  appended there, beyond the end it reports the bounds, for an unknown sequence it says so, and in
  every case it leaves the rows of every sequence unchanged.
\<close>

theorem read_kv_reads_rows:
  assumes "kv_inv m" and "kv_compact m"
    and "read_kv now s pos (kc_hidden_dim (kv_config m)) (kc_hidden_dim (kv_config m)) m = (res, m')"
  shows "kv_rows m' = kv_rows m \<and>
    res = Some (case kv_rows m s of
        None \<Rightarrow> Inl (SequenceNotFound s)
      | Some rows \<Rightarrow> if pos < length rows then Inr (rows ! pos) else Inl (PositionOutOfBounds pos (length rows)))"
proof (cases "lookup_entry s m")
  case None
  with assms(3) show ?thesis
    by (auto simp: read_kv_def kv_rows_def kv_view_def fun_eq_iff)
next
  case (Some e)
  let ?d = "kc_hidden_dim (kv_config m)"
  have v: "kv_view m s = Some (page_ids e, seq_len e)" by (rule kv_view_lookup [OF Some])
  have rows: "kv_rows m s = Some (rows_of (kv_pages m) (page_ids e) (seq_len e))" by (simp add: kv_rows_def v)
  have len: "length (rows_of (kv_pages m) (page_ids e) (seq_len e)) = seq_len e" by (simp add: rows_of_def)
  note ns = noted_simps [OF Some, of now]
  show ?thesis
  proof (cases "pos < seq_len e")
    case True
    have same: "read_from_page_table i slot ko vo (noted now s e m) = read_from_page_table i slot ko vo m" for i slot ko vo
      by (simp add: read_from_page_table_def ns(2))
    from True assms(3) Some read_row [OF assms(1,2) v True]
    have "m' = noted now s e m" "res = Some (Inr (rows_of (kv_pages m) (page_ids e) (seq_len e) ! pos))"
      by (auto simp: read_kv_def Let_def noted_def [symmetric] same)
    with True show ?thesis by (simp add: rows len ns(4))
  next
    case False
    with assms(3) Some have "m' = kv_touch s m" "res = Some (Inl (PositionOutOfBounds pos (seq_len e)))"
      by (simp_all add: read_kv_def)
    moreover have "kv_rows (kv_touch s m) = kv_rows m" by (simp add: kv_rows_def fun_eq_iff)
    ultimately show ?thesis using False by (simp add: rows len)
  qed
qed

subsection \<open>A cache with two sequences\<close>

definition sample_kv_config :: kv_config where
  "sample_kv_config = kv_config_default\<lparr>kc_hidden_dim := 1, kc_max_pages := 2\<rparr>"

definition sample_alloc :: "nat kv_cache" where
  "sample_alloc = snd (allocate_sequence 0 (snd (allocate_sequence 0 (kv_new sample_kv_config))))"

definition sample_one :: "nat kv_cache" where
  "sample_one = snd (append_kv 0 1 [5] [6] sample_alloc)"

definition sample_cache :: "nat kv_cache" where
  "sample_cache = snd (append_kv 0 2 [7] [8] sample_one)"

lemmas kv_eval = append_kv_def kv_touch_def touch_def lookup_entry_def set_entry_def accessed_def
  allocate_page_for_seq_def push_page_def finish_append_def write_to_page_def pt_page_def pt_update_def
  page_write_def page_new_def copy_into_def allocate_page_def get_or_create_page_def PAGE_TOKENS_def Let_def
  allocate_sequence_def kv_new_def pt_new_def sample_kv_config_def kv_config_default_def

lemma sample_alloc_eval:
  "sample_alloc =
     \<lparr>kv_config = sample_kv_config, kv_pages = pt_new 1 2,
      sequences = \<lparr>entries = [(1, \<lparr>se_id = 1, page_ids = [], seq_len = 0, last_access = 0, access_count = 0\<rparr>),
                              (2, \<lparr>se_id = 2, page_ids = [], seq_len = 0, last_access = 0, access_count = 0\<rparr>)],
                   access_order = [1, 2]\<rparr>, next_seq_id = 3\<rparr>"
  by (simp add: sample_alloc_def kv_eval two64_numeral)

lemma sample_one_eval:
  "append_kv 0 1 [5] [6] sample_alloc = (Some (Inr ()), sample_one)"
  "lookup_entry 1 sample_one = Some \<lparr>se_id = 1, page_ids = [0], seq_len = 1, last_access = 0, access_count = 1\<rparr>"
  by (simp_all add: sample_one_def sample_alloc_eval kv_eval two64_numeral)

lemma sample_cache_eval:
  "lookup_entry 1 sample_cache = Some \<lparr>se_id = 1, page_ids = [0], seq_len = 1, last_access = 0, access_count = 1\<rparr>"
  "lookup_entry 2 sample_cache = Some \<lparr>se_id = 2, page_ids = [1], seq_len = 1, last_access = 0, access_count = 1\<rparr>"
  by (simp_all add: sample_cache_def sample_one_def sample_alloc_eval kv_eval two64_numeral)

lemma sample_cache_reach: "kv_step\<^sup>*\<^sup>* (kv_new sample_kv_config) sample_cache"
proof -
  have alloc: "kv_step m (snd (allocate_sequence now m))" for now and m :: "nat kv_cache"
    by (rule step_alloc [OF prod.collapse [symmetric]])
  have app: "kv_step m (snd (append_kv now s ks vs m))" for now s ks vs and m :: "nat kv_cache"
    by (rule step_append [OF prod.collapse [symmetric]])
  show ?thesis
    unfolding sample_cache_def sample_one_def sample_alloc_def
    using alloc app by (meson rtranclp.rtrancl_into_rtrancl rtranclp.rtrancl_refl)
qed


lemma sample_alloc_inv: "kv_inv sample_alloc" "kv_compact sample_alloc"
proof -
  have "kv_view sample_alloc = (\<lambda>s. if s = 1 \<or> s = 2 then Some ([], 0) else None)"
    by (auto simp: kv_view_def lookup_entry_def sample_alloc_eval fun_eq_iff)
  then show "kv_inv sample_alloc" "kv_compact sample_alloc"
    using pt_wf_new [of 2 1]
    by (auto simp: kv_inv_def kv_compact_def pool.owns_def own_of_def pages_needed_def PAGE_TOKENS_def
        sample_alloc_eval sample_kv_config_def two64_numeral) (simp add: pt_new_def)
qed


theorem read_kv_reads_rows_witness:
  "fst (read_kv 0 1 3 1 1 sample_alloc) = Some (Inl (PositionOutOfBounds 3 0))"
proof -
  have d: "kc_hidden_dim (kv_config sample_alloc) = 1"
    by (simp add: sample_alloc_eval sample_kv_config_def)
  have "kv_rows sample_alloc 1 = Some []"
    by (simp add: kv_rows_def kv_view_def lookup_entry_def sample_alloc_eval rows_of_def)
  with read_kv_reads_rows [OF sample_alloc_inv prod.collapse [symmetric], of 0 1 3]
  show ?thesis by (simp add: d)
qed

subsection \<open>Where the manager loses pages and positions\<close>

text \<open>
  A sequence that needs a page while it is the only one in the access order is its own victim: the
  append fails with \<open>SequenceNotFound\<close>, the sequence is gone, and the page allocated for it belongs to
  nobody.
\<close>

lemma lone_sequence_evicts_itself:
  assumes "lookup_entry s m = Some e" and "page_ids e \<noteq> []" and "seq_len e mod PAGE_TOKENS = 0"
    and "allocate_page (kv_pages m) = None" and "access_order (sequences m) = [s]"
    and "set (page_ids e) \<subseteq> {..<length (pages (kv_pages m))}"
  shows "\<exists>m'. append_kv now s ks vs m = (Some (Inl (SequenceNotFound s)), m') \<and> lookup_entry s m' = None"
proof -
  let ?m = "noted now s e m"
  have l: "lookup_entry s ?m = Some (accessed now e)" by (simp add: noted_def)
  have order: "access_order (sequences ?m) = [s]"
    using assms(5) by (simp add: noted_def set_entry_def kv_touch_def touch_def)
  have none: "allocate_page (kv_pages ?m) = None" using assms(4) by (simp add: noted_def)
  obtain m1 where ev: "evict_lru ?m = (Inr (), m1)" and gone: "lookup_entry s m1 = None"
    and pt: "kv_pages m1 = pt_free (page_ids e) (kv_pages ?m)"
    using l order by (auto simp: evict_lru_def free_sequence_def Let_def accessed_def)
      (simp_all add: lookup_entry_def)
  have "free_pages (kv_pages m1) = free_pages (kv_pages ?m) @ page_ids e"
    using pt_free_pages [of "page_ids e" "kv_pages ?m"] assms(6) by (simp add: pt noted_def)
  then obtain i pt' where al: "allocate_page (kv_pages m1) = Some (i, pt')"
    using assms(2) allocate_page_None [of "kv_pages m1"] by fastforce
  have "allocate_page_for_seq s ?m = (Inr (), m1\<lparr>kv_pages := pt'\<rparr>)"
    using none ev al gone by (simp add: allocate_page_for_seq_def push_page_def)
  with assms(1,3) gone show ?thesis
    by (simp add: append_kv_noted finish_append_def)
qed

text \<open>
  An id that was never allocated, or was freed, enters the access order when it is touched; once it is
  the oldest, it turns every allocation that needs an eviction into an error about that id.
\<close>

lemma ghost_blocks_eviction:
  assumes "access_order (sequences m) = g # order" and "lookup_entry g m = None"
    and "allocate_page (kv_pages m) = None"
  shows "fst (allocate_page_for_seq s m) = Inl (SequenceNotFound g)"
  using assms by (simp add: allocate_page_for_seq_def evict_lru_def free_sequence_def)

lemma unknown_id_becomes_ghost:
  "lookup_entry g m = None \<Longrightarrow> g \<in> set (access_order (sequences (snd (append_kv now g ks vs m))))"
  by (simp add: append_kv_noted kv_touch_def touch_def)

text \<open>
  \<open>reset\<close> forgets the sequences without freeing their pages: a cache that was full before it stays full
  for ever.
\<close>

lemma reset_loses_pages:
  assumes "allocate_page (kv_pages m) = None"
  shows "fst (append_kv now' (next_seq_id m) ks vs (snd (allocate_sequence now (kv_reset m)))) =
    Some (Inl MemoryExhausted)"
  using assms
  by (simp add: append_kv_def allocate_sequence_def kv_reset_def Let_def kv_touch_def touch_def lookup_entry_def
      set_entry_def accessed_def allocate_page_for_seq_def evict_lru_def free_sequence_def)

text \<open>
  Window eviction drops the front of the page list but positions keep counting from the start of the
  sequence, so a later read of position \<open>pos\<close> returns the row of the token \<open>16 * n\<close> positions further on,
  \<open>n\<close> being the number of evicted pages.
\<close>

lemma window_eviction_shifts_reads:
  assumes inv: "kv_inv m" "kv_compact m" and ev: "evict_pages_before s cutoff m = (n, m')"
    and rows: "kv_rows m s = Some rows" and pos: "pos + PAGE_TOKENS * n < length rows"
    and d: "d = kc_hidden_dim (kv_config m)"
  shows "fst (read_kv now s pos d d m') = Some (Inr (rows ! (pos + PAGE_TOKENS * n)))"
proof -
  obtain e where e: "lookup_entry s m = Some e"
    using rows by (auto simp: kv_rows_def kv_view_def)
  let ?ids = "page_ids e" and ?k = "seq_len e" and ?p = "pos + PAGE_TOKENS * n"
  have v: "kv_view m s = Some (?ids, ?k)" by (rule kv_view_lookup [OF e])
  have rs: "rows = rows_of (kv_pages m) ?ids ?k" and len: "length rows = ?k"
    using rows v by (auto simp: kv_rows_def rows_of_def)
  have n: "n \<le> length ?ids" and e': "lookup_entry s m' = Some (e\<lparr>page_ids := drop n ?ids\<rparr>)"
    and pt: "kv_pages m' = pt_free (take n ?ids) (kv_pages m)" and cfg: "kv_config m' = kv_config m"
    and view: "kv_view m' = (kv_view m)(s \<mapsto> (drop n ?ids, ?k))"
    using ev e by (auto simp: evict_pages_before_def Let_def kv_view_def fun_eq_iff split: if_splits)
  have idx: "?p div PAGE_TOKENS < length ?ids" and row: "read_from_page_table (?ids ! (?p div PAGE_TOKENS)) (?p mod PAGE_TOKENS) d d m =
      Some (Inr (rows ! ?p))"
    using read_row [OF inv v, of ?p] pos len d by (simp_all add: rs)
  have same: "?p div PAGE_TOKENS = n + pos div PAGE_TOKENS" "?p mod PAGE_TOKENS = pos mod PAGE_TOKENS"
    by (simp_all add: PAGE_TOKENS_def)
  have inv': "kv_inv m'" by (rule kv_inv_window [OF inv(1) ev])
  let ?i = "drop n ?ids ! (pos div PAGE_TOKENS)"
  have i: "?i = ?ids ! (?p div PAGE_TOKENS)" and idx': "pos div PAGE_TOKENS < length (drop n ?ids)"
    using n idx by (simp_all add: same less_diff_conv add.commute)
  have "?i \<in> set (((own_of (kv_view m))(s := drop n (own_of (kv_view m) s))) s)"
    using idx' own_lookup [OF e] nth_mem [OF idx'] by simp
  then have content: "pt_content (kv_pages m') ?i = pt_content (kv_pages m) ?i"
    using pool.owns_free_prefix(2) [of "kv_pages m" "own_of (kv_view m)" ?i s n s] inv(1) own_lookup [OF e]
    by (simp add: kv_inv_def pt)
  have slot: "pos mod PAGE_TOKENS < PAGE_TOKENS" by (simp add: PAGE_TOKENS_def)
  have "kv_view m' s = Some (drop n ?ids, ?k)" by (simp add: view)
  from read_page_row [OF inv' owned_live [OF inv' this idx'] slot] d cfg
  have "read_from_page_table ?i (pos mod PAGE_TOKENS) d d m' = Some (Inr (content_row d (pt_content (kv_pages m) ?i) (pos mod PAGE_TOKENS)))"
    by (simp add: content)
  also have "\<dots> = Some (Inr (rows ! ?p))"
    using row read_page_row [OF inv(1) owned_live [OF inv(1) v idx] slot d] by (simp add: i same(2))
  finally have "read_from_page_table ?i (pos mod PAGE_TOKENS) d d m' = Some (Inr (rows ! ?p))" .
  then show ?thesis
    using e' idx' pos len
    by (simp add: read_kv_def Let_def) (simp add: read_from_page_table_def)
qed

end
