(* ===== verification/Evicting_Caches.thy ===== *)
theory Evicting_Caches
  imports Engine_Types
begin

text \<open>
  The four bounded caches: deduplicated outputs (\<open>scheduler/dedup.rs\<close>), inference contexts and
  per-session KV state (\<open>memory/cache.rs\<close>), and prompt prefixes (\<open>memory/prompt_cache.rs\<close>).

  They share one contract, the locale \<open>evicting_cache\<close>: storing under a key makes that key hit with
  exactly the stored value, loses at most one other key, and keeps the size bounded. From it follows
  once for all of them that a hit is never stale. The SHA-256 hasher is a parameter: a start state, an
  update with the bytes of a token and a finalisation.
\<close>

section \<open>The contract\<close>

locale evicting_cache =
  fixes view :: "'s \<Rightarrow> 'k \<Rightarrow> 'v option"
    and put :: "'k \<Rightarrow> 'v \<Rightarrow> 's \<Rightarrow> 's"
    and size_of :: "'s \<Rightarrow> nat"
    and cap :: "'s \<Rightarrow> nat"
    and invar :: "'s \<Rightarrow> bool"
  assumes put_invar: "invar s \<Longrightarrow> invar (put k v s)"
    and put_cap: "cap (put k v s) = cap s"
    and put_view: "invar s \<Longrightarrow> \<exists>lost. view (put k v s) = ((view s)(lost := None))(k \<mapsto> v) \<or>
          view (put k v s) = (view s)(k \<mapsto> v)"
    and put_size: "invar s \<Longrightarrow> size_of (put k v s) \<le> max 1 (max (cap s) (size_of s))"
begin

lemma put_hit: "invar s \<Longrightarrow> view (put k v s) k = Some v"
  using put_view [of s k v] by auto

lemma put_other: "invar s \<Longrightarrow> j \<noteq> k \<Longrightarrow> view (put k v s) j = view s j \<or> view (put k v s) j = None"
  using put_view [of s k v] by (auto split: if_splits)

text \<open>The last value stored under each key by a sequence of stores.\<close>

definition last_put :: "('k \<times> 'v) list \<Rightarrow> 'k \<Rightarrow> 'v option" where
  "last_put kvs = map_of (rev kvs)"

definition puts :: "('k \<times> 'v) list \<Rightarrow> 's \<Rightarrow> 's" where
  "puts kvs s = fold (\<lambda>(k, v). put k v) kvs s"

lemma puts_invar: "invar s \<Longrightarrow> invar (puts kvs s)"
  by (induction kvs arbitrary: s) (auto simp: puts_def intro: put_invar)

lemma puts_cap: "cap (puts kvs s) = cap s"
  by (induction kvs arbitrary: s) (auto simp: puts_def put_cap)

lemma puts_size: "invar s \<Longrightarrow> size_of (puts kvs s) \<le> max 1 (max (cap s) (size_of s))"
proof (induction kvs arbitrary: s)
  case Nil
  then show ?case by (simp add: puts_def)
next
  case (Cons kv kvs)
  obtain k v where kv: "kv = (k, v)" by (cases kv)
  have "size_of (puts kvs (put k v s)) \<le> max 1 (max (cap (put k v s)) (size_of (put k v s)))"
    by (rule Cons.IH [OF put_invar [OF Cons.prems]])
  with put_size [OF Cons.prems, of k v] show ?case
    by (simp add: puts_def kv put_cap max_def split: if_splits)
qed

lemma puts_never_stale:
  "invar s \<Longrightarrow> view (puts kvs s) k = Some v \<Longrightarrow>
   last_put kvs k = Some v \<or> last_put kvs k = None \<and> view s k = Some v"
proof (induction kvs arbitrary: s)
  case Nil
  then show ?case by (simp add: puts_def last_put_def)
next
  case (Cons kv kvs)
  obtain j w where kv: "kv = (j, w)" by (cases kv)
  have "last_put kvs k = Some v \<or> last_put kvs k = None \<and> view (put j w s) k = Some v"
    using Cons.IH [OF put_invar [OF Cons.prems(1)]] Cons.prems(2) by (simp add: puts_def kv)
  then show ?case
    using put_hit [OF Cons.prems(1), of j w] put_other [OF Cons.prems(1), of k j w]
    by (cases "j = k") (auto simp: last_put_def kv map_add_def split: option.splits)
qed

end

section \<open>Eviction of a least entry\<close>

definition evict_min :: "('v \<Rightarrow> nat) \<Rightarrow> ('k, 'v) hash_map \<Rightarrow> ('k, 'v) hash_map" where
  "evict_min age m =
     (case min_by_key (\<lambda>(k, v). age v) m of None \<Rightarrow> m | Some (k, v) \<Rightarrow> AList.delete k m)"

lemma evict_min_wf [simp, intro]: "wf_map m \<Longrightarrow> wf_map (evict_min age m)"
  by (simp add: evict_min_def split: option.splits prod.splits)

lemma evict_min_view:
  "map_of (evict_min age m) = map_of m \<or> (\<exists>k. map_of (evict_min age m) = (map_of m)(k := None))"
  by (auto simp: evict_min_def split: option.splits prod.splits)

lemma evict_min_length: "wf_map m \<Longrightarrow> length (evict_min age m) = length m - 1"
proof (cases "min_by_key (\<lambda>(k, v). age v) m")
  case (Some kv)
  assume wf: "wf_map m"
  obtain k v where kv: "kv = (k, v)" by (cases kv)
  have "(k, v) \<in> set m" using min_by_key_mem [OF Some] kv by simp
  then have "k \<in> fst ` set m" by force
  then have "Suc (length (AList.delete k m)) = length m" by (rule length_delete_mem [OF wf])
  then show ?thesis using Some kv by (simp add: evict_min_def)
qed (simp add: evict_min_def)

text \<open>The evicted entry is a least one.\<close>

lemma evict_min_least:
  assumes "wf_map m" and "map_of m k = Some v" and "map_of (evict_min age m) k = None" and "map_of m j = Some w"
  shows "age v \<le> age w"
proof -
  obtain k' v' where kv: "min_by_key (\<lambda>(k, v). age v) m = Some (k', v')"
    using assms(2,3) by (cases "min_by_key (\<lambda>(k, v). age v) m") (auto simp: evict_min_def)
  then have mem: "(k', v') \<in> set m" by (rule min_by_key_mem)
  have "k = k'" using assms(2,3) kv by (auto simp: evict_min_def split: if_splits)
  then have "v = v'" using mem assms(1,2) by (simp add: wf_map_lookup)
  moreover have "(j, w) \<in> set m" using assms(1,4) by (simp add: wf_map_lookup)
  ultimately show ?thesis using min_by_key_least [OF kv] by fastforce
qed

definition bounded_insert :: "('v \<Rightarrow> nat) \<Rightarrow> nat \<Rightarrow> 'k \<Rightarrow> 'v \<Rightarrow> ('k, 'v) hash_map \<Rightarrow> ('k, 'v) hash_map" where
  "bounded_insert age mx k v m = AList.update k v (if mx \<le> length m then evict_min age m else m)"

lemma bounded_insert_wf [simp, intro]: "wf_map m \<Longrightarrow> wf_map (bounded_insert age mx k v m)"
  by (simp add: bounded_insert_def)

lemma bounded_insert_view:
  "\<exists>lost. map_of (bounded_insert age mx k v m) = ((map_of m)(lost := None))(k \<mapsto> v) \<or>
     map_of (bounded_insert age mx k v m) = (map_of m)(k \<mapsto> v)"
  using evict_min_view [of age m] by (auto simp: bounded_insert_def)

lemma bounded_insert_length:
  assumes "wf_map m"
  shows "length (bounded_insert age mx k v m) \<le> max 1 (max mx (length m))"
  using evict_min_length [OF assms, of age] by (auto simp: bounded_insert_def length_update max_def)

section \<open>Deduplicated outputs\<close>

record cached_output =
  output_tokens :: "nat list"
  cached_at :: instant

record output_cache_config =
  oc_ttl :: nat
  oc_max_entries :: usize

definition output_cache_config_default :: output_cache_config where
  "output_cache_config_default = \<lparr>oc_ttl = 30 * 1000000000, oc_max_entries = 1000\<rparr>"

record 'h output_cache =
  oc_entries :: "('h, cached_output) hash_map"
  oc_ttl_ns :: nat
  oc_max :: usize

definition oc_new :: "output_cache_config \<Rightarrow> 'h output_cache" where
  "oc_new cfg = \<lparr>oc_entries = [], oc_ttl_ns = oc_ttl cfg, oc_max = oc_max_entries cfg\<rparr>"

definition cache_key :: "(nat list \<Rightarrow> 'h) \<Rightarrow> (f32 \<Rightarrow> nat list) \<Rightarrow> nat list \<Rightarrow> inference_params \<Rightarrow> 'h" where
  "cache_key sha f32_bytes tokens ps =
     sha (concat (map (le_bytes 4) tokens) @ le_bytes 8 (p_max_tokens ps) @ f32_bytes (p_temperature ps) @
          f32_bytes (p_top_p ps) @ le_bytes 8 (p_top_k ps))"

definition fresh_output :: "nat \<Rightarrow> instant \<Rightarrow> cached_output \<Rightarrow> bool" where
  "fresh_output ttl now e \<longleftrightarrow> now - cached_at e \<le> ttl"

definition oc_get :: "instant \<Rightarrow> 'h \<Rightarrow> 'h output_cache \<Rightarrow> cached_output option" where
  "oc_get now k c =
     (case map_of (oc_entries c) k of
        None \<Rightarrow> None
      | Some e \<Rightarrow> if fresh_output (oc_ttl_ns c) now e then Some e else None)"

definition oc_evict_oldest :: "'h output_cache \<Rightarrow> 'h output_cache" where
  "oc_evict_oldest c = c\<lparr>oc_entries := evict_min cached_at (oc_entries c)\<rparr>"

definition oc_insert :: "instant \<Rightarrow> 'h \<Rightarrow> nat list \<Rightarrow> 'h output_cache \<Rightarrow> 'h output_cache" where
  "oc_insert now k toks c =
     (let c1 = (if oc_max c \<le> length (oc_entries c) then oc_evict_oldest c else c)
      in c1\<lparr>oc_entries := AList.update k \<lparr>output_tokens = toks, cached_at = now\<rparr> (oc_entries c1)\<rparr>)"

definition oc_cleanup :: "instant \<Rightarrow> 'h output_cache \<Rightarrow> 'h output_cache" where
  "oc_cleanup now c = c\<lparr>oc_entries := filter (\<lambda>(k, e). fresh_output (oc_ttl_ns c) now e) (oc_entries c)\<rparr>"

definition oc_len :: "'h output_cache \<Rightarrow> usize" where
  "oc_len c = length (oc_entries c)"

definition oc_wf :: "'h output_cache \<Rightarrow> bool" where
  [inv_defs]: "oc_wf c \<longleftrightarrow> wf_map (oc_entries c)"

definition oc_put :: "'h \<Rightarrow> cached_output \<Rightarrow> 'h output_cache \<Rightarrow> 'h output_cache" where
  "oc_put k e c = oc_insert (cached_at e) k (output_tokens e) c"

lemma oc_insert_bounded:
  "oc_entries (oc_insert now k toks c) =
     bounded_insert cached_at (oc_max c) k \<lparr>output_tokens = toks, cached_at = now\<rparr> (oc_entries c)"
  by (simp add: oc_insert_def Let_def oc_evict_oldest_def bounded_insert_def)

lemma oc_insert_fields [simp]: "oc_max (oc_insert now k toks c) = oc_max c" "oc_ttl_ns (oc_insert now k toks c) = oc_ttl_ns c"
  by (simp_all add: oc_insert_def Let_def oc_evict_oldest_def)

lemma oc_put_entries: "oc_entries (oc_put k e c) = bounded_insert cached_at (oc_max c) k e (oc_entries c)"
  by (cases e) (simp add: oc_put_def oc_insert_bounded)

lemma oc_put_max: "oc_max (oc_put k e c) = oc_max c"
  by (simp add: oc_put_def)

interpretation outputs: evicting_cache "\<lambda>c. map_of (oc_entries c)" oc_put oc_len oc_max oc_wf
  unfolding evicting_cache_def oc_wf_def oc_len_def oc_put_entries oc_put_max
  by (intro conjI allI impI bounded_insert_view bounded_insert_length bounded_insert_wf refl)

text \<open>Time to live.\<close>

lemma oc_get_fresh: "oc_get now k c = Some e \<Longrightarrow> now - cached_at e \<le> oc_ttl_ns c"
  by (auto simp: oc_get_def fresh_output_def split: option.splits if_splits)

lemma oc_cleanup_get: "oc_wf c \<Longrightarrow> oc_get now k (oc_cleanup now c) = oc_get now k c"
  by (auto simp: oc_get_def oc_cleanup_def oc_wf_def map_of_filter_snd split: option.splits)

lemma oc_get_mono: "oc_get now k c = None \<Longrightarrow> now \<le> now' \<Longrightarrow> oc_get now' k c = None"
  by (auto simp: oc_get_def fresh_output_def split: option.splits if_splits)

section \<open>Inference contexts\<close>

record context_entry =
  ctx_data :: string
  ctx_created_at :: instant

record context_cache =
  cc_entries :: "(string, context_entry) hash_map"
  cc_max_entries :: usize
  cc_ttl :: nat

definition context_cache_default :: context_cache where
  "context_cache_default = \<lparr>cc_entries = [], cc_max_entries = 128, cc_ttl = 300 * 1000000000\<rparr>"

definition cc_new :: "usize \<Rightarrow> nat \<Rightarrow> context_cache" where
  "cc_new mx ttl = \<lparr>cc_entries = [], cc_max_entries = mx, cc_ttl = ttl\<rparr>"

definition cc_evict_oldest :: "context_cache \<Rightarrow> context_cache" where
  "cc_evict_oldest c = c\<lparr>cc_entries := evict_min ctx_created_at (cc_entries c)\<rparr>"

definition store_sync :: "instant \<Rightarrow> string \<Rightarrow> string \<Rightarrow> context_cache \<Rightarrow> context_cache" where
  "store_sync now k d c =
     (let c1 = (if cc_max_entries c \<le> length (cc_entries c) then cc_evict_oldest c else c)
      in c1\<lparr>cc_entries := AList.update k \<lparr>ctx_data = d, ctx_created_at = now\<rparr> (cc_entries c1)\<rparr>)"

definition get_sync :: "instant \<Rightarrow> string \<Rightarrow> context_cache \<Rightarrow> string option" where
  "get_sync now k c =
     (case map_of (cc_entries c) k of
        None \<Rightarrow> None
      | Some e \<Rightarrow> if cc_ttl c < now - ctx_created_at e then None else Some (ctx_data e))"

definition cleanup_sync :: "instant \<Rightarrow> context_cache \<Rightarrow> context_cache" where
  "cleanup_sync now c = c\<lparr>cc_entries := filter (\<lambda>(k, e). now - ctx_created_at e \<le> cc_ttl c) (cc_entries c)\<rparr>"

definition cc_wf :: "context_cache \<Rightarrow> bool" where
  [inv_defs]: "cc_wf c \<longleftrightarrow> wf_map (cc_entries c)"

definition cc_len :: "context_cache \<Rightarrow> usize" where
  "cc_len c = length (cc_entries c)"

definition cc_put :: "string \<Rightarrow> context_entry \<Rightarrow> context_cache \<Rightarrow> context_cache" where
  "cc_put k e c = store_sync (ctx_created_at e) k (ctx_data e) c"

lemma cc_put_entries: "cc_entries (cc_put k e c) = bounded_insert ctx_created_at (cc_max_entries c) k e (cc_entries c)"
  by (cases e) (simp add: cc_put_def store_sync_def Let_def cc_evict_oldest_def bounded_insert_def)

lemma cc_put_max: "cc_max_entries (cc_put k e c) = cc_max_entries c"
  by (simp add: cc_put_def store_sync_def Let_def cc_evict_oldest_def)

interpretation contexts: evicting_cache "\<lambda>c. map_of (cc_entries c)" cc_put cc_len cc_max_entries cc_wf
  unfolding evicting_cache_def cc_wf_def cc_len_def cc_put_entries cc_put_max
  by (intro conjI allI impI bounded_insert_view bounded_insert_length bounded_insert_wf refl)

lemma cleanup_sync_get: "cc_wf c \<Longrightarrow> get_sync now k (cleanup_sync now c) = get_sync now k c"
  by (auto simp: get_sync_def cleanup_sync_def cc_wf_def map_of_filter_snd split: option.splits)

section \<open>Per-session KV state\<close>

record 'a kv_cache_entry =
  ke_keys :: "'a list"
  ke_values :: "'a list"
  ke_seq_len :: usize
  ke_capacity :: usize

definition ke_new :: "usize \<Rightarrow> usize \<Rightarrow> 'a kv_cache_entry" where
  "ke_new hidden mx = \<lparr>ke_keys = [], ke_values = [], ke_seq_len = 0, ke_capacity = hidden * mx\<rparr>"

definition ke_append :: "'a list \<Rightarrow> 'a list \<Rightarrow> 'a kv_cache_entry \<Rightarrow> 'a kv_cache_entry" where
  "ke_append ks vs e =
     e\<lparr>ke_keys := ke_keys e @ ks, ke_values := ke_values e @ vs, ke_seq_len := ke_seq_len e + 1\<rparr>"

definition ke_is_full :: "'a kv_cache_entry \<Rightarrow> bool" where
  "ke_is_full e \<longleftrightarrow> ke_capacity e \<le> length (ke_keys e)"

record 'a session_cache =
  sc_entries :: "(string, 'a kv_cache_entry) hash_map"
  sc_hidden_size :: usize
  sc_max_seq_len :: usize
  sc_max_entries :: usize

definition kvc_new :: "usize \<Rightarrow> usize \<Rightarrow> usize \<Rightarrow> 'a session_cache" where
  "kvc_new h ml mx = \<lparr>sc_entries = [], sc_hidden_size = h, sc_max_seq_len = ml, sc_max_entries = mx\<rparr>"

definition get_or_create_sync :: "string \<Rightarrow> 'a session_cache \<Rightarrow> 'a kv_cache_entry" where
  "get_or_create_sync sid c =
     (case map_of (sc_entries c) sid of
        Some e \<Rightarrow> e
      | None \<Rightarrow> ke_new (sc_hidden_size c) (sc_max_seq_len c))"

definition evict_one :: "'a session_cache \<Rightarrow> 'a session_cache" where
  "evict_one c =
     (case sc_entries c of [] \<Rightarrow> c | (k, e) # es \<Rightarrow> c\<lparr>sc_entries := AList.delete k (sc_entries c)\<rparr>)"

definition update_sync :: "string \<Rightarrow> 'a kv_cache_entry \<Rightarrow> 'a session_cache \<Rightarrow> 'a session_cache" where
  "update_sync sid e c =
     (let c1 = (if sc_max_entries c \<le> length (sc_entries c) \<and> map_of (sc_entries c) sid = None then evict_one c else c)
      in c1\<lparr>sc_entries := AList.update sid e (sc_entries c1)\<rparr>)"

definition kvc_remove :: "string \<Rightarrow> 'a session_cache \<Rightarrow> 'a session_cache" where
  "kvc_remove sid c = c\<lparr>sc_entries := AList.delete sid (sc_entries c)\<rparr>"

definition kvc_len :: "'a session_cache \<Rightarrow> usize" where
  "kvc_len c = length (sc_entries c)"

definition kvc_wf :: "'a session_cache \<Rightarrow> bool" where
  [inv_defs]: "kvc_wf c \<longleftrightarrow> wf_map (sc_entries c)"

lemma evict_one_length: "kvc_wf c \<Longrightarrow> length (sc_entries (evict_one c)) = length (sc_entries c) - 1"
proof (cases "sc_entries c")
  case (Cons p es)
  assume "kvc_wf c"
  with length_delete_mem [of "sc_entries c" "fst p"] Cons
  have "Suc (length (AList.delete (fst p) (sc_entries c))) = length (sc_entries c)"
    by (simp add: kvc_wf_def)
  then show ?thesis using Cons by (cases p) (simp add: evict_one_def)
qed (simp add: evict_one_def)

lemma evict_one_fields [simp]:
  "sc_max_entries (evict_one c) = sc_max_entries c" "kvc_wf c \<Longrightarrow> kvc_wf (evict_one c)"
  by (simp add: evict_one_def split: list.splits)
    (cases "sc_entries c"; auto simp: evict_one_def kvc_wf_def wf_map_def distinct_delete)

lemma evict_one_view:
  "map_of (sc_entries (evict_one c)) = map_of (sc_entries c) \<or>
   (\<exists>k. map_of (sc_entries (evict_one c)) = (map_of (sc_entries c))(k := None))"
proof (cases "sc_entries c")
  case (Cons p es)
  then have "map_of (sc_entries (evict_one c)) = (map_of (sc_entries c))(fst p := None)"
    by (cases p) (simp add: evict_one_def)
  then show ?thesis by blast
qed (simp add: evict_one_def)

interpretation sessions: evicting_cache "\<lambda>c. map_of (sc_entries c)" update_sync kvc_len sc_max_entries kvc_wf
proof unfold_locales
  fix s :: "'a session_cache" and k v
  show "sc_max_entries (update_sync k v s) = sc_max_entries s"
    by (simp add: update_sync_def Let_def)
  assume wf: "kvc_wf s"
  then show "kvc_wf (update_sync k v s)"
    using evict_one_fields(2) [OF wf] by (auto simp: update_sync_def Let_def kvc_wf_def)
  show "\<exists>lost. map_of (sc_entries (update_sync k v s)) = ((map_of (sc_entries s))(lost := None))(k \<mapsto> v) \<or>
      map_of (sc_entries (update_sync k v s)) = (map_of (sc_entries s))(k \<mapsto> v)"
    using evict_one_view [of s] by (auto simp: update_sync_def Let_def)
  show "kvc_len (update_sync k v s) \<le> max 1 (max (sc_max_entries s) (kvc_len s))"
    using evict_one_length [OF wf]
    by (auto simp: update_sync_def Let_def kvc_len_def length_update max_def map_of_eq_None_iff split: if_splits)
qed

section \<open>Prompt prefixes\<close>

record 'h cached_kv =
  ck_token_hash :: 'h
  ck_kv_data :: "nat list"
  ck_seq_len :: usize
  ck_last_used :: u64

record 'h prompt_cache =
  pc_entries :: "('h, 'h cached_kv) hash_map"
  pc_max_entries :: usize
  pc_access_counter :: u64

text \<open>The streaming hasher the source uses.\<close>

record ('s, 'h) hasher =
  h_new :: 's
  h_update :: "'s \<Rightarrow> nat list \<Rightarrow> 's"
  h_finalize :: "'s \<Rightarrow> 'h"

definition pc_new :: "usize \<Rightarrow> 'h prompt_cache" where
  "pc_new mx = \<lparr>pc_entries = [], pc_max_entries = mx, pc_access_counter = 0\<rparr>"

definition hash_tokens :: "('s, 'h) hasher \<Rightarrow> nat list \<Rightarrow> 'h" where
  "hash_tokens H tokens = h_finalize H (foldl (\<lambda>s t. h_update H s (le_bytes 4 t)) (h_new H) tokens)"

definition used_at :: "u64 \<Rightarrow> 'h \<Rightarrow> 'h cached_kv \<Rightarrow> 'h prompt_cache \<Rightarrow> 'h prompt_cache" where
  "used_at n h e c = c\<lparr>pc_entries := AList.update h (e\<lparr>ck_last_used := n\<rparr>) (pc_entries c)\<rparr>"

definition pc_get :: "('s, 'h) hasher \<Rightarrow> nat list \<Rightarrow> 'h prompt_cache \<Rightarrow> 'h cached_kv option \<times> 'h prompt_cache" where
  "pc_get H tokens c =
     (let h = hash_tokens H tokens;
          n = pc_access_counter c + 1;
          c1 = c\<lparr>pc_access_counter := n\<rparr>
      in case map_of (pc_entries c1) h of
           None \<Rightarrow> (None, c1)
         | Some e \<Rightarrow> (Some (e\<lparr>ck_last_used := n\<rparr>), used_at n h e c1))"

definition pc_evict_lru :: "'h prompt_cache \<Rightarrow> 'h prompt_cache" where
  "pc_evict_lru c = c\<lparr>pc_entries := evict_min ck_last_used (pc_entries c)\<rparr>"

definition pc_insert :: "('s, 'h) hasher \<Rightarrow> nat list \<Rightarrow> nat list \<Rightarrow> usize \<Rightarrow> 'h prompt_cache \<Rightarrow> 'h prompt_cache" where
  "pc_insert H tokens d len c =
     (let c1 = (if pc_max_entries c \<le> length (pc_entries c) then pc_evict_lru c else c);
          h = hash_tokens H tokens;
          n = pc_access_counter c1 + 1
      in c1\<lparr>pc_access_counter := n,
            pc_entries := AList.update h \<lparr>ck_token_hash = h, ck_kv_data = d, ck_seq_len = len, ck_last_used = n\<rparr>
              (pc_entries c1)\<rparr>)"

text \<open>The loop of \<open>find_prefix\<close>: \<open>i\<close> tokens are hashed into the state \<open>s\<close> so far.\<close>

fun prefix_loop ::
  "('s, 'h) hasher \<Rightarrow> ('h, 'h cached_kv) hash_map \<Rightarrow> nat \<Rightarrow> 's \<Rightarrow> (nat \<times> 'h) option \<Rightarrow> nat list \<Rightarrow> (nat \<times> 'h) option"
where
  "prefix_loop H m i s best [] = best"
| "prefix_loop H m i s best (t # ts) =
     (let s' = h_update H s (le_bytes 4 t);
          h = h_finalize H s'
      in prefix_loop H m (Suc i) s' (if map_of m h \<noteq> None then Some (Suc i, h) else best) ts)"

definition find_prefix ::
  "('s, 'h) hasher \<Rightarrow> nat list \<Rightarrow> 'h prompt_cache \<Rightarrow> (nat \<times> 'h cached_kv) option \<times> 'h prompt_cache"
where
  "find_prefix H tokens c =
     (case prefix_loop H (pc_entries c) 0 (h_new H) None tokens of
        None \<Rightarrow> (None, c)
      | Some (len, h) \<Rightarrow>
          (let n = pc_access_counter c + 1;
               c1 = c\<lparr>pc_access_counter := n\<rparr>
           in case map_of (pc_entries c1) h of
                None \<Rightarrow> (None, c1)
              | Some e \<Rightarrow> (Some (len, e\<lparr>ck_last_used := n\<rparr>), used_at n h e c1)))"

definition pc_clear :: "'h prompt_cache \<Rightarrow> 'h prompt_cache" where
  "pc_clear c = c\<lparr>pc_entries := []\<rparr>"

definition pc_len :: "'h prompt_cache \<Rightarrow> usize" where
  "pc_len c = length (pc_entries c)"

definition pc_memory_bytes :: "'h prompt_cache \<Rightarrow> usize" where
  "pc_memory_bytes c = sum_list (map (\<lambda>(h, e). length (ck_kv_data e)) (pc_entries c))"

subsection \<open>The longest cached prefix\<close>

definition cached_prefix :: "('s, 'h) hasher \<Rightarrow> ('h, 'h cached_kv) hash_map \<Rightarrow> nat list \<Rightarrow> nat \<Rightarrow> bool" where
  "cached_prefix H m tokens n \<longleftrightarrow> 0 < n \<and> n \<le> length tokens \<and> map_of m (hash_tokens H (take n tokens)) \<noteq> None"

lemma hash_tokens_snoc:
  "s = foldl (\<lambda>s t. h_update H s (le_bytes 4 t)) (h_new H) xs \<Longrightarrow>
   h_finalize H (h_update H s (le_bytes 4 t)) = hash_tokens H (xs @ [t])"
  by (simp add: hash_tokens_def)

lemma no_prefix_Nil: "\<not> cached_prefix H m [] n"
  by (auto simp: cached_prefix_def)

lemma prefix_loop_spec:
  assumes "s = foldl (\<lambda>s t. h_update H s (le_bytes 4 t)) (h_new H) xs"
    and "case best of None \<Rightarrow> \<forall>n. \<not> cached_prefix H m xs n
      | Some (n, h) \<Rightarrow> cached_prefix H m xs n \<and> h = hash_tokens H (take n xs) \<and> (\<forall>k > n. \<not> cached_prefix H m xs k)"
  shows "case prefix_loop H m (length xs) s best ts of None \<Rightarrow> \<forall>n. \<not> cached_prefix H m (xs @ ts) n
      | Some (n, h) \<Rightarrow> cached_prefix H m (xs @ ts) n \<and> h = hash_tokens H (take n (xs @ ts)) \<and>
          (\<forall>k > n. \<not> cached_prefix H m (xs @ ts) k)"
  using assms
proof (induction ts arbitrary: xs s best)
  case Nil
  from Nil.prems(2) show ?case by (simp only: prefix_loop.simps append_Nil2)
next
  case (Cons t ts)
  let ?s = "h_update H s (le_bytes 4 t)" and ?ys = "xs @ [t]"
  have state: "?s = foldl (\<lambda>s t. h_update H s (le_bytes 4 t)) (h_new H) ?ys"
    using Cons.prems(1) by simp
  have hash: "h_finalize H ?s = hash_tokens H ?ys"
    by (rule hash_tokens_snoc [OF Cons.prems(1)])
  have ext: "cached_prefix H m ?ys n \<longleftrightarrow> cached_prefix H m xs n \<or> n = Suc (length xs) \<and> map_of m (hash_tokens H ?ys) \<noteq> None" for n
    by (cases "n \<le> length xs") (auto simp: cached_prefix_def le_Suc_eq)
  have le: "cached_prefix H m xs n \<Longrightarrow> n \<le> length xs" for n
    by (simp add: cached_prefix_def)
  let ?best = "if map_of m (hash_tokens H ?ys) \<noteq> None then Some (Suc (length xs), hash_tokens H ?ys) else best"
  have "case ?best of None \<Rightarrow> \<forall>n. \<not> cached_prefix H m ?ys n
      | Some (n, h) \<Rightarrow> cached_prefix H m ?ys n \<and> h = hash_tokens H (take n ?ys) \<and> (\<forall>k > n. \<not> cached_prefix H m ?ys k)"
  proof (cases "map_of m (hash_tokens H ?ys)")
    case None
    with Cons.prems(2) le show ?thesis
      by (cases best) (auto simp: ext split: prod.splits)
  next
    case (Some e)
    have "\<not> cached_prefix H m ?ys k" if "k > Suc (length xs)" for k
      using that le [of k] by (auto simp: ext)
    with Some show ?thesis by (simp add: ext)
  qed
  note IH = Cons.IH [OF state this]
  have "length ?ys = Suc (length xs)" "?ys @ ts = xs @ t # ts" by simp_all
  with IH show ?case
    unfolding prefix_loop.simps Let_def hash by (simp only:)
qed

text \<open>
  C34: The single-pass prefix search is exact: \<open>find_prefix\<close> misses exactly when no non-empty prefix of the
  tokens is cached, and otherwise returns the length of the longest cached prefix together with the
  entry stored for it, for any hash function.
\<close>

theorem find_prefix_longest:
  "case fst (find_prefix H tokens c) of
     None \<Rightarrow> \<forall>n. \<not> cached_prefix H (pc_entries c) tokens n
   | Some (n, e) \<Rightarrow> cached_prefix H (pc_entries c) tokens n \<and> (\<forall>k. n < k \<longrightarrow> \<not> cached_prefix H (pc_entries c) tokens k) \<and>
       map_option ck_kv_data (map_of (pc_entries c) (hash_tokens H (take n tokens))) = Some (ck_kv_data e)"
proof -
  have "case prefix_loop H (pc_entries c) 0 (h_new H) None tokens of None \<Rightarrow> \<forall>n. \<not> cached_prefix H (pc_entries c) tokens n
      | Some (n, h) \<Rightarrow> cached_prefix H (pc_entries c) tokens n \<and> h = hash_tokens H (take n tokens) \<and>
          (\<forall>k > n. \<not> cached_prefix H (pc_entries c) tokens k)"
    using prefix_loop_spec [where s = "h_new H" and H = H and xs = "[]" and best = None and m = "pc_entries c" and ts = tokens]
    by (simp only: append_Nil list.size foldl.simps option.case no_prefix_Nil simp_thms)
  then show ?thesis
    by (auto simp: find_prefix_def Let_def cached_prefix_def split: option.splits prod.splits)
qed

definition byte_hasher :: "(nat list, nat list) hasher" where
  "byte_hasher = \<lparr>h_new = [], h_update = (\<lambda>s bs. s @ bs), h_finalize = (\<lambda>s. s)\<rparr>"

definition sample_prompts :: "nat list prompt_cache" where
  "sample_prompts = pc_insert byte_hasher [1, 2] [9] 2 (pc_insert byte_hasher [1] [8] 1 (pc_new 4))"

theorem find_prefix_longest_witness:
  "\<exists>e. fst (find_prefix byte_hasher [1, 2, 3] sample_prompts) = Some (2, e) \<and> ck_kv_data e = [9]"
proof -
  have "fst (find_prefix byte_hasher [1, 2, 3] sample_prompts) \<noteq> None"
    by (simp add: find_prefix_def sample_prompts_def pc_insert_def pc_new_def byte_hasher_def hash_tokens_def Let_def
        le_bytes_numeral)
  then obtain n e where ne: "fst (find_prefix byte_hasher [1, 2, 3] sample_prompts) = Some (n, e)"
    by auto
  from find_prefix_longest [where H = byte_hasher and tokens = "[1, 2, 3]" and c = sample_prompts] ne
  have "cached_prefix byte_hasher (pc_entries sample_prompts) [1, 2, 3] n"
    and data: "map_option ck_kv_data (map_of (pc_entries sample_prompts) (hash_tokens byte_hasher (take n [1, 2, 3]))) =
      Some (ck_kv_data e)" and longest: "\<forall>k. n < k \<longrightarrow> \<not> cached_prefix byte_hasher (pc_entries sample_prompts) [1, 2, 3] k"
    by simp_all
  moreover have "cached_prefix byte_hasher (pc_entries sample_prompts) [1, 2, 3] 2"
    "\<not> cached_prefix byte_hasher (pc_entries sample_prompts) [1, 2, 3] 3"
    by (simp_all add: cached_prefix_def sample_prompts_def pc_insert_def pc_new_def byte_hasher_def hash_tokens_def Let_def
        le_bytes_numeral)
  moreover have "n \<le> 3" using calculation(1) by (simp add: cached_prefix_def)
  moreover have "n \<noteq> 3" "\<not> n < 2" using calculation by auto
  ultimately have "n = 2" by linarith
  with ne data show ?thesis
    by (simp add: sample_prompts_def pc_insert_def pc_new_def byte_hasher_def hash_tokens_def Let_def
        le_bytes_numeral)
qed

section \<open>Properties of the caches\<close>

lemma oc_ttl_fold:
  "oc_ttl_ns (fold (\<lambda>(k, e). oc_insert (cached_at e) k (output_tokens e)) kvs d) = oc_ttl_ns d"
  by (induction kvs arbitrary: d) auto

text \<open>
  C35: The deduplication cache never serves a stale or expired output. After any sequence of stores, a hit
  at time \<open>now\<close> under a key is the output most recently stored under that key, is no older than the time
  to live, and the cache holds at most \<open>max_entries\<close> outputs (one, for a limit of zero).
\<close>

theorem output_cache_coherent:
  fixes stores :: "('h \<times> cached_output) list" and c :: "'h output_cache"
  assumes c_def: "c = fold (\<lambda>(k, e). oc_insert (cached_at e) k (output_tokens e)) stores (oc_new cfg)"
    and "oc_get now k c = Some e"
  shows "map_of (rev stores) k = Some e \<and> now - cached_at e \<le> oc_ttl cfg \<and> oc_len c \<le> max 1 (oc_max_entries cfg)"
proof -
  have c: "c = outputs.puts stores (oc_new cfg)"
    unfolding c_def outputs.puts_def oc_put_def ..
  have wf: "oc_wf (oc_new cfg)" by (simp add: oc_wf_def oc_new_def)
  have hit: "map_of (oc_entries c) k = Some e" and fresh: "now - cached_at e \<le> oc_ttl_ns c"
    using assms(2) by (auto simp: oc_get_def fresh_output_def split: option.splits if_splits)
  have "oc_ttl_ns c = oc_ttl cfg" by (simp add: c_def oc_ttl_fold oc_new_def)
  moreover have "map_of (rev stores) k = Some e"
    using outputs.puts_never_stale [OF wf, of stores k e] hit
    by (auto simp: c outputs.last_put_def oc_new_def)
  moreover have "oc_len c \<le> max 1 (oc_max_entries cfg)"
    using outputs.puts_size [OF wf, of stores] by (simp add: c oc_new_def oc_len_def)
  ultimately show ?thesis using fresh by simp
qed

theorem output_cache_coherent_witness:
  "let stores = [(0::nat, \<lparr>output_tokens = [1], cached_at = 5\<rparr>), (0, \<lparr>output_tokens = [2], cached_at = 9\<rparr>)]
   in map_of (rev stores) 0 = Some \<lparr>output_tokens = [2], cached_at = 9\<rparr> \<and>
      oc_len (fold (\<lambda>(k, e). oc_insert (cached_at e) k (output_tokens e)) stores (oc_new output_cache_config_default)) \<le> 1000"
  using output_cache_coherent [OF refl, of 10 "0::nat"
      "[(0, \<lparr>output_tokens = [1], cached_at = 5\<rparr>), (0, \<lparr>output_tokens = [2], cached_at = 9\<rparr>)]"
      output_cache_config_default "\<lparr>output_tokens = [2], cached_at = 9\<rparr>"]
  by (simp add: oc_get_def oc_insert_def oc_new_def output_cache_config_default_def fresh_output_def Let_def)

lemma concat_le_bytes_length: "length (concat (map (le_bytes 4) ts)) = 4 * length ts"
  by (induction ts) auto

lemma concat_le_bytes_inject:
  "set ts \<subseteq> {..<256 ^ 4} \<Longrightarrow> set us \<subseteq> {..<256 ^ 4} \<Longrightarrow>
   concat (map (le_bytes 4) ts) = concat (map (le_bytes 4) us) \<Longrightarrow> ts = us"
proof (induction ts arbitrary: us)
  case Nil
  have "length (concat (map (le_bytes 4) us)) = 0" using Nil.prems(3) by (metis concat.simps(1) list.map(1) list.size(3))
  then show ?case using concat_le_bytes_length [of us] by simp
next
  case (Cons t ts)
  then have "length us = Suc (length ts)"
    using concat_le_bytes_length [of us] concat_le_bytes_length [of "t # ts"] by simp
  then obtain u us' where us: "us = u # us'" by (cases us) auto
  with Cons.prems(3) have eq: "le_bytes 4 t = le_bytes 4 u" "concat (map (le_bytes 4) ts) = concat (map (le_bytes 4) us')"
    by simp_all
  have bounds: "t < 256 ^ 4" "u < 256 ^ 4" "set ts \<subseteq> {..<256 ^ 4}" "set us' \<subseteq> {..<256 ^ 4}"
    using Cons.prems(1,2) unfolding us by simp_all
  have "t = u" by (rule le_bytes_inject [OF bounds(1,2) eq(1)])
  moreover have "ts = us'" by (rule Cons.IH [OF bounds(3,4) eq(2)])
  ultimately show ?case unfolding us by blast
qed

text \<open>
  The deduplication key identifies the request: if the hash has no collision on the two inputs and
  the encoding of \<open>f32\<close> is injective on four bytes, equal keys mean equal prompt tokens and equal
  sampling parameters (\<open>max_tokens\<close>, \<open>temperature\<close>, \<open>top_p\<close>, \<open>top_k\<close>).
\<close>

theorem cache_key_identifies:
  assumes sha: "\<And>x y. sha x = sha y \<Longrightarrow> x = y"
    and f32: "\<And>x. length (f32_bytes x) = 4"
      "f32_bytes (p_temperature ps) = f32_bytes (p_temperature qs) \<Longrightarrow> p_temperature ps = p_temperature qs"
      "f32_bytes (p_top_p ps) = f32_bytes (p_top_p qs) \<Longrightarrow> p_top_p ps = p_top_p qs"
    and toks: "set ts \<subseteq> {..<256 ^ 4}" "set us \<subseteq> {..<256 ^ 4}"
    and usz: "p_max_tokens ps < 256 ^ 8" "p_max_tokens qs < 256 ^ 8" "p_top_k ps < 256 ^ 8" "p_top_k qs < 256 ^ 8"
    and key: "cache_key sha f32_bytes ts ps = cache_key sha f32_bytes us qs"
  shows "ts = us \<and> p_max_tokens ps = p_max_tokens qs \<and> p_temperature ps = p_temperature qs \<and>
    p_top_p ps = p_top_p qs \<and> p_top_k ps = p_top_k qs"
proof -
  let ?suf = "\<lambda>p. le_bytes 8 (p_max_tokens p) @ f32_bytes (p_temperature p) @ f32_bytes (p_top_p p) @ le_bytes 8 (p_top_k p)"
  have eq: "concat (map (le_bytes 4) ts) @ ?suf ps = concat (map (le_bytes 4) us) @ ?suf qs"
    using sha [OF key [unfolded cache_key_def]] .
  have "length (?suf ps) = length (?suf qs)" by (simp add: f32(1))
  with eq have "concat (map (le_bytes 4) ts) = concat (map (le_bytes 4) us)" and suf: "?suf ps = ?suf qs"
    by (simp_all add: append_eq_append_conv)
  moreover from suf have "le_bytes 8 (p_max_tokens ps) = le_bytes 8 (p_max_tokens qs)"
    "f32_bytes (p_temperature ps) = f32_bytes (p_temperature qs)" "f32_bytes (p_top_p ps) = f32_bytes (p_top_p qs)"
    "le_bytes 8 (p_top_k ps) = le_bytes 8 (p_top_k qs)"
    by (simp_all add: append_eq_append_conv f32(1))
  ultimately show ?thesis
    using concat_le_bytes_inject [OF toks] f32(2,3) le_bytes_inject usz by blast
qed

theorem cache_key_identifies_witness:
  "cache_key (\<lambda>x. x) (\<lambda>x. [0, 0, 0, if x = F32_NaN then 1 else 0]) [7] params_default =
     cache_key (\<lambda>x. x) (\<lambda>x. [0, 0, 0, if x = F32_NaN then 1 else 0]) [7] params_default \<and>
   [7] = [7::nat] \<and> p_top_k params_default = p_top_k params_default"
  using cache_key_identifies [of "\<lambda>x. x" "\<lambda>x. [0, 0, 0, if x = F32_NaN then 1 else 0]" params_default params_default "[7]" "[7]"]
  by (simp add: params_default_def)

text \<open>
  An update of a key that is already present at capacity evicts an entry although no room is needed; in
  the output cache the evicted entry can be an unrelated one.
\<close>

lemma update_at_capacity_evicts:
  "map_of (oc_entries (oc_insert 9 (1::nat) [7]
     \<lparr>oc_entries = [(0, \<lparr>output_tokens = [], cached_at = 1\<rparr>), (1, \<lparr>output_tokens = [], cached_at = 2\<rparr>)],
      oc_ttl_ns = 100, oc_max = 2\<rparr>)) 0 = None"
  by (simp add: oc_insert_def oc_evict_oldest_def evict_min_def Let_def)

end
