(* ===== verification/Rust_Parse.thy ===== *)
theory Rust_Parse
  imports Rust_Text
begin

text \<open>
  The parsing functions of the standard library that several components use: \<open>str::parse\<close> for unsigned
  integers, \<open>str::trim\<close>, and \<open>str::split\<close> on one ASCII character.
\<close>

section \<open>Unsigned integers\<close>

definition is_ascii_digit :: "char \<Rightarrow> bool" where
  "is_ascii_digit c \<longleftrightarrow> 48 \<le> byte_val c \<and> byte_val c \<le> 57"

text \<open>
  The loop over the digits, with a checked multiplication and a checked addition below \<open>B\<close>, the number of
  values of the type.
\<close>

fun digits_from :: "nat \<Rightarrow> nat \<Rightarrow> string \<Rightarrow> nat option" where
  "digits_from B acc [] = Some acc"
| "digits_from B acc (c # s) =
     (if \<not> is_ascii_digit c then None
      else if B \<le> acc * 10 then None
      else if B \<le> acc * 10 + (byte_val c - 48) then None
      else digits_from B (acc * 10 + (byte_val c - 48)) s)"

text \<open>A single leading plus sign is accepted; the empty string and a lone sign are errors.\<close>

definition parse_uint :: "nat \<Rightarrow> string \<Rightarrow> nat option" where
  "parse_uint B s =
     (case s of
        [] \<Rightarrow> None
      | c # s' \<Rightarrow>
          if c = CHR ''+'' then (if s' = [] then None else digits_from B 0 s') else digits_from B 0 s)"

lemma digits_from_less: "acc < B \<Longrightarrow> digits_from B acc s = Some n \<Longrightarrow> n < B"
  by (induction B acc s rule: digits_from.induct) (auto split: if_splits)

lemma parse_uint_less: "0 < B \<Longrightarrow> parse_uint B s = Some n \<Longrightarrow> n < B"
  by (auto simp: parse_uint_def simp del: digits_from.simps dest: digits_from_less split: list.splits if_splits)

lemma digits_from_append:
  "digits_from B acc (s @ t) = (case digits_from B acc s of None \<Rightarrow> None | Some a \<Rightarrow> digits_from B a t)"
  by (induction B acc s rule: digits_from.induct) auto

lemma digit_char_digit: "d < 10 \<Longrightarrow> is_ascii_digit (digit_char d) \<and> byte_val (digit_char d) - 48 = d"
  by (simp add: is_ascii_digit_def digit_char_def)

lemma digits_from_digit:
  "d < 10 \<Longrightarrow> digits_from B acc [digit_char d] = (if acc * 10 + d < B then Some (acc * 10 + d) else None)"
  using digit_char_digit [of d] by auto

lemma digits_from_show: "digits_from B 0 (show_nat n) = (if n < B then Some n else None)"
proof (induction n rule: show_nat.induct)
  case (1 n)
  show ?case
  proof (cases "n < 10")
    case True
    then show ?thesis using digits_from_digit [of n B 0] by (simp add: show_nat.simps [of n])
  next
    case False
    have eq: "n div 10 * 10 + n mod 10 = n" by simp
    have "digits_from B 0 (show_nat n) =
      (case (if n div 10 < B then Some (n div 10) else None) of None \<Rightarrow> None | Some a \<Rightarrow> digits_from B a [digit_char (n mod 10)])"
      using False 1 by (subst show_nat.simps) (simp add: digits_from_append)
    also have "\<dots> = (if n < B then Some n else None)"
      using digits_from_digit [of "n mod 10" B "n div 10"] eq le_less_trans [OF div_le_dividend [of n 10]]
      by (auto simp del: digits_from.simps)
    finally show ?thesis .
  qed
qed

lemma show_nat_no_plus: "show_nat n = c # s \<Longrightarrow> c \<noteq> CHR ''+''"
  using show_nat_digits [of c n] by auto

lemma parse_show_nat [simp]: "parse_uint B (show_nat n) = (if n < B then Some n else None)"
proof -
  obtain c s where "show_nat n = c # s" using show_nat_nonempty [of n] by (cases "show_nat n") auto
  then show ?thesis using digits_from_show [of B n] show_nat_no_plus [of n c s]
    by (simp add: parse_uint_def)
qed

section \<open>White space and separators\<close>

text \<open>The characters with the Unicode property \<open>White_Space\<close>, as UTF-8.\<close>

definition is_whitespace :: "string \<Rightarrow> bool" where
  "is_whitespace c =
     (case map byte_val c of
        [b] \<Rightarrow> 9 \<le> b \<and> b \<le> 13 \<or> b = 32
      | [b1, b2] \<Rightarrow> b1 = 0xC2 \<and> (b2 = 0x85 \<or> b2 = 0xA0)
      | [b1, b2, b3] \<Rightarrow>
          b1 = 0xE1 \<and> b2 = 0x9A \<and> b3 = 0x80 \<or>
          b1 = 0xE2 \<and> b2 = 0x80 \<and> (0x80 \<le> b3 \<and> b3 \<le> 0x8A \<or> b3 = 0xA8 \<or> b3 = 0xA9 \<or> b3 = 0xAF) \<or>
          b1 = 0xE2 \<and> b2 = 0x81 \<and> b3 = 0x9F \<or>
          b1 = 0xE3 \<and> b2 = 0x80 \<and> b3 = 0x80
      | _ \<Rightarrow> False)"

definition str_trim :: "string \<Rightarrow> string" where
  "str_trim s = concat (rev (dropWhile is_whitespace (rev (dropWhile is_whitespace (utf8_chars s)))))"

fun split_on :: "char \<Rightarrow> string \<Rightarrow> string list" where
  "split_on d [] = [[]]"
| "split_on d (c # s) =
     (if c = d then [] # split_on d s
      else (case split_on d s of [] \<Rightarrow> [[c]] | p # ps \<Rightarrow> (c # p) # ps))"

lemma split_on_nonempty [simp]: "split_on d s \<noteq> []"
  by (induction s) (auto split: list.splits)

lemma split_on_free: "d \<notin> set s \<Longrightarrow> split_on d s = [s]"
  by (induction s) auto

lemma split_on_append: "d \<notin> set s \<Longrightarrow> split_on d (s @ d # t) = s # split_on d t"
  by (induction s) auto

end
