(* ===== verification/Batching.thy ===== *)
theory Batching
  imports Request_Queue "HOL-Library.Multiset"
begin

text \<open>
  Batch formation (\<open>scheduler/batch.rs\<close>) and the slots of the continuous batcher
  (\<open>scheduler/continuous.rs\<close>).

  \<open>create_batches\<close> splits a list of requests greedily. The continuous batcher has a fixed number of slots;
  requests wait in a queue, join free slots, advance by phases, and leave when complete. Lengths of vectors
  are bounded by the address space, so the token estimates are added without wrap-around.
\<close>

section \<open>Batches of requests\<close>

record batch_config =
  max_batch_size :: usize
  max_total_tokens :: usize

definition batch_config_default :: batch_config where
  "batch_config_default = \<lparr>max_batch_size = 8, max_total_tokens = 4096\<rparr>"

record request_batch =
  rb_requests :: "queued_request list"
  rb_total_tokens :: usize

definition batch_new :: request_batch where
  "batch_new = \<lparr>rb_requests = [], rb_total_tokens = 0\<rparr>"

definition estimated_tokens :: "queued_request \<Rightarrow> usize" where
  "estimated_tokens r = (length (prompt r) + 3) div 4"

definition can_add :: "batch_config \<Rightarrow> request_batch \<Rightarrow> queued_request \<Rightarrow> bool" where
  "can_add cfg b r =
     (if max_batch_size cfg \<le> length (rb_requests b) then False
      else rb_total_tokens b + estimated_tokens r \<le> max_total_tokens cfg)"

definition batch_add :: "request_batch \<Rightarrow> queued_request \<Rightarrow> request_batch" where
  "batch_add b r =
     \<lparr>rb_requests = rb_requests b @ [r], rb_total_tokens = rb_total_tokens b + estimated_tokens r\<rparr>"

text \<open>The loop of \<open>create_batches\<close>; the batches pushed so far come before its result.\<close>

fun batches_from :: "batch_config \<Rightarrow> request_batch \<Rightarrow> queued_request list \<Rightarrow> request_batch list" where
  "batches_from cfg b [] = (if rb_requests b = [] then [] else [b])"
| "batches_from cfg b (r # rs) =
     (if \<not> can_add cfg b r \<and> rb_requests b \<noteq> [] then b # batches_from cfg (batch_add batch_new r) rs
      else batches_from cfg (batch_add b r) rs)"

definition create_batches :: "batch_config \<Rightarrow> queued_request list \<Rightarrow> request_batch list" where
  "create_batches cfg rs = batches_from cfg batch_new rs"

section \<open>Batches keep the order and the limits\<close>

text \<open>
  A batch accounts for its requests; it fits when it is within both limits, where a single request is
  allowed to exceed the token limit, since it is never split.
\<close>

definition batch_fits :: "batch_config \<Rightarrow> request_batch \<Rightarrow> bool" where
  "batch_fits cfg b \<longleftrightarrow>
     rb_total_tokens b = sum_list (map estimated_tokens (rb_requests b)) \<and>
     length (rb_requests b) \<le> max_batch_size cfg \<and>
     (rb_total_tokens b \<le> max_total_tokens cfg \<or> length (rb_requests b) = 1)"

lemma batch_new_fits [simp]: "batch_fits cfg batch_new"
  by (simp add: batch_fits_def batch_new_def)

lemma batch_add_requests [simp]: "rb_requests (batch_add b r) = rb_requests b @ [r]"
  by (simp add: batch_add_def)

lemma batch_new_requests [simp]: "rb_requests batch_new = []"
  by (simp add: batch_new_def)

lemma batch_add_fits:
  "batch_fits cfg b \<Longrightarrow> can_add cfg b r \<Longrightarrow> batch_fits cfg (batch_add b r)"
  by (auto simp: batch_fits_def can_add_def batch_add_def split: if_splits)

lemma batch_single_fits: "1 \<le> max_batch_size cfg \<Longrightarrow> rb_requests b = [] \<Longrightarrow> batch_fits cfg b \<Longrightarrow> batch_fits cfg (batch_add b r)"
  by (simp add: batch_fits_def batch_add_def)

lemma batches_from_order: "concat (map rb_requests (batches_from cfg b rs)) = rb_requests b @ rs"
  by (induction cfg b rs rule: batches_from.induct) auto

lemma batches_from_fit:
  assumes "1 \<le> max_batch_size cfg" "batch_fits cfg b"
  shows "list_all (\<lambda>x. batch_fits cfg x \<and> rb_requests x \<noteq> []) (batches_from cfg b rs)"
  using assms(2)
proof (induction rs arbitrary: b)
  case (Cons r rs)
  show ?case
  proof (cases "\<not> can_add cfg b r \<and> rb_requests b \<noteq> []")
    case True
    have "batch_fits cfg (batch_add batch_new r)" using assms(1) by (rule batch_single_fits) simp_all
    from Cons.IH [OF this] show ?thesis using True Cons.prems by simp
  next
    case False
    then have "batch_fits cfg (batch_add b r)"
      using assms(1) Cons.prems batch_add_fits [of cfg b r] batch_single_fits [of cfg b r] by blast
    from Cons.IH [OF this] show ?thesis using False by auto
  qed
qed simp

text \<open>Greedy: a batch was closed only because the request that opens the next one did not fit.\<close>

fun closed_for_next :: "batch_config \<Rightarrow> request_batch list \<Rightarrow> bool" where
  "closed_for_next cfg (b # c # bs) =
     (rb_requests c \<noteq> [] \<and> \<not> can_add cfg b (hd (rb_requests c)) \<and> closed_for_next cfg (c # bs))"
| "closed_for_next cfg _ = True"

lemma batches_from_head:
  "rb_requests b \<noteq> [] \<Longrightarrow> \<exists>c cs. batches_from cfg b rs = c # cs \<and> rb_requests c \<noteq> [] \<and> hd (rb_requests c) = hd (rb_requests b)"
  by (induction cfg b rs rule: batches_from.induct) auto

lemma batches_from_greedy: "closed_for_next cfg (batches_from cfg b rs)"
proof (induction cfg b rs rule: batches_from.induct)
  case (2 cfg b r rs)
  obtain c cs where c: "batches_from cfg (batch_add batch_new r) rs = c # cs" "rb_requests c \<noteq> []" "hd (rb_requests c) = r"
    using batches_from_head [of "batch_add batch_new r" cfg rs] by auto
  then show ?case using 2 by auto
qed simp

text \<open>
  Batch formation loses, repeats and reorders nothing: the batches, one after the other, are the
  requests as they came. Every batch is non-empty, counts its tokens exactly and respects both limits,
  except that a single request over the token limit forms a batch of its own; and a batch was closed only
  because the next request did not fit into it.
\<close>

theorem batches_partition_requests:
  assumes "1 \<le> max_batch_size cfg"
  shows "concat (map rb_requests (create_batches cfg rs)) = rs \<and>
         list_all (\<lambda>b. batch_fits cfg b \<and> rb_requests b \<noteq> []) (create_batches cfg rs) \<and>
         closed_for_next cfg (create_batches cfg rs)"
  unfolding create_batches_def
  using batches_from_order [of cfg batch_new rs] batches_from_fit [OF assms batch_new_fits] batches_from_greedy
  by simp

theorem batches_partition_requests_witness:
  "let cfg = \<lparr>max_batch_size = 2, max_total_tokens = 4096\<rparr>; rs = [sample_request 1 0, sample_request 2 1, sample_request 3 2]
   in concat (map rb_requests (create_batches cfg rs)) = rs \<and> map (length \<circ> rb_requests) (create_batches cfg rs) = [2, 1] \<and>
      closed_for_next cfg (create_batches cfg rs)"
proof -
  let ?cfg = "\<lparr>max_batch_size = 2, max_total_tokens = 4096\<rparr>"
  have "1 \<le> max_batch_size ?cfg" by simp
  from batches_partition_requests [OF this, of "[sample_request 1 0, sample_request 2 1, sample_request 3 2]"] show ?thesis
    by (simp add: Let_def) (simp add: create_batches_def batch_new_def batch_add_def can_add_def estimated_tokens_def sample_request_def)
qed

section \<open>The continuous batcher\<close>

datatype request_phase = Prefill | Decode | PhaseComplete

record batch_slot =
  bs_request_id :: u64
  bs_phase :: request_phase
  bs_tokens_generated :: usize
  bs_max_tokens :: usize
  bs_prompt_len :: usize

definition slot_new :: "u64 \<Rightarrow> usize \<Rightarrow> usize \<Rightarrow> batch_slot" where
  "slot_new i plen mx =
     \<lparr>bs_request_id = i, bs_phase = Prefill, bs_tokens_generated = 0, bs_max_tokens = mx, bs_prompt_len = plen\<rparr>"

definition finish_prefill :: "batch_slot \<Rightarrow> batch_slot" where
  "finish_prefill s = s\<lparr>bs_phase := Decode\<rparr>"

definition record_token :: "batch_slot \<Rightarrow> batch_slot" where
  "record_token s = s\<lparr>bs_tokens_generated := bs_tokens_generated s + 1\<rparr>"

definition slot_complete :: "batch_slot \<Rightarrow> bool" where
  "slot_complete s \<longleftrightarrow> bs_phase s = PhaseComplete"

definition mark_complete :: "batch_slot \<Rightarrow> batch_slot" where
  "mark_complete s = s\<lparr>bs_phase := PhaseComplete\<rparr>"

record pending_request =
  pr_request_id :: u64
  pr_prompt_tokens :: "nat list"
  pr_max_tokens :: usize

record batcher =
  cb_slots :: "batch_slot option list"
  cb_pending :: "pending_request list"

definition batcher_new :: "usize \<Rightarrow> batcher" where
  "batcher_new n = \<lparr>cb_slots = replicate n None, cb_pending = []\<rparr>"

definition batcher_enqueue :: "pending_request \<Rightarrow> batcher \<Rightarrow> batcher" where
  "batcher_enqueue r b = b\<lparr>cb_pending := cb_pending b @ [r]\<rparr>"

definition slot_for :: "pending_request \<Rightarrow> batch_slot" where
  "slot_for r = slot_new (pr_request_id r) (length (pr_prompt_tokens r)) (pr_max_tokens r)"

text \<open>The loop of \<open>admit_pending\<close> over the slots, with the index of the first of them.\<close>

fun admit_from ::
  "usize \<Rightarrow> batch_slot option list \<Rightarrow> pending_request list \<Rightarrow>
     (usize \<times> pending_request) list \<times> batch_slot option list \<times> pending_request list" where
  "admit_from i [] ps = ([], [], ps)"
| "admit_from i (Some s # ss) ps =
     (let (ad, ss', ps') = admit_from (Suc i) ss ps in (ad, Some s # ss', ps'))"
| "admit_from i (None # ss) [] =
     (let (ad, ss', ps') = admit_from (Suc i) ss [] in (ad, None # ss', ps'))"
| "admit_from i (None # ss) (r # ps) =
     (let (ad, ss', ps') = admit_from (Suc i) ss ps in ((i, r) # ad, Some (slot_for r) # ss', ps'))"

definition admit_pending :: "batcher \<Rightarrow> (usize \<times> pending_request) list \<times> batcher" where
  "admit_pending b =
     (let (ad, ss, ps) = admit_from 0 (cb_slots b) (cb_pending b) in (ad, b\<lparr>cb_slots := ss, cb_pending := ps\<rparr>))"

fun evict_from :: "batch_slot option list \<Rightarrow> u64 list \<times> batch_slot option list" where
  "evict_from [] = ([], [])"
| "evict_from (None # ss) = (let (ev, ss') = evict_from ss in (ev, None # ss'))"
| "evict_from (Some s # ss) =
     (let (ev, ss') = evict_from ss
      in if slot_complete s then (bs_request_id s # ev, None # ss') else (ev, Some s # ss'))"

definition evict_completed :: "batcher \<Rightarrow> u64 list \<times> batcher" where
  "evict_completed b = (let (ev, ss) = evict_from (cb_slots b) in (ev, b\<lparr>cb_slots := ss\<rparr>))"

definition active_slots :: "batcher \<Rightarrow> (usize \<times> batch_slot) list" where
  "active_slots b =
     List.map_filter (\<lambda>(i, s). map_option (Pair i) s) (zip [0..<length (cb_slots b)] (cb_slots b))"

definition active_count :: "batcher \<Rightarrow> usize" where
  "active_count b = length (filter (\<lambda>s. s \<noteq> None) (cb_slots b))"

definition batcher_is_empty :: "batcher \<Rightarrow> bool" where
  "batcher_is_empty b \<longleftrightarrow> active_count b = 0 \<and> cb_pending b = []"

text \<open>\<open>get_slot_mut\<close> followed by an update through the reference it returns.\<close>

definition update_slot :: "usize \<Rightarrow> (batch_slot \<Rightarrow> batch_slot) \<Rightarrow> batcher \<Rightarrow> batcher" where
  "update_slot i f b =
     (if i < length (cb_slots b) then
        (case cb_slots b ! i of None \<Rightarrow> b | Some s \<Rightarrow> b\<lparr>cb_slots := (cb_slots b)[i := Some (f s)]\<rparr>)
      else b)"

datatype batcher_op =
    OpEnqueue pending_request
  | OpAdmit
  | OpEvict
  | OpFinishPrefill usize
  | OpRecordToken usize
  | OpMarkComplete usize

text \<open>One call, with the requests it admits and the identifiers it evicts.\<close>

primrec batcher_step :: "batcher_op \<Rightarrow> batcher \<Rightarrow> (pending_request list \<times> u64 list) \<times> batcher" where
  "batcher_step (OpEnqueue r) b = (([], []), batcher_enqueue r b)"
| "batcher_step OpAdmit b = (let (ad, b') = admit_pending b in ((map snd ad, []), b'))"
| "batcher_step OpEvict b = (let (ev, b') = evict_completed b in (([], ev), b'))"
| "batcher_step (OpFinishPrefill i) b = (([], []), update_slot i finish_prefill b)"
| "batcher_step (OpRecordToken i) b = (([], []), update_slot i record_token b)"
| "batcher_step (OpMarkComplete i) b = (([], []), update_slot i mark_complete b)"

fun batcher_run :: "batcher_op list \<Rightarrow> batcher \<Rightarrow> (pending_request list \<times> u64 list) \<times> batcher" where
  "batcher_run [] b = (([], []), b)"
| "batcher_run (op # ops) b =
     (let ((ad, ev), b') = batcher_step op b; ((ad', ev'), b'') = batcher_run ops b'
      in ((ad @ ad', ev @ ev'), b''))"

section \<open>Admission is first come, first served, and nothing is lost\<close>

abbreviation slot_ids :: "batch_slot option list \<Rightarrow> u64 multiset" where
  "slot_ids ss \<equiv> mset (List.map_filter (map_option bs_request_id) ss)"

definition active_ids :: "batcher \<Rightarrow> u64 multiset" where
  "active_ids b = slot_ids (cb_slots b)"

definition op_enqueued :: "batcher_op list \<Rightarrow> pending_request list" where
  "op_enqueued ops = List.map_filter (\<lambda>op. case op of OpEnqueue r \<Rightarrow> Some r | _ \<Rightarrow> None) ops"

lemma slot_for_id [simp]: "bs_request_id (slot_for r) = pr_request_id r"
  by (simp add: slot_for_def slot_new_def)

lemma admit_from_effect:
  "admit_from i ss ps = (ad, ss', ps') \<Longrightarrow>
     map snd ad @ ps' = ps \<and> length ss' = length ss \<and>
     slot_ids ss' = slot_ids ss + mset (map (pr_request_id \<circ> snd) ad) \<and>
     (ps' = [] \<or> None \<notin> set ss')"
  by (induction i ss ps arbitrary: ad ss' ps' rule: admit_from.induct)
     (auto simp: map_filter_simps split: prod.splits)

lemma evict_from_effect:
  "evict_from ss = (ev, ss') \<Longrightarrow>
     length ss' = length ss \<and> slot_ids ss = slot_ids ss' + mset ev \<and>
     (\<forall>s. Some s \<in> set ss' \<longrightarrow> \<not> slot_complete s)"
  by (induction ss arbitrary: ev ss' rule: evict_from.induct)
     (auto simp: map_filter_simps split: prod.splits if_splits)

lemma slot_ids_update:
  assumes "i < length ss" "ss ! i = Some s" "bs_request_id s' = bs_request_id s"
  shows "slot_ids (ss[i := Some s']) = slot_ids ss"
  using assms
  by (induction ss arbitrary: i) (auto simp: map_filter_simps nth_Cons split: nat.splits option.splits)

lemma update_slot_effect:
  assumes "\<And>s. bs_request_id (f s) = bs_request_id s"
  shows "active_ids (update_slot i f b) = active_ids b \<and> cb_pending (update_slot i f b) = cb_pending b \<and>
         length (cb_slots (update_slot i f b)) = length (cb_slots b)"
  using assms slot_ids_update [of i "cb_slots b"]
  by (auto simp: update_slot_def active_ids_def split: option.splits)

lemma slot_updates_keep_id [simp]:
  "bs_request_id (finish_prefill s) = bs_request_id s"
  "bs_request_id (record_token s) = bs_request_id s"
  "bs_request_id (mark_complete s) = bs_request_id s"
  by (simp_all add: finish_prefill_def record_token_def mark_complete_def)

lemma admit_pending_effect:
  assumes "admit_pending b = (ad, b')"
  shows "map snd ad @ cb_pending b' = cb_pending b \<and>
         active_ids b' = active_ids b + mset (map pr_request_id (map snd ad)) \<and>
         length (cb_slots b') = length (cb_slots b)"
  using assms admit_from_effect [of 0 "cb_slots b" "cb_pending b"]
  by (auto simp: admit_pending_def active_ids_def map_map [symmetric] simp del: map_map mset_map split: prod.splits)

lemma evict_completed_effect:
  "evict_completed b = (ev, b') \<Longrightarrow>
     cb_pending b' = cb_pending b \<and> active_ids b = active_ids b' + mset ev \<and> length (cb_slots b') = length (cb_slots b)"
  using evict_from_effect [of "cb_slots b"]
  by (auto simp: evict_completed_def active_ids_def split: prod.splits)

lemma op_enqueued_simps [simp]:
  "op_enqueued [] = []"
  "op_enqueued (OpEnqueue r # ops) = r # op_enqueued ops"
  "op_enqueued (OpAdmit # ops) = op_enqueued ops"
  "op_enqueued (OpEvict # ops) = op_enqueued ops"
  "op_enqueued (OpFinishPrefill i # ops) = op_enqueued ops"
  "op_enqueued (OpRecordToken i # ops) = op_enqueued ops"
  "op_enqueued (OpMarkComplete i # ops) = op_enqueued ops"
  by (simp_all add: op_enqueued_def map_filter_simps)

lemma batcher_step_effect:
  assumes "batcher_step op b = ((ad, ev), b')"
  shows "ad @ cb_pending b' = cb_pending b @ op_enqueued [op] \<and>
         active_ids b + mset (map pr_request_id ad) = active_ids b' + mset ev \<and>
         length (cb_slots b') = length (cb_slots b)"
proof (cases op)
  case (OpEnqueue r)
  then show ?thesis using assms by (auto simp: batcher_enqueue_def active_ids_def)
next
  case OpAdmit
  then show ?thesis using assms admit_pending_effect [of b] by (auto simp: image_mset.compositionality split: prod.splits)
next
  case OpEvict
  then show ?thesis using assms evict_completed_effect [of b] by (auto split: prod.splits)
qed (use assms in \<open>auto simp: update_slot_effect\<close>)

lemma batcher_run_effect:
  "batcher_run ops b = ((ad, ev), b') \<Longrightarrow>
     ad @ cb_pending b' = cb_pending b @ op_enqueued ops \<and>
     active_ids b + mset (map pr_request_id ad) = active_ids b' + mset ev \<and>
     length (cb_slots b') = length (cb_slots b)"
proof (induction ops arbitrary: b ad ev)
  case Nil
  then show ?case by (simp add: op_enqueued_def map_filter_simps)
next
  case (Cons op ops)
  obtain ad1 ev1 b1 where s: "batcher_step op b = ((ad1, ev1), b1)" by (metis prod.exhaust)
  obtain ad2 ev2 where r: "batcher_run ops b1 = ((ad2, ev2), b')" and e: "ad = ad1 @ ad2" "ev = ev1 @ ev2"
    using Cons.prems s by (auto split: prod.splits)
  note one = batcher_step_effect [OF s] and rest = Cons.IH [OF r]
  have "op_enqueued (op # ops) = op_enqueued [op] @ op_enqueued ops" by (cases op) simp_all
  then have "ad @ cb_pending b' = cb_pending b @ op_enqueued (op # ops)"
    using one rest e by (metis append_assoc)
  moreover have "active_ids b + mset (map pr_request_id ad) = active_ids b' + mset ev"
  proof -
    have "active_ids b + mset (map pr_request_id ad) = (active_ids b1 + mset ev1) + mset (map pr_request_id ad2)"
      using one e by (metis map_append mset_append add.assoc)
    also have "\<dots> = (active_ids b1 + mset (map pr_request_id ad2)) + mset ev1" by (simp add: ac_simps)
    also have "\<dots> = (active_ids b' + mset ev2) + mset ev1" using rest by simp
    also have "\<dots> = active_ids b' + mset ev" using e by (simp add: ac_simps)
    finally show ?thesis .
  qed
  ultimately show ?case using one rest by simp
qed

text \<open>
  C26: The continuous batcher serves first come, first served and loses nothing: after any sequence of
  calls, the requests admitted so far, in the order of their admission, followed by those still waiting,
  are exactly the requests enqueued, in their order; the identifiers of the admitted requests are those in
  the slots and those evicted, each counted as often as it occurs; and the number of slots never changes,
  so no more requests are active than there are slots.
\<close>

theorem batcher_conserves_requests:
  assumes "batcher_run ops (batcher_new n) = ((ad, ev), b)"
  shows "ad @ cb_pending b = op_enqueued ops \<and>
         mset (map pr_request_id ad) = active_ids b + mset ev \<and>
         length (cb_slots b) = n \<and> active_count b \<le> n"
proof -
  have "active_ids (batcher_new n) = {#}"
    by (induction n) (simp_all add: active_ids_def batcher_new_def map_filter_simps)
  then show ?thesis
    using batcher_run_effect [OF assms] length_filter_le [of "\<lambda>s. s \<noteq> None" "cb_slots b"]
    by (simp add: batcher_new_def active_count_def)
qed

text \<open>One slot: the second request joins when the first has left.\<close>

theorem batcher_conserves_requests_witness:
  "let a = \<lparr>pr_request_id = 7, pr_prompt_tokens = [1, 2], pr_max_tokens = 4\<rparr>; b = a\<lparr>pr_request_id := 8\<rparr>;
       ops = [OpEnqueue a, OpEnqueue b, OpAdmit, OpFinishPrefill 0, OpRecordToken 0, OpMarkComplete 0, OpEvict, OpAdmit]
   in \<exists>ad ev s. batcher_run ops (batcher_new 1) = ((ad, ev), s) \<and> ad @ cb_pending s = [a, b] \<and> ev = [7] \<and>
        mset (map pr_request_id ad) = active_ids s + {#7#}"
proof -
  let ?a = "\<lparr>pr_request_id = 7, pr_prompt_tokens = [1, 2], pr_max_tokens = 4\<rparr>"
  let ?ops = "[OpEnqueue ?a, OpEnqueue (?a\<lparr>pr_request_id := 8\<rparr>), OpAdmit, OpFinishPrefill 0, OpRecordToken 0, OpMarkComplete 0, OpEvict, OpAdmit]"
  obtain ad ev s where run: "batcher_run ?ops (batcher_new 1) = ((ad, ev), s)" by (metis prod.exhaust)
  have "ev = [7]" using run
    by (auto simp: batcher_new_def batcher_enqueue_def admit_pending_def slot_for_def slot_new_def update_slot_def finish_prefill_def
        record_token_def mark_complete_def evict_completed_def slot_complete_def)
  with batcher_conserves_requests [OF run] run show ?thesis by (auto simp: Let_def)
qed

end
