(* ===== verification/Session_Auth.thy ===== *)
theory Session_Auth
  imports Engine_Types
begin

text \<open>
  Handshake authentication and session validation (\<open>ipc/auth.rs\<close>, \<open>ipc/auth_session.rs\<close>): the
  limiter of failed handshakes, the session table with its expiry, the request limiter of a session, and
  the constant-time comparison of token hashes.

  SHA-256 is an argument (\<open>sha\<close>), and so are the 32 bytes that the operating system's generator
  returns. Every operation takes the clock reading it makes. Security events only go to the log.
\<close>

section \<open>Counting per window\<close>

text \<open>
  The contract of a fixed-window limiter: a grant is charged to the current window, a window is replaced
  only after more than \<open>W\<close> nanoseconds, and a window grants at most \<open>M\<close> times. \<open>ok n\<close> may rely on
  at most \<open>n\<close> steps having been made, which is what bounds a counter; a dead limiter grants nothing.
\<close>

locale window_limit =
  fixes step :: "'e \<Rightarrow> 's \<Rightarrow> bool \<times> 's"
    and time :: "'e \<Rightarrow> nat"
    and wstart :: "'s \<Rightarrow> nat option"
    and used :: "'s \<Rightarrow> nat"
    and ok :: "nat \<Rightarrow> 's \<Rightarrow> bool"
    and dead :: "'s \<Rightarrow> bool"
    and M W cap :: nat
  assumes dead_step: "dead s \<Longrightarrow> \<not> fst (step e s) \<and> dead (snd (step e s))"
    and step_law: "\<not> dead s \<Longrightarrow> ok n s \<Longrightarrow> n < cap \<Longrightarrow> (\<forall>w. wstart s = Some w \<longrightarrow> w \<le> time e) \<Longrightarrow>
      step e s = (g, s') \<Longrightarrow>
      dead s' \<and> \<not> g \<or>
      \<not> dead s' \<and> ok (Suc n) s' \<and> wstart s' = wstart s \<and> used s' = used s + of_bool g \<and> (wstart s = None \<longrightarrow> \<not> g) \<or>
      \<not> dead s' \<and> ok (Suc n) s' \<and> wstart s' = Some (time e) \<and> used s' = of_bool g \<and>
        (\<forall>w. wstart s = Some w \<longrightarrow> w + W < time e)"
    and used_le: "ok n s \<Longrightarrow> used s \<le> M"
begin

fun run :: "'e list \<Rightarrow> 's \<Rightarrow> nat \<times> 's" where
  "run [] s = (0, s)"
| "run (e # es) s = (let (g, s') = step e s; (n, s'') = run es s' in (of_bool g + n, s''))"

lemma dead_run: "dead s \<Longrightarrow> fst (run es s) = 0"
proof (induction es arbitrary: s)
  case Nil
  then show ?case by simp
next
  case (Cons e es)
  then show ?case using dead_step [of s e] by (auto simp: split_beta)
qed

definition window_ok :: "nat \<Rightarrow> nat \<Rightarrow> nat \<Rightarrow> 's \<Rightarrow> bool" where
  "window_ok t0 t k s \<longleftrightarrow>
     (case wstart s of None \<Rightarrow> k = 0 \<and> used s = 0 | Some w \<Rightarrow> t0 + k * W \<le> w \<and> w \<le> t)"

lemma run_windows:
  "\<not> dead s \<Longrightarrow> ok n s \<Longrightarrow> n + length es \<le> cap \<Longrightarrow> window_ok t0 t k s \<Longrightarrow>
   sorted (t # map time es) \<Longrightarrow> t0 \<le> t \<Longrightarrow> 0 < W \<Longrightarrow> last (t # map time es) = te \<Longrightarrow>
   M * k + used s + fst (run es s) \<le> M * ((te - t0) div W + 1)"
proof (induction es arbitrary: s n t k)
  case Nil
  have "used s \<le> M" using used_le Nil by blast
  moreover have "k \<le> (te - t0) div W"
    using Nil by (auto simp: window_ok_def less_eq_div_iff_mult_less_eq split: option.splits)
  then have "M * k \<le> M * ((te - t0) div W)" by (rule mult_le_mono2)
  ultimately show ?case by (simp only: run.simps fst_conv distrib_left mult_1_right)
next
  case (Cons e es)
  obtain g s' where st: "step e s = (g, s')" by (cases "step e s")
  have le: "t \<le> time e" using Cons.prems(5) by simp
  have old: "\<forall>w. wstart s = Some w \<longrightarrow> w \<le> time e"
    using Cons.prems(4) le by (auto simp: window_ok_def)
  have rest: "sorted (time e # map time es)" "last (time e # map time es) = te" "t0 \<le> time e"
    using Cons.prems le by simp_all
  have run_eq: "fst (run (e # es) s) = of_bool g + fst (run es s')" by (simp add: st split_beta)
  have use: "M * k' + used s' + fst (run es s') \<le> M * ((te - t0) div W + 1)"
    if "\<not> dead s'" "ok (Suc n) s'" "window_ok t0 (time e) k' s'" for k'
    using Cons.IH [OF that(1,2) _ that(3)] Cons.prems(3,7) rest by simp
  consider (dead) "dead s'" "\<not> g"
    | (same) "\<not> dead s'" "ok (Suc n) s'" "wstart s' = wstart s" "used s' = used s + of_bool g" "wstart s = None \<longrightarrow> \<not> g"
    | (new) "\<not> dead s'" "ok (Suc n) s'" "wstart s' = Some (time e)" "used s' = of_bool g"
        "\<forall>w. wstart s = Some w \<longrightarrow> w + W < time e"
    using step_law [OF Cons.prems(1,2) _ old st] Cons.prems(3) by auto
  then show ?case
  proof cases
    case dead
    have "used s \<le> M" using used_le Cons.prems(2) by blast
    moreover have "k \<le> (te - t0) div W"
    proof (cases "wstart s")
      case None
      then show ?thesis using Cons.prems(4) by (simp add: window_ok_def)
    next
      case (Some w)
      have "time e \<le> te" using rest(1,2) by (metis last_in_set list.distinct(1) list.set_intros(1) sorted_simps(2) set_ConsD order_refl)
      then show ?thesis using Some Cons.prems(4,6,7) le by (auto simp: window_ok_def less_eq_div_iff_mult_less_eq)
    qed
    then have "M * k \<le> M * ((te - t0) div W)" by (rule mult_le_mono2)
    ultimately show ?thesis 
      using dead dead_run [of s' es] unfolding run_eq by (simp only: of_bool_eq distrib_left mult_1_right)
  next
    case same
    have "window_ok t0 (time e) k s'"
      using same Cons.prems(4) le by (auto simp: window_ok_def split: option.splits)
    from use [OF same(1,2) this] same show ?thesis unfolding run_eq by simp
  next
    case new
    show ?thesis
    proof (cases "wstart s")
      case None
      then have "k = 0" "used s = 0" using Cons.prems(4) by (auto simp: window_ok_def)
      moreover have "window_ok t0 (time e) 0 s'" using new rest(3) by (simp add: window_ok_def)
      from use [OF new(1,2) this] have "used s' + fst (run es s') \<le> M * ((te - t0) div W + 1)" by simp
      ultimately show ?thesis using new(4) unfolding run_eq by simp
    next
      case (Some w)
      have "used s \<le> M" using used_le Cons.prems(2) by blast
      moreover have "window_ok t0 (time e) (Suc k) s'"
        using new Some Cons.prems(4) by (auto simp: window_ok_def)
      from use [OF new(1,2) this] have "M * Suc k + used s' + fst (run es s') \<le> M * ((te - t0) div W + 1)" .
      ultimately show ?thesis using new(4) unfolding run_eq by simp
    qed
  qed
qed

lemma run_bounded:
  assumes "\<not> dead s" "ok 0 s" "length es \<le> cap" "used s = 0" "wstart s = None \<or> wstart s = Some t0"
    "sorted (t0 # map time es)" "0 < W"
  shows "fst (run es s) \<le> M * ((last (t0 # map time es) - t0) div W + 1)"
  using run_windows [of s 0 es t0 t0 0 "last (t0 # map time es)"] assms
  by (auto simp: window_ok_def)

end

section \<open>State\<close>

abbreviation secs :: "nat \<Rightarrow> nat" where
  "secs n \<equiv> n * 1000000000"

definition MAX_FAILED_ATTEMPTS :: nat where "MAX_FAILED_ATTEMPTS = 5"
definition RATE_LIMIT_DURATION :: nat where "RATE_LIMIT_DURATION = secs 30"
definition ATTEMPT_WINDOW :: nat where "ATTEMPT_WINDOW = secs 60"
definition MAX_REQUESTS_PER_MINUTE :: nat where "MAX_REQUESTS_PER_MINUTE = 1000"
definition REQUEST_WINDOW :: nat where "REQUEST_WINDOW = secs 60"

lemmas auth_consts = MAX_FAILED_ATTEMPTS_def RATE_LIMIT_DURATION_def ATTEMPT_WINDOW_def
  MAX_REQUESTS_PER_MINUTE_def REQUEST_WINDOW_def

datatype auth_error =
  InvalidToken | SessionNotFound | SessionExpired | AuthNotAuthenticated | RateLimited | SessionRateLimited

record session =
  created_at :: instant
  last_activity :: instant
  connection_count :: usize
  request_count :: u64
  request_window_start :: "instant option"

record rate_limiter =
  failed_attempts :: u64
  window_start :: "instant option"
  blocked_until :: "instant option"

record session_auth =
  sa_sessions :: "(string, session) hash_map"
  expected_token_hash :: "byte list"
  session_timeout :: nat
  limiter :: rate_limiter

section \<open>Failed handshakes\<close>

definition rl_new :: rate_limiter where
  "rl_new = \<lparr>failed_attempts = 0, window_start = None, blocked_until = None\<rparr>"

definition is_rate_limited :: "instant \<Rightarrow> rate_limiter \<Rightarrow> bool" where
  "is_rate_limited now l = (case blocked_until l of None \<Rightarrow> False | Some b \<Rightarrow> now < b)"

definition record_failure :: "instant \<Rightarrow> rate_limiter \<Rightarrow> rate_limiter" where
  "record_failure now l =
     (if (case window_start l of None \<Rightarrow> True | Some start \<Rightarrow> ATTEMPT_WINDOW < now - start)
      then l\<lparr>failed_attempts := 1, window_start := Some now\<rparr>
      else
        let attempts = wrap_add (failed_attempts l) 1 in
        if MAX_FAILED_ATTEMPTS \<le> attempts
        then l\<lparr>failed_attempts := attempts, blocked_until := Some (now + RATE_LIMIT_DURATION)\<rparr>
        else l\<lparr>failed_attempts := attempts\<rparr>)"

definition rl_reset :: "rate_limiter \<Rightarrow> rate_limiter" where
  "rl_reset l = \<lparr>failed_attempts = 0, window_start = None, blocked_until = None\<rparr>"

text \<open>The accumulator of the fold is an 8-bit word: any differing bit of any byte stays set.\<close>

unbundle bit_operations_syntax

definition constant_time_compare :: "byte list \<Rightarrow> byte list \<Rightarrow> bool" where
  "constant_time_compare a b =
     (if length a \<noteq> length b then False
      else foldl (\<lambda>acc (x, y). acc OR (x XOR y)) 0 (zip a b) = 0)"

definition hex_digit :: "nat \<Rightarrow> char" where
  "hex_digit d = (if d < 10 then char_of (48 + d) else char_of (87 + d))"

definition hex_encode :: "byte list \<Rightarrow> string" where
  "hex_encode bs = concat (map (\<lambda>b. [hex_digit (unat b div 16), hex_digit (unat b mod 16)]) bs)"

definition generate_session_id :: "byte list \<Rightarrow> string" where
  "generate_session_id random_bytes = hex_encode random_bytes"

section \<open>Sessions\<close>

definition auth_new :: "(string \<Rightarrow> byte list) \<Rightarrow> string \<Rightarrow> nat \<Rightarrow> session_auth" where
  "auth_new sha expected_token timeout =
     \<lparr>sa_sessions = [], expected_token_hash = sha expected_token, session_timeout = timeout, limiter = rl_new\<rparr>"

definition session_new :: "instant \<Rightarrow> session" where
  "session_new now = \<lparr>created_at = now, last_activity = now, connection_count = 0, request_count = 0,
     request_window_start = Some now\<rparr>"

definition authenticate ::
  "(string \<Rightarrow> byte list) \<Rightarrow> instant \<Rightarrow> byte list \<Rightarrow> string \<Rightarrow> session_auth \<Rightarrow> (auth_error + string) \<times> session_auth" where
  "authenticate sha now random_bytes token a =
     (if is_rate_limited now (limiter a) then (Inl RateLimited, a)
      else if \<not> constant_time_compare (sha token) (expected_token_hash a)
        then (Inl InvalidToken, a\<lparr>limiter := record_failure now (limiter a)\<rparr>)
      else
        let sid = generate_session_id random_bytes in
        (Inr sid, a\<lparr>limiter := rl_reset (limiter a),
                    sa_sessions := AList.update sid (session_new now) (sa_sessions a)\<rparr>))"

text \<open>The request limiter of one session: the result is whether the request is within the limit.\<close>

definition charge_request :: "instant \<Rightarrow> session \<Rightarrow> bool \<times> session" where
  "charge_request now s =
     (if (case request_window_start s of None \<Rightarrow> True | Some ws \<Rightarrow> REQUEST_WINDOW < now - ws)
      then (True, s\<lparr>request_count := 1, request_window_start := Some now\<rparr>)
      else
        let count = wrap_add (request_count s) 1 in
        (count \<le> MAX_REQUESTS_PER_MINUTE, s\<lparr>request_count := count\<rparr>))"

definition auth_validate :: "instant \<Rightarrow> string \<Rightarrow> session_auth \<Rightarrow> (auth_error + unit) \<times> session_auth" where
  "auth_validate now sid a =
     (case map_of (sa_sessions a) sid of
        None \<Rightarrow> (Inl SessionNotFound, a)
      | Some s \<Rightarrow>
          if session_timeout a < now - created_at s
          then (Inl SessionExpired, a\<lparr>sa_sessions := AList.delete sid (sa_sessions a)\<rparr>)
          else
            (case charge_request now s of
               (False, s') \<Rightarrow> (Inl SessionRateLimited, a\<lparr>sa_sessions := AList.update sid s' (sa_sessions a)\<rparr>)
             | (True, s') \<Rightarrow>
                 (Inr (), a\<lparr>sa_sessions := AList.update sid (s'\<lparr>last_activity := now\<rparr>) (sa_sessions a)\<rparr>)))"

definition auth_cleanup :: "instant \<Rightarrow> session_auth \<Rightarrow> session_auth" where
  "auth_cleanup now a =
     a\<lparr>sa_sessions := filter (\<lambda>(sid, s). now - created_at s \<le> session_timeout a) (sa_sessions a)\<rparr>"

definition track_connection :: "string \<Rightarrow> session_auth \<Rightarrow> (auth_error + usize) \<times> session_auth" where
  "track_connection sid a =
     (case map_of (sa_sessions a) sid of
        None \<Rightarrow> (Inl SessionNotFound, a)
      | Some s \<Rightarrow>
          let n = wrap_add (connection_count s) 1 in
          (Inr n, a\<lparr>sa_sessions := AList.update sid (s\<lparr>connection_count := n\<rparr>) (sa_sessions a)\<rparr>))"

definition release_connection :: "string \<Rightarrow> session_auth \<Rightarrow> session_auth" where
  "release_connection sid a =
     (case map_of (sa_sessions a) sid of
        None \<Rightarrow> a
      | Some s \<Rightarrow> a\<lparr>sa_sessions :=
          AList.update sid (s\<lparr>connection_count := wrap_sub (connection_count s) 1\<rparr>) (sa_sessions a)\<rparr>)"

definition auth_connection_count :: "string \<Rightarrow> session_auth \<Rightarrow> auth_error + usize" where
  "auth_connection_count sid a =
     (case map_of (sa_sessions a) sid of None \<Rightarrow> Inl SessionNotFound | Some s \<Rightarrow> Inr (connection_count s))"

lemmas auth_defs [op_defs] = authenticate_def auth_validate_def auth_cleanup_def track_connection_def
  release_connection_def

text \<open>The calls a client can cause, each made at a clock reading, and what they do to the state.\<close>

datatype auth_op =
    Authenticate "byte list" string
  | Validate string
  | Cleanup
  | Track string
  | Release string

fun auth_exec :: "(string \<Rightarrow> byte list) \<Rightarrow> instant \<times> auth_op \<Rightarrow> session_auth \<Rightarrow> session_auth" where
  "auth_exec sha (now, Authenticate r tok) a = snd (authenticate sha now r tok a)"
| "auth_exec sha (now, Validate sid) a = snd (auth_validate now sid a)"
| "auth_exec sha (now, Cleanup) a = auth_cleanup now a"
| "auth_exec sha (now, Track sid) a = snd (track_connection sid a)"
| "auth_exec sha (now, Release sid) a = release_connection sid a"

fun handshakes ::
  "(string \<Rightarrow> byte list) \<Rightarrow> (instant \<times> byte list \<times> string) list \<Rightarrow> session_auth \<Rightarrow> (auth_error + string) list" where
  "handshakes sha [] a = []"
| "handshakes sha ((now, r, tok) # ts) a =
     (let (res, a') = authenticate sha now r tok a in res # handshakes sha ts a')"

fun validations ::
  "(string \<Rightarrow> byte list) \<Rightarrow> string \<Rightarrow> (instant \<times> auth_op) list \<Rightarrow> session_auth \<Rightarrow> (auth_error + unit) list" where
  "validations sha sid [] a = []"
| "validations sha sid ((now, op) # es) a =
     (if op = Validate sid then [fst (auth_validate now sid a)] else []) @
     validations sha sid es (auth_exec sha (now, op) a)"

section \<open>The comparison\<close>

lemma xor_eq_zero: "x XOR y = 0 \<longleftrightarrow> x = (y :: byte)"
  by (metis xor.assoc xor.left_neutral xor.right_neutral xor_self_eq)

lemma fold_or_zero:
  "foldl (\<lambda>acc (x, y). acc OR (x XOR y)) (c :: byte) ps = 0 \<longleftrightarrow> c = 0 \<and> (\<forall>(x, y) \<in> set ps. x = y)"
proof (induction ps arbitrary: c)
  case Nil
  then show ?case by simp
next
  case (Cons p ps)
  show ?case by (cases p) (auto simp: Cons or_eq_0_iff xor_eq_zero)
qed

lemma constant_time_compare_eq: "constant_time_compare a b \<longleftrightarrow> a = b"
proof (cases "length a = length b")
  case True
  then have "(\<forall>(x, y) \<in> set (zip a b). x = y) \<longleftrightarrow> a = b"
    by (induction a b rule: list_induct2) auto
  with True show ?thesis by (simp add: constant_time_compare_def fold_or_zero)
qed (auto simp: constant_time_compare_def)

section \<open>Guessing the token\<close>

definition guess_step :: "instant \<Rightarrow> rate_limiter \<Rightarrow> bool \<times> rate_limiter" where
  "guess_step now l = (if is_rate_limited now l then (False, l) else (True, record_failure now l))"

lemma guess_step_cases:
  "is_rate_limited now l \<Longrightarrow> guess_step now l = (False, l)"
  "\<not> is_rate_limited now l \<Longrightarrow> guess_step now l = (True, record_failure now l)"
  by (simp_all add: guess_step_def)

definition guess_used :: "rate_limiter \<Rightarrow> nat" where
  "guess_used l = (if window_start l = None then 0 else failed_attempts l)"

definition guess_ok :: "nat \<Rightarrow> rate_limiter \<Rightarrow> bool" where
  "guess_ok n l \<longleftrightarrow>
     (case window_start l of
        None \<Rightarrow> failed_attempts l = 0 \<and> blocked_until l = None
      | Some w \<Rightarrow> failed_attempts l \<le> 7 \<and>
          (5 \<le> failed_attempts l \<longrightarrow>
            (\<exists>b. blocked_until l = Some b \<and> w + (failed_attempts l - 4) * RATE_LIMIT_DURATION \<le> b)))"

text \<open>
  After the fifth failure of a window the address is blocked for 30 seconds at a time, so the window of 60
  seconds sees at most a sixth and a seventh comparison.
\<close>

lemma guess_step_law:
  assumes ok: "guess_ok n l" and old: "\<forall>w. window_start l = Some w \<longrightarrow> w \<le> now"
    and st: "guess_step now l = (g, l')"
  shows "guess_ok (Suc n) l' \<and> window_start l' = window_start l \<and> guess_used l' = guess_used l + of_bool g \<and>
      (window_start l = None \<longrightarrow> \<not> g) \<or>
    guess_ok (Suc n) l' \<and> window_start l' = Some now \<and> guess_used l' = of_bool g \<and>
      (\<forall>w. window_start l = Some w \<longrightarrow> w + ATTEMPT_WINDOW < now)"
proof (cases "is_rate_limited now l")
  case True
  then show ?thesis using ok st by (auto simp: guess_step_def guess_ok_def)
next
  case free: False
  then have l': "g" "l' = record_failure now l" using st by (auto simp: guess_step_def)
  show ?thesis
  proof (cases "window_start l")
    case None
    then show ?thesis using l' by (simp add: record_failure_def guess_ok_def guess_used_def)
  next
    case (Some w)
    show ?thesis
    proof (cases "ATTEMPT_WINDOW < now - w")
      case True
      then show ?thesis using Some l' old by (auto simp: record_failure_def guess_ok_def guess_used_def)
    next
      case False
      define f where "f = failed_attempts l"
      have f: "f \<le> 7" using ok Some by (simp add: guess_ok_def f_def)
      have again: "w + (f - 4) * RATE_LIMIT_DURATION \<le> now" if "5 \<le> f"
        using ok Some that free by (auto simp: guess_ok_def is_rate_limited_def f_def)
      then have "f \<noteq> 7" using False old Some by (auto simp: auth_consts)
      with f have small: "f \<le> 6" by simp
      then have wrap: "wrap_add (failed_attempts l) 1 = Suc f" unfolding f_def [symmetric] by (simp add: two64_numeral)
      have "w + (Suc f - 4) * RATE_LIMIT_DURATION \<le> now + RATE_LIMIT_DURATION" if "5 \<le> Suc f"
      proof (cases "5 \<le> f")
        case True
        then have "Suc f - 4 = Suc (f - 4)" by simp
        then show ?thesis using again [OF True] by simp
      next
        case False
        then have "Suc f - 4 = 1" using that by simp
        then show ?thesis using old Some by simp
      qed
      then have "guess_ok (Suc n) l'"
        using Some False wrap small l'(2) by (simp add: guess_ok_def record_failure_def MAX_FAILED_ATTEMPTS_def Let_def)
      moreover have "window_start l' = window_start l" "guess_used l' = guess_used l + 1"
        using Some False wrap l'(2) by (simp_all add: record_failure_def guess_used_def Let_def f_def)
      ultimately show ?thesis using l'(1) Some by simp
    qed
  qed
qed

interpretation guesses: window_limit guess_step "\<lambda>now. now" window_start guess_used guess_ok "\<lambda>_. False" 7 ATTEMPT_WINDOW two64
proof (unfold_locales, goal_cases)
  case 1
  then show ?case by simp
next
  case (2 s n e g s')
  then show ?case using guess_step_law [of n s e g s'] by blast
next
  case (3 n s)
  then show ?case by (auto simp: guess_ok_def guess_used_def split: option.splits)
qed

lemma handshakes_wrong:
  assumes "\<forall>(now, r, tok) \<in> set tries. sha tok \<noteq> expected_token_hash a"
  shows "length (filter ((=) (Inl InvalidToken)) (handshakes sha tries a)) = fst (guesses.run (map fst tries) (limiter a)) \<and>
    set (handshakes sha tries a) \<subseteq> {Inl InvalidToken, Inl RateLimited}"
  using assms
proof (induction tries arbitrary: a)
  case Nil
  then show ?case by simp
next
  case (Cons attempt tries)
  obtain now r tok where t: "attempt = (now, r, tok)" by (cases attempt)
  show ?case
  proof (cases "is_rate_limited now (limiter a)")
    case True
    then show ?thesis using Cons t by (simp add: authenticate_def guess_step_cases split_beta)
  next
    case False
    let ?a = "a\<lparr>limiter := record_failure now (limiter a)\<rparr>"
    have "length (filter ((=) (Inl InvalidToken)) (handshakes sha tries ?a)) =
        fst (guesses.run (map fst tries) (limiter ?a)) \<and>
      set (handshakes sha tries ?a) \<subseteq> {Inl InvalidToken, Inl RateLimited}"
      using Cons.prems by (intro Cons.IH) auto
    then show ?thesis
      using Cons.prems t False by (simp add: authenticate_def guess_step_cases constant_time_compare_eq split_beta)
  qed
qed



section \<open>The requests of one session\<close>

definition issues :: "string \<Rightarrow> instant \<times> auth_op \<Rightarrow> bool" where
  "issues sid e \<longleftrightarrow> (case snd e of Authenticate r tok \<Rightarrow> generate_session_id r = sid | _ \<Rightarrow> False)"

definition request_step ::
  "(string \<Rightarrow> byte list) \<Rightarrow> string \<Rightarrow> instant \<times> auth_op \<Rightarrow> session_auth \<Rightarrow> bool \<times> session_auth" where
  "request_step sha sid e a =
     (if issues sid e then (False, a)
      else (snd e = Validate sid \<and> fst (auth_validate (fst e) sid a) = Inr (), auth_exec sha e a))"

definition sess :: "string \<Rightarrow> session_auth \<Rightarrow> session option" where
  "sess sid a = map_of (sa_sessions a) sid"

definition request_window :: "string \<Rightarrow> session_auth \<Rightarrow> instant option" where
  "request_window sid a = Option.bind (sess sid a) request_window_start"

definition request_used :: "string \<Rightarrow> session_auth \<Rightarrow> nat" where
  "request_used sid a = (case sess sid a of None \<Rightarrow> 0 | Some s \<Rightarrow> min (request_count s) MAX_REQUESTS_PER_MINUTE)"

definition request_ok :: "string \<Rightarrow> nat \<Rightarrow> session_auth \<Rightarrow> bool" where
  "request_ok sid n a \<longleftrightarrow> wf_map (sa_sessions a) \<and>
     (\<forall>s. sess sid a = Some s \<longrightarrow> request_count s \<le> n \<and> request_window_start s \<noteq> None)"

lemmas request_defs = request_window_def request_used_def request_ok_def

lemma wf_sessions_exec: "wf_map (sa_sessions a) \<Longrightarrow> wf_map (sa_sessions (auth_exec sha e a))"
  by (cases "(sha, e, a)" rule: auth_exec.cases) (auto simp: auth_defs Let_def split: option.splits prod.splits bool.splits)

text \<open>What the calls do to the session with a given id, seen as one table entry.\<close>

lemma sess_exec:
  "sess sid (auth_exec sha (now, Authenticate r tok) a) =
     (if is_rate_limited now (limiter a) \<or> sha tok \<noteq> expected_token_hash a \<or> generate_session_id r \<noteq> sid then sess sid a
      else Some (session_new now))"
  "sess sid (auth_exec sha (now, Track sid') a) =
     (if sid = sid' then map_option (\<lambda>s. s\<lparr>connection_count := wrap_add (connection_count s) 1\<rparr>) (sess sid a) else sess sid a)"
  "sess sid (auth_exec sha (now, Release sid') a) =
     (if sid = sid' then map_option (\<lambda>s. s\<lparr>connection_count := wrap_sub (connection_count s) 1\<rparr>) (sess sid a) else sess sid a)"
  "sid \<noteq> sid' \<Longrightarrow> sess sid (auth_exec sha (now, Validate sid') a) = sess sid a"
  by (auto simp: sess_def auth_defs constant_time_compare_eq Let_def split: option.splits prod.splits bool.splits)

lemma sess_cleanup:
  assumes "wf_map (sa_sessions a)"
  shows "sess sid (auth_exec sha (now, Cleanup) a) =
    (case sess sid a of None \<Rightarrow> None | Some s \<Rightarrow> if now - created_at s \<le> session_timeout a then Some s else None)"
  using map_of_filter_snd [OF assms, of "\<lambda>s. now - created_at s \<le> session_timeout a" sid]
  by (simp add: sess_def auth_cleanup_def)

lemma sess_validate:
  "sess sid (auth_exec sha (now, Validate sid) a) =
     (case sess sid a of
        None \<Rightarrow> None
      | Some s \<Rightarrow>
          if session_timeout a < now - created_at s then None
          else Some (let (g, s') = charge_request now s in if g then s'\<lparr>last_activity := now\<rparr> else s'))"
  "fst (auth_validate now sid a) = Inr () \<longleftrightarrow>
     (\<exists>s. sess sid a = Some s \<and> now - created_at s \<le> session_timeout a \<and> fst (charge_request now s))"
  by (auto simp: sess_def auth_validate_def split: option.splits prod.splits bool.splits)

lemma charge_request_law:
  assumes "request_window_start s = Some w" and "request_count s < two64 - 1" and "charge_request now s = (g, s')"
  shows "REQUEST_WINDOW < now - w \<and> g \<and> request_count s' = 1 \<and> request_window_start s' = Some now \<or>
    request_window_start s' = Some w \<and> request_count s' = Suc (request_count s) \<and>
      g = (Suc (request_count s) \<le> MAX_REQUESTS_PER_MINUTE)"
  using assms by (auto simp: charge_request_def Let_def split: if_splits)

lemma request_step_law:
  assumes live: "sess sid a \<noteq> None" and ok: "request_ok sid n a" and n: "n < two64 - 1"
    and old: "\<forall>w. request_window sid a = Some w \<longrightarrow> w \<le> fst e"
    and st: "request_step sha sid e a = (g, a')"
  shows "sess sid a' = None \<and> \<not> g \<or>
    sess sid a' \<noteq> None \<and> request_ok sid (Suc n) a' \<and> request_window sid a' = request_window sid a \<and>
      request_used sid a' = request_used sid a + of_bool g \<and> (request_window sid a = None \<longrightarrow> \<not> g) \<or>
    sess sid a' \<noteq> None \<and> request_ok sid (Suc n) a' \<and> request_window sid a' = Some (fst e) \<and>
      request_used sid a' = of_bool g \<and> (\<forall>w. request_window sid a = Some w \<longrightarrow> w + REQUEST_WINDOW < fst e)"
proof -
  obtain now op where e: "e = (now, op)" by (cases e)
  obtain s where s: "sess sid a = Some s" using live by blast
  obtain w where w: "request_window_start s = Some w" using ok s by (auto simp: request_ok_def)
  have wf: "wf_map (sa_sessions a)" using ok by (simp add: request_ok_def)
  have unchanged: ?thesis if "\<not> g" "sess sid a' = Some s'" "request_count s' = request_count s"
    "request_window_start s' = request_window_start s" "wf_map (sa_sessions a')" for s'
    using that ok s w by (auto simp: request_defs)
  show ?thesis
  proof (cases "issues sid e")
    case True
    then show ?thesis using st s ok by (intro unchanged [of s]) (auto simp: request_step_def request_ok_def)
  next
    case fresh: False
    then have a': "a' = auth_exec sha e a" and g: "g = (op = Validate sid \<and> fst (auth_validate now sid a) = Inr ())"
      using st by (auto simp: request_step_def e)
    have wf': "wf_map (sa_sessions a')" unfolding a' by (rule wf_sessions_exec [OF wf])
    show ?thesis
    proof (cases "op = Validate sid")
      case True
      obtain h s' where ch: "charge_request now s = (h, s')" by (cases "charge_request now s")
      have cnt: "request_count s < two64 - 1" using ok s n by (auto simp: request_ok_def)
      show ?thesis
      proof (cases "session_timeout a < now - created_at s")
        case True
        then show ?thesis using \<open>op = Validate sid\<close> s g a' e by (simp add: sess_validate del: auth_exec.simps)
      next
        case False
        then have "g = h" and "sess sid a' = Some (if h then s'\<lparr>last_activity := now\<rparr> else s')"
          using \<open>op = Validate sid\<close> s g a' e ch by (simp_all add: sess_validate not_less del: auth_exec.simps)
        with charge_request_law [OF w cnt ch] s w wf' ok show ?thesis
          by (auto simp: request_defs e MAX_REQUESTS_PER_MINUTE_def)
      qed
    next
      case False
      then have "\<not> g" using g by simp
      show ?thesis
      proof (cases op)
        case (Authenticate r tok)
        then show ?thesis using \<open>\<not> g\<close> fresh s wf' e
          by (intro unchanged [of s]) (auto simp: a' sess_exec issues_def simp del: auth_exec.simps)
      next
        case (Validate sid')
        then show ?thesis using \<open>\<not> g\<close> False s wf' e by (intro unchanged [of s]) (auto simp: a' sess_exec simp del: auth_exec.simps)
      next
        case Cleanup
        then have after: "sess sid a' = (if now - created_at s \<le> session_timeout a then Some s else None)"
          unfolding a' e by (simp add: sess_cleanup [OF wf] s del: auth_exec.simps)
        show ?thesis
        proof (cases "now - created_at s \<le> session_timeout a")
          case True
          then show ?thesis using \<open>\<not> g\<close> wf' after by (intro unchanged [of s]) simp_all
        next
          case False
          then show ?thesis using \<open>\<not> g\<close> after by simp
        qed
      next
        case (Track sid')
        then show ?thesis using \<open>\<not> g\<close> s wf' e
          by (intro unchanged [of "if sid = sid' then s\<lparr>connection_count := wrap_add (connection_count s) 1\<rparr> else s"])
            (auto simp: a' sess_exec simp del: auth_exec.simps)
      next
        case (Release sid')
        then show ?thesis using \<open>\<not> g\<close> s wf' e
          by (intro unchanged [of "if sid = sid' then s\<lparr>connection_count := wrap_sub (connection_count s) 1\<rparr> else s"])
            (auto simp: a' sess_exec simp del: auth_exec.simps)
      qed
    qed
  qed
qed

lemma sess_none_exec:
  assumes "sess sid a = None" and "\<not> issues sid e"
  shows "sess sid (auth_exec sha e a) = None"
proof -
  obtain now op where e: "e = (now, op)" by (cases e)
  show ?thesis
  proof (cases op)
    case (Validate sid')
    then show ?thesis using assms by (cases "sid = sid'") (simp_all add: e sess_exec sess_validate del: auth_exec.simps)
  next
    case Cleanup
    then show ?thesis using assms(1) by (auto simp: e sess_def auth_cleanup_def map_of_eq_None_iff)
  qed (use assms in \<open>auto simp: e issues_def sess_exec simp del: auth_exec.simps\<close>)
qed

interpretation requests: window_limit "request_step sha sid" fst "request_window sid" "request_used sid" "request_ok sid"
  "\<lambda>a. sess sid a = None" MAX_REQUESTS_PER_MINUTE REQUEST_WINDOW "two64 - 1"
  for sha sid
proof (unfold_locales, goal_cases)
  case (1 s e)
  then have "sess sid (auth_exec sha e s) = None" if "\<not> issues sid e" using sess_none_exec that by blast
  with 1 show ?case using sess_validate(2) by (auto simp: request_step_def)
next
  case (2 s n e g s')
  then show ?case using request_step_law [of sid s n e sha g s'] by blast
next
  case (3 n s)
  then show ?case by (auto simp: request_used_def split: option.splits)
qed

lemma validations_run:
  assumes "\<forall>e \<in> set es. \<not> issues sid e"
  shows "length (filter ((=) (Inr ())) (validations sha sid es a)) = fst (requests.run sha sid es a)"
  using assms
proof (induction es arbitrary: a)
  case Nil
  then show ?case by simp
next
  case (Cons e es)
  obtain now op where e: "e = (now, op)" by (cases e)
  have "request_step sha sid e a =
      (op = Validate sid \<and> fst (auth_validate now sid a) = Inr (), auth_exec sha e a)"
    using Cons.prems by (simp add: request_step_def e)
  with Cons show ?case by (auto simp: e split_beta simp del: auth_exec.simps)
qed

text \<open>
  A session is served at a bounded rate: from the moment its handshake succeeds, whatever is called on
  whatever session and in whatever order, at most 1000 requests per started minute are validated for it.
\<close>

theorem session_requests_bounded:
  assumes issued: "authenticate sha t0 r tok a = (Inr sid, a')" and wf: "wf_map (sa_sessions a)"
    and es: "\<forall>e \<in> set es. \<not> issues sid e" and clock: "sorted (t0 # map fst es)" and few: "length es < two64"
  shows "length (filter ((=) (Inr ())) (validations sha sid es a')) \<le>
    MAX_REQUESTS_PER_MINUTE * ((last (t0 # map fst es) - t0) div REQUEST_WINDOW + 1)"
proof -
  have "sess sid a' = Some (session_new t0)" "wf_map (sa_sessions a')"
    using issued wf by (auto simp: authenticate_def sess_def Let_def split: if_splits)
  then show ?thesis
    unfolding validations_run [OF es] using clock few
    by (intro requests.run_bounded) (auto simp: request_defs session_new_def REQUEST_WINDOW_def)
qed

lemma sample_id: "generate_session_id [10] = ''0a''"
  by code_simp

lemma sample_login:
  "authenticate (\<lambda>s. []) 5 [10] ''t'' (auth_new (\<lambda>s. []) ''t'' 60) =
     (Inr ''0a'', (auth_new (\<lambda>s. []) ''t'' 60)\<lparr>sa_sessions := [(''0a'', session_new 5)]\<rparr>)"
  by (simp add: sample_id authenticate_def auth_new_def is_rate_limited_def rl_new_def rl_reset_def constant_time_compare_def Let_def)

theorem session_requests_bounded_witness:
  "length (filter ((=) (Inr ())) (validations (\<lambda>s. []) ''0a'' [(7, Validate ''0a''), (9, Track ''0a'')]
     (snd (authenticate (\<lambda>s. []) 5 [10] ''t'' (auth_new (\<lambda>s. []) ''t'' 60))))) \<le> 1000"
proof -
  have "authenticate (\<lambda>s. []) 5 [10] ''t'' (auth_new (\<lambda>s. []) ''t'' 60) =
      (Inr ''0a'', snd (authenticate (\<lambda>s. []) 5 [10] ''t'' (auth_new (\<lambda>s. []) ''t'' 60)))"
    by (simp add: sample_login)
  from session_requests_bounded [OF this, of "[(7, Validate ''0a''), (9, Track ''0a'')]"] show ?thesis
    by (simp add: auth_new_def issues_def two64_numeral auth_consts)
qed

section \<open>Where a valid session comes from\<close>

abbreviation auth_run :: "(string \<Rightarrow> byte list) \<Rightarrow> (instant \<times> auth_op) list \<Rightarrow> session_auth \<Rightarrow> session_auth" where
  "auth_run sha es a \<equiv> foldl (\<lambda>a e. auth_exec sha e a) a es"

lemma auth_exec_fixed:
  "expected_token_hash (auth_exec sha e a) = expected_token_hash a \<and> session_timeout (auth_exec sha e a) = session_timeout a"
  by (cases "(sha, e, a)" rule: auth_exec.cases) (auto simp: auth_defs Let_def split: option.splits prod.splits bool.splits)

lemma charge_request_created: "created_at (snd (charge_request now s)) = created_at s"
  by (simp add: charge_request_def Let_def)

lemma sess_origin:
  assumes "wf_map (sa_sessions a)" and "sess sid (auth_exec sha e a) = Some s"
  shows "(\<exists>s0. sess sid a = Some s0 \<and> created_at s = created_at s0) \<or>
    (\<exists>r tok. e = (created_at s, Authenticate r tok) \<and> generate_session_id r = sid \<and> sha tok = expected_token_hash a)"
proof -
  obtain now op where e: "e = (now, op)" by (cases e)
  show ?thesis
  proof (cases op)
    case (Authenticate r tok)
    then show ?thesis using assms(2)
      by (auto simp: e sess_exec session_new_def simp del: auth_exec.simps split: if_splits)
  next
    case (Validate sid')
    then show ?thesis
    proof (cases "sid = sid'")
      case True
      then show ?thesis using assms(2) Validate charge_request_created [of now]
        by (auto simp: e sess_validate split_beta Let_def simp del: auth_exec.simps split: option.splits if_splits)
    next
      case False
      then show ?thesis using assms(2) Validate by (auto simp: e sess_exec simp del: auth_exec.simps)
    qed
  next
    case Cleanup
    then show ?thesis using assms
      by (auto simp: e sess_cleanup simp del: auth_exec.simps split: option.splits if_splits)
  next
    case (Track sid')
    then show ?thesis using assms(2) by (auto simp: e sess_exec simp del: auth_exec.simps split: if_splits)
  next
    case (Release sid')
    then show ?thesis using assms(2) by (auto simp: e sess_exec simp del: auth_exec.simps split: if_splits)
  qed
qed

lemma auth_run_props:
  "wf_map (sa_sessions (auth_run sha es (auth_new sha secret timeout))) \<and>
   expected_token_hash (auth_run sha es (auth_new sha secret timeout)) = sha secret \<and>
   session_timeout (auth_run sha es (auth_new sha secret timeout)) = timeout \<and>
   (\<forall>sid s. sess sid (auth_run sha es (auth_new sha secret timeout)) = Some s \<longrightarrow>
     (\<exists>r tok. (created_at s, Authenticate r tok) \<in> set es \<and> generate_session_id r = sid \<and> sha tok = sha secret))"
proof (induction es rule: rev_induct)
  case Nil
  then show ?case by (simp add: auth_new_def sess_def)
next
  case (snoc e es)
  define a where "a = auth_run sha es (auth_new sha secret timeout)"
  have run: "auth_run sha (es @ [e]) (auth_new sha secret timeout) = auth_exec sha e a" by (simp add: a_def)
  show ?case
    unfolding run using snoc [folded a_def] sess_origin [of a _ sha e] wf_sessions_exec [of a sha e] auth_exec_fixed [of sha e a]
    by (simp del: auth_exec.simps) (metis (no_types, lifting))
qed

text \<open>
  C18: Only a caller that presented the right token holds a session: whenever a session id validates, an
  earlier handshake whose token has the expected hash was answered with exactly that id, no longer ago than
  the session timeout.
\<close>

theorem validate_only_issued:
  assumes "fst (auth_validate now sid (auth_run sha es (auth_new sha secret timeout))) = Inr ()"
  shows "\<exists>t r tok. (t, Authenticate r tok) \<in> set es \<and> generate_session_id r = sid \<and> sha tok = sha secret \<and>
    now \<le> t + timeout"
proof -
  from assms obtain s where "sess sid (auth_run sha es (auth_new sha secret timeout)) = Some s"
    "now - created_at s \<le> session_timeout (auth_run sha es (auth_new sha secret timeout))"
    by (auto simp: sess_validate(2))
  moreover from this(1) obtain r tok where "(created_at s, Authenticate r tok) \<in> set es"
    "generate_session_id r = sid" "sha tok = sha secret"
    using auth_run_props [of sha secret timeout es] by blast
  moreover have "session_timeout (auth_run sha es (auth_new sha secret timeout)) = timeout"
    using auth_run_props [of sha secret timeout es] by blast
  ultimately show ?thesis by (intro exI [of _ "created_at s"] exI [of _ r] exI [of _ tok]) simp
qed

theorem validate_only_issued_witness:
  "fst (auth_validate 9 ''0a'' (auth_run (\<lambda>s. []) [(5, Authenticate [10] ''t'')] (auth_new (\<lambda>s. []) ''t'' 60))) = Inr () \<and>
   (\<exists>t r tok. (t, Authenticate r tok) \<in> set [(5::nat, Authenticate [10] ''t'')] \<and> generate_session_id r = ''0a'' \<and> 9 \<le> t + 60)"
proof -
  have "fst (auth_validate 9 ''0a'' (auth_run (\<lambda>s. []) [(5, Authenticate [10] ''t'')] (auth_new (\<lambda>s. []) ''t'' 60))) = Inr ()"
    by (simp add: sample_login sess_validate(2) sess_def session_new_def charge_request_def REQUEST_WINDOW_def MAX_REQUESTS_PER_MINUTE_def
        two64_numeral wrap_add_def) (simp add: auth_new_def)
  with validate_only_issued [OF this] show ?thesis by blast
qed

end
