(* ===== verification/Env_Config.thy ===== *)
theory Env_Config
  imports Rust_Parse Batching Resource_Limits Model_Loading Session_Auth
begin

text \<open>
  The runtime configuration (\<open>config.rs\<close>) and the commands that show and check it
  (\<open>cli/config_cmd.rs\<close>).

  The environment maps a variable to its value; \<open>None\<close> stands for both errors of \<open>std::env::var\<close>, a
  variable that is not set and one that is not Unicode. Durations are nanoseconds.
\<close>

type_synonym environment = "string \<Rightarrow> string option"

record effective_config =
  eff_max_context_length :: usize
  eff_queue_max_pending :: usize
  eff_queue_max_context_tokens :: usize
  eff_resource_max_memory_per_call :: usize
  eff_resource_max_total_memory :: usize
  eff_resource_max_concurrent :: usize
  eff_batch_max_requests :: usize
  eff_batch_max_tokens :: usize
  eff_shutdown_timeout_secs :: u64
  eff_session_timeout_secs :: u64
  eff_n_ctx :: nat
  eff_n_threads :: nat
  eff_ipc_frame_limit :: usize
  eff_max_connections :: usize

record env_config =
  ec_base_path :: string
  ec_auth_token :: string
  ec_max_context_length :: usize
  ec_request_queue :: queue_config
  ec_resource_limits :: limits_config
  ec_batch :: batch_config
  ec_shutdown_timeout :: nat
  ec_session_timeout :: nat
  ec_gguf :: gguf_env_config
  ec_max_frame_size :: usize
  ec_max_connections :: usize

section \<open>Loading\<close>

definition parse_var :: "nat \<Rightarrow> environment \<Rightarrow> string \<Rightarrow> nat \<Rightarrow> nat" where
  "parse_var B env key dflt =
     (case env key of
        Some val \<Rightarrow> (case parse_uint B val of Some n \<Rightarrow> n | None \<Rightarrow> dflt)
      | None \<Rightarrow> dflt)"

definition parse_usize :: "environment \<Rightarrow> string \<Rightarrow> usize \<Rightarrow> usize" where
  "parse_usize = parse_var two64"

definition parse_u32 :: "environment \<Rightarrow> string \<Rightarrow> nat \<Rightarrow> nat" where
  "parse_u32 = parse_var (2 ^ 32)"

definition parse_u64 :: "environment \<Rightarrow> string \<Rightarrow> u64 \<Rightarrow> u64" where
  "parse_u64 = parse_var two64"

definition load_queue_config :: "environment \<Rightarrow> queue_config" where
  "load_queue_config env =
     (let mp = parse_usize env ''GG_CORE_MAX_QUEUE_DEPTH'' 256;
          mc = parse_usize env ''GG_CORE_MAX_CONTEXT_TOKENS'' 4096
      in \<lparr>max_pending = max mp 1, max_context_tokens = max mc 1\<rparr>)"

definition load_resource_limits :: "environment \<Rightarrow> limits_config" where
  "load_resource_limits env =
     (let per_call = parse_usize env ''GG_CORE_MAX_MEMORY_PER_CALL'' (1024 * 1024 * 1024);
          tot = parse_usize env ''GG_CORE_MAX_TOTAL_MEMORY'' (2 * 1024 * 1024 * 1024);
          concurrent = parse_usize env ''GG_CORE_MAX_CONCURRENT'' 2;
          per_call' = max per_call (1024 * 1024)
      in \<lparr>max_memory_per_call = per_call', max_total_memory = max tot per_call', max_concurrent = max concurrent 1\<rparr>)"

definition load_batch_config :: "environment \<Rightarrow> batch_config" where
  "load_batch_config env =
     (let sz = parse_usize env ''GG_CORE_BATCH_MAX_REQUESTS'' 8;
          tk = parse_usize env ''GG_CORE_BATCH_MAX_TOKENS'' 4096
      in \<lparr>max_batch_size = max sz 1, max_total_tokens = max tk 1\<rparr>)"

definition load_gguf_config :: "environment \<Rightarrow> gguf_env_config" where
  "load_gguf_config env =
     (let n_ctx = parse_u32 env ''GG_CORE_N_CTX'' 2048; n_threads = parse_u32 env ''GG_CORE_N_THREADS'' 0
      in \<lparr>ge_n_ctx = max n_ctx 128, ge_n_threads = n_threads\<rparr>)"

definition load_ipc_server_config :: "environment \<Rightarrow> usize" where
  "load_ipc_server_config env = max (parse_usize env ''GG_CORE_IPC_FRAME_LIMIT'' (16 * 1024 * 1024)) 4096"

definition load_connection_config :: "environment \<Rightarrow> usize" where
  "load_connection_config env = max (parse_usize env ''GG_CORE_MAX_CONNECTIONS'' 64) 1"

definition load :: "environment \<Rightarrow> env_config" where
  "load env =
     (let auth_token = (case env ''CORE_AUTH_TOKEN'' of Some t \<Rightarrow> t | None \<Rightarrow> []);
          max_context_length = parse_usize env ''GG_CORE_MAX_CONTEXT'' 4096;
          shutdown_secs = parse_u64 env ''GG_CORE_SHUTDOWN_TIMEOUT'' 30;
          session_secs = parse_u64 env ''GG_CORE_SESSION_TIMEOUT'' 3600
      in \<lparr>ec_base_path = ''.'', ec_auth_token = auth_token,
          ec_max_context_length = min (max max_context_length 1) 1000000,
          ec_request_queue = load_queue_config env, ec_resource_limits = load_resource_limits env,
          ec_batch = load_batch_config env, ec_shutdown_timeout = secs (max shutdown_secs 1),
          ec_session_timeout = secs (max session_secs 1), ec_gguf = load_gguf_config env,
          ec_max_frame_size = load_ipc_server_config env, ec_max_connections = load_connection_config env\<rparr>)"

definition effective_config_of :: "env_config \<Rightarrow> effective_config" where
  "effective_config_of c =
     \<lparr>eff_max_context_length = ec_max_context_length c,
      eff_queue_max_pending = max_pending (ec_request_queue c),
      eff_queue_max_context_tokens = max_context_tokens (ec_request_queue c),
      eff_resource_max_memory_per_call = max_memory_per_call (ec_resource_limits c),
      eff_resource_max_total_memory = max_total_memory (ec_resource_limits c),
      eff_resource_max_concurrent = max_concurrent (ec_resource_limits c),
      eff_batch_max_requests = max_batch_size (ec_batch c),
      eff_batch_max_tokens = max_total_tokens (ec_batch c),
      eff_shutdown_timeout_secs = ec_shutdown_timeout c div 1000000000,
      eff_session_timeout_secs = ec_session_timeout c div 1000000000,
      eff_n_ctx = ge_n_ctx (ec_gguf c), eff_n_threads = ge_n_threads (ec_gguf c),
      eff_ipc_frame_limit = ec_max_frame_size c, eff_max_connections = ec_max_connections c\<rparr>"

section \<open>Showing and checking\<close>

text \<open>The lines \<open>print_config\<close> writes.\<close>

definition print_config :: "effective_config \<Rightarrow> string list" where
  "print_config c =
     [''GG_CORE_MAX_CONTEXT='' @ show_nat (eff_max_context_length c),
      ''GG_CORE_MAX_QUEUE_DEPTH='' @ show_nat (eff_queue_max_pending c),
      ''GG_CORE_MAX_CONTEXT_TOKENS='' @ show_nat (eff_queue_max_context_tokens c),
      ''GG_CORE_MAX_MEMORY_PER_CALL='' @ show_nat (eff_resource_max_memory_per_call c),
      ''GG_CORE_MAX_TOTAL_MEMORY='' @ show_nat (eff_resource_max_total_memory c),
      ''GG_CORE_MAX_CONCURRENT='' @ show_nat (eff_resource_max_concurrent c),
      ''GG_CORE_BATCH_MAX_REQUESTS='' @ show_nat (eff_batch_max_requests c),
      ''GG_CORE_BATCH_MAX_TOKENS='' @ show_nat (eff_batch_max_tokens c),
      ''GG_CORE_SHUTDOWN_TIMEOUT='' @ show_nat (eff_shutdown_timeout_secs c),
      ''GG_CORE_SESSION_TIMEOUT='' @ show_nat (eff_session_timeout_secs c),
      ''GG_CORE_N_CTX='' @ show_nat (eff_n_ctx c),
      ''GG_CORE_N_THREADS='' @ show_nat (eff_n_threads c),
      ''GG_CORE_IPC_FRAME_LIMIT='' @ show_nat (eff_ipc_frame_limit c),
      ''GG_CORE_MAX_CONNECTIONS='' @ show_nat (eff_max_connections c)]"

definition run_show :: "environment \<Rightarrow> string list" where
  "run_show env = print_config (effective_config_of (load env))"

definition run_defaults :: "string list" where
  "run_defaults =
     [''GG_CORE_MAX_CONTEXT=4096'', ''GG_CORE_MAX_QUEUE_DEPTH=256'', ''GG_CORE_MAX_CONTEXT_TOKENS=4096'',
      ''GG_CORE_MAX_MEMORY_PER_CALL=1073741824'', ''GG_CORE_MAX_TOTAL_MEMORY=2147483648'', ''GG_CORE_MAX_CONCURRENT=2'',
      ''GG_CORE_BATCH_MAX_REQUESTS=8'', ''GG_CORE_BATCH_MAX_TOKENS=4096'', ''GG_CORE_SHUTDOWN_TIMEOUT=30'',
      ''GG_CORE_SESSION_TIMEOUT=3600'', ''GG_CORE_N_CTX=2048'', ''GG_CORE_N_THREADS=0'',
      ''GG_CORE_IPC_FRAME_LIMIT=16777216'', ''GG_CORE_MAX_CONNECTIONS=64'']"

text \<open>The exit code of \<open>run_validate\<close>.\<close>

definition run_validate :: "environment \<Rightarrow> nat" where
  "run_validate env =
     (let cfg = effective_config_of (load env);
          warnings = (if eff_resource_max_total_memory cfg < eff_resource_max_memory_per_call cfg then 1 else 0) +
                     (if eff_resource_max_concurrent cfg = 0 then 1 else 0 :: nat)
      in if warnings = 0 then 0 else 1)"

lemmas config_defs [op_defs] = load_queue_config_def load_resource_limits_def load_batch_config_def load_gguf_config_def
  load_ipc_server_config_def load_connection_config_def load_def effective_config_of_def

section \<open>Every environment gives a usable configuration\<close>

lemma parse_var_less: "d < B \<Longrightarrow> parse_var B env key d < B"
  using parse_uint_less [of B] by (auto simp: parse_var_def split: option.splits)

lemma parse_usize_less: "d < 18446744073709551616 \<Longrightarrow> parse_usize env key d < 18446744073709551616"
  using parse_var_less [of d two64] by (simp add: parse_usize_def two64_numeral)

lemma parse_u64_less: "d < 18446744073709551616 \<Longrightarrow> parse_u64 env key d < 18446744073709551616"
  using parse_var_less [of d two64] by (simp add: parse_u64_def two64_numeral)

lemma parse_u32_less: "d < 4294967296 \<Longrightarrow> parse_u32 env key d < 4294967296"
  using parse_var_less [of d "2 ^ 32"] by (simp add: parse_u32_def)

definition limits_usable :: "limits_config \<Rightarrow> bool" where
  "limits_usable l \<longleftrightarrow>
     1048576 \<le> max_memory_per_call l \<and> max_memory_per_call l \<le> max_total_memory l \<and> max_total_memory l < two64 \<and>
     1 \<le> max_concurrent l \<and> max_concurrent l < two64"

text \<open>What the fields of a configuration promise to the components that are built from it.\<close>

definition config_ok :: "env_config \<Rightarrow> bool" where
  "config_ok c \<longleftrightarrow>
     1 \<le> ec_max_context_length c \<and> ec_max_context_length c \<le> 1000000 \<and>
     1 \<le> max_pending (ec_request_queue c) \<and> max_pending (ec_request_queue c) < two64 \<and>
     1 \<le> max_context_tokens (ec_request_queue c) \<and> max_context_tokens (ec_request_queue c) < two64 \<and>
     limits_usable (ec_resource_limits c) \<and>
     1 \<le> max_batch_size (ec_batch c) \<and> max_batch_size (ec_batch c) < two64 \<and>
     1 \<le> max_total_tokens (ec_batch c) \<and> max_total_tokens (ec_batch c) < two64 \<and>
     secs 1 \<le> ec_shutdown_timeout c \<and> ec_shutdown_timeout c < secs two64 \<and>
     secs 1 \<le> ec_session_timeout c \<and> ec_session_timeout c < secs two64 \<and>
     128 \<le> ge_n_ctx (ec_gguf c) \<and> ge_n_ctx (ec_gguf c) < 2 ^ 32 \<and> ge_n_threads (ec_gguf c) < 2 ^ 32 \<and>
     4096 \<le> ec_max_frame_size c \<and> ec_max_frame_size c < two64 \<and>
     1 \<le> ec_max_connections c \<and> ec_max_connections c < two64"

lemma limits_usable_load: "limits_usable (load_resource_limits env)"
  using parse_usize_less [of _ env]
  by (simp add: limits_usable_def load_resource_limits_def Let_def two64_numeral)

text \<open>
  C24: Every environment, whatever its values, gives a configuration of the right shape: each number fits
  the type of its field, no limit is zero, the context length is between 1 and 1,000,000, a call gets at
  least one mebibyte and no more than the total, frames of four kibibytes are accepted, and both timeouts
  are at least a second.
\<close>

theorem load_well_formed: "config_ok (load env)"
  unfolding config_ok_def
  using limits_usable_load [of env] parse_usize_less [of _ env] parse_u64_less [of _ env] parse_u32_less [of _ env]
  by (simp add: load_def load_queue_config_def load_batch_config_def load_gguf_config_def load_ipc_server_config_def
      load_connection_config_def Let_def two64_numeral)

text \<open>So the check of the configuration cannot fail: what it warns about has been corrected before.\<close>

theorem validate_never_warns: "run_validate env = 0"
  using limits_usable_load [of env]
  by (simp add: run_validate_def effective_config_of_def load_def Let_def limits_usable_def)

section \<open>What is shown can be exported again\<close>

text \<open>The environment that a list of lines \<open>KEY=VALUE\<close> describes.\<close>

fun env_of_lines :: "string list \<Rightarrow> environment" where
  "env_of_lines [] key = None"
| "env_of_lines (l # ls) key =
     (if starts_with l (key @ ''='') then Some (drop (length key + 1) l) else env_of_lines ls key)"

lemma shown_values:
  "env_of_lines (print_config c) ''GG_CORE_MAX_CONTEXT'' = Some (show_nat (eff_max_context_length c))"
  "env_of_lines (print_config c) ''GG_CORE_MAX_QUEUE_DEPTH'' = Some (show_nat (eff_queue_max_pending c))"
  "env_of_lines (print_config c) ''GG_CORE_MAX_CONTEXT_TOKENS'' = Some (show_nat (eff_queue_max_context_tokens c))"
  "env_of_lines (print_config c) ''GG_CORE_MAX_MEMORY_PER_CALL'' = Some (show_nat (eff_resource_max_memory_per_call c))"
  "env_of_lines (print_config c) ''GG_CORE_MAX_TOTAL_MEMORY'' = Some (show_nat (eff_resource_max_total_memory c))"
  "env_of_lines (print_config c) ''GG_CORE_MAX_CONCURRENT'' = Some (show_nat (eff_resource_max_concurrent c))"
  "env_of_lines (print_config c) ''GG_CORE_BATCH_MAX_REQUESTS'' = Some (show_nat (eff_batch_max_requests c))"
  "env_of_lines (print_config c) ''GG_CORE_BATCH_MAX_TOKENS'' = Some (show_nat (eff_batch_max_tokens c))"
  "env_of_lines (print_config c) ''GG_CORE_SHUTDOWN_TIMEOUT'' = Some (show_nat (eff_shutdown_timeout_secs c))"
  "env_of_lines (print_config c) ''GG_CORE_SESSION_TIMEOUT'' = Some (show_nat (eff_session_timeout_secs c))"
  "env_of_lines (print_config c) ''GG_CORE_N_CTX'' = Some (show_nat (eff_n_ctx c))"
  "env_of_lines (print_config c) ''GG_CORE_N_THREADS'' = Some (show_nat (eff_n_threads c))"
  "env_of_lines (print_config c) ''GG_CORE_IPC_FRAME_LIMIT'' = Some (show_nat (eff_ipc_frame_limit c))"
  "env_of_lines (print_config c) ''GG_CORE_MAX_CONNECTIONS'' = Some (show_nat (eff_max_connections c))"
  "env_of_lines (print_config c) ''CORE_AUTH_TOKEN'' = None"
  by (simp_all add: print_config_def)

lemma parse_shown:
  "env key = Some (show_nat n) \<Longrightarrow> n < 18446744073709551616 \<Longrightarrow> parse_usize env key d = n"
  "env key = Some (show_nat n) \<Longrightarrow> n < 18446744073709551616 \<Longrightarrow> parse_u64 env key d = n"
  "env key = Some (show_nat n) \<Longrightarrow> n < 4294967296 \<Longrightarrow> parse_u32 env key d = n"
  by (simp_all add: parse_usize_def parse_u64_def parse_u32_def parse_var_def two64_numeral)

lemmas parse_bounds = parse_usize_less parse_u64_less parse_u32_less
lemmas shown_simps = run_show_def shown_values parse_shown parse_bounds effective_config_of_def load_def Let_def

lemma shown_queue: "load_queue_config (env_of_lines (run_show env)) = load_queue_config env"
  by (simp add: load_queue_config_def shown_simps)

lemma shown_limits: "load_resource_limits (env_of_lines (run_show env)) = load_resource_limits env"
  by (simp add: load_resource_limits_def shown_simps max.assoc)

lemma shown_batch: "load_batch_config (env_of_lines (run_show env)) = load_batch_config env"
  by (simp add: load_batch_config_def shown_simps)

lemma shown_gguf: "load_gguf_config (env_of_lines (run_show env)) = load_gguf_config env"
  by (simp add: load_gguf_config_def shown_simps)

lemma shown_ipc:
  "load_ipc_server_config (env_of_lines (run_show env)) = load_ipc_server_config env"
  "load_connection_config (env_of_lines (run_show env)) = load_connection_config env"
  by (simp_all add: load_ipc_server_config_def load_connection_config_def shown_simps)

lemma shown_scalars:
  "parse_usize (env_of_lines (run_show env)) ''GG_CORE_MAX_CONTEXT'' d = ec_max_context_length (load env)"
  "parse_u64 (env_of_lines (run_show env)) ''GG_CORE_SHUTDOWN_TIMEOUT'' d = max (parse_u64 env ''GG_CORE_SHUTDOWN_TIMEOUT'' 30) 1"
  "parse_u64 (env_of_lines (run_show env)) ''GG_CORE_SESSION_TIMEOUT'' d = max (parse_u64 env ''GG_CORE_SESSION_TIMEOUT'' 3600) 1"
  "env_of_lines (run_show env) ''CORE_AUTH_TOKEN'' = None"
  by (simp_all add: shown_simps)

text \<open>
  The shown configuration is the configuration: exporting the lines that \<open>config show\<close> prints and
  loading again gives the same configuration, except for the token, which is not printed. In particular
  no floor or clamp changes a value that has already been through one.
\<close>

theorem show_then_load:
  "load (env_of_lines (run_show env)) = (load env)\<lparr>ec_auth_token := []\<rparr>"
  unfolding load_def [of "env_of_lines (run_show env)"] shown_queue shown_limits shown_batch shown_gguf shown_ipc shown_scalars
  by (simp add: load_def Let_def)

text \<open>The constants that \<open>config defaults\<close> prints are those of the code.\<close>

theorem defaults_shown: "run_show (\<lambda>_. None) = run_defaults"
  by (simp add: run_show_def run_defaults_def print_config_def config_defs Let_def parse_usize_def parse_u32_def
      parse_u64_def parse_var_def show_nat.simps digit_char_def char_of_def bit_Suc_0_iff)

end
