(* ===== verification/Shutdown_Health.thy ===== *)
theory Shutdown_Health
  imports Resource_Limits
begin

text \<open>
  Graceful shutdown (\<open>shutdown.rs\<close>) and health reports (\<open>health.rs\<close>).

  The coordinator is a state machine shared by the requests that are tracked and the one task that
  initiates the shutdown. \<open>track\<close> reads the state and increments the counter in two separate
  instructions, and \<open>wait_for_drain\<close> reads the counter, sleeps on the notifier and may time out at
  any point, so the whole protocol is a step relation over the instructions.
\<close>

section \<open>The coordinator\<close>

datatype shutdown_state = Running | Draining | ShutStopped

datatype shutdown_result = Complete | Timeout nat

record coordinator =
  sd_state :: shutdown_state
  in_flight :: nat
  sd_permit :: bool

definition two32 :: nat where
  "two32 = 2 ^ 32"

definition sd_new :: coordinator where
  "sd_new = \<lparr>sd_state = Running, in_flight = 0, sd_permit = False\<rparr>"

definition is_accepting :: "coordinator \<Rightarrow> bool" where
  "is_accepting c \<longleftrightarrow> sd_state c = Running"

definition inc32 :: "nat \<Rightarrow> nat" where
  "inc32 n = (n + 1) mod two32"

definition dec32 :: "nat \<Rightarrow> nat" where
  "dec32 n = (n + (two32 - 1)) mod two32"

definition guard_added :: "coordinator \<Rightarrow> coordinator" where
  "guard_added c = c\<lparr>in_flight := inc32 (in_flight c)\<rparr>"

definition guard_removed :: "coordinator \<Rightarrow> coordinator" where
  "guard_removed c = c\<lparr>in_flight := dec32 (in_flight c)\<rparr>"

definition track :: "coordinator \<Rightarrow> bool \<times> coordinator" where
  "track c = (if is_accepting c then (True, guard_added c) else (False, c))"

definition guard_drop :: "coordinator \<Rightarrow> coordinator" where
  "guard_drop c = (guard_removed c)\<lparr>sd_permit := True\<rparr>"

lemmas sd_defs = sd_new_def is_accepting_def guard_added_def guard_removed_def guard_drop_def

subsection \<open>The protocol\<close>

datatype track_phase = Untracked | Checked | Tracked | Dropping

datatype drain_pc =
    Not_Started
  | Read_Count
  | Check_Time nat
  | Await
  | Report shutdown_result
  | Finished shutdown_result

record 't shutdown_sys =
  ss_coord :: coordinator
  ss_phase :: "'t \<Rightarrow> track_phase"
  ss_pc :: drain_pc

definition set_phase :: "'t \<Rightarrow> track_phase \<Rightarrow> 't shutdown_sys \<Rightarrow> 't shutdown_sys" where
  "set_phase t p s = s\<lparr>ss_phase := (ss_phase s)(t := p)\<rparr>"

inductive sd_step :: "'t set \<Rightarrow> 't shutdown_sys \<Rightarrow> 't shutdown_sys \<Rightarrow> bool" for T where
  check_accepting:
    "t \<in> T \<Longrightarrow> ss_phase s t = Untracked \<Longrightarrow> is_accepting (ss_coord s) \<Longrightarrow> sd_step T s (set_phase t Checked s)"
| count_up:
    "t \<in> T \<Longrightarrow> ss_phase s t = Checked \<Longrightarrow>
     sd_step T s (set_phase t Tracked (s\<lparr>ss_coord := guard_added (ss_coord s)\<rparr>))"
| count_down:
    "t \<in> T \<Longrightarrow> ss_phase s t = Tracked \<Longrightarrow>
     sd_step T s (set_phase t Dropping (s\<lparr>ss_coord := guard_removed (ss_coord s)\<rparr>))"
| drop_notify:
    "t \<in> T \<Longrightarrow> ss_phase s t = Dropping \<Longrightarrow>
     sd_step T s (set_phase t Untracked (s\<lparr>ss_coord := (ss_coord s)\<lparr>sd_permit := True\<rparr>\<rparr>))"
| start_drain:
    "ss_pc s = Not_Started \<Longrightarrow>
     sd_step T s (s\<lparr>ss_coord := (ss_coord s)\<lparr>sd_state := Draining\<rparr>, ss_pc := Read_Count\<rparr>)"
| drained:
    "ss_pc s = Read_Count \<Longrightarrow> in_flight (ss_coord s) = 0 \<Longrightarrow> sd_step T s (s\<lparr>ss_pc := Report Complete\<rparr>)"
| not_drained:
    "ss_pc s = Read_Count \<Longrightarrow> in_flight (ss_coord s) = Suc n \<Longrightarrow> sd_step T s (s\<lparr>ss_pc := Check_Time (Suc n)\<rparr>)"
| out_of_time: "ss_pc s = Check_Time n \<Longrightarrow> sd_step T s (s\<lparr>ss_pc := Report (Timeout n)\<rparr>)"
| await: "ss_pc s = Check_Time n \<Longrightarrow> sd_step T s (s\<lparr>ss_pc := Await\<rparr>)"
| drain_notified:
    "ss_pc s = Await \<Longrightarrow> sd_permit (ss_coord s) \<Longrightarrow>
     sd_step T s (s\<lparr>ss_coord := (ss_coord s)\<lparr>sd_permit := False\<rparr>, ss_pc := Read_Count\<rparr>)"
| slept_drained:
    "ss_pc s = Await \<Longrightarrow> in_flight (ss_coord s) = 0 \<Longrightarrow> sd_step T s (s\<lparr>ss_pc := Report Complete\<rparr>)"
| slept_not_drained:
    "ss_pc s = Await \<Longrightarrow> in_flight (ss_coord s) = Suc n \<Longrightarrow> sd_step T s (s\<lparr>ss_pc := Report (Timeout (Suc n))\<rparr>)"
| stop:
    "ss_pc s = Report r \<Longrightarrow>
     sd_step T s (s\<lparr>ss_coord := (ss_coord s)\<lparr>sd_state := ShutStopped\<rparr>, ss_pc := Finished r\<rparr>)"

inductive_cases sd_stepE: "sd_step T s s'"

definition sd_init :: "'t shutdown_sys" where
  "sd_init = \<lparr>ss_coord = sd_new, ss_phase = (\<lambda>_. Untracked), ss_pc = Not_Started\<rparr>"

section \<open>The counter counts the guards\<close>

definition track_weight :: "track_phase \<Rightarrow> nat" where
  "track_weight p = (if p = Tracked then 1 else 0)"

inductive count_step :: "nat \<Rightarrow> track_phase \<Rightarrow> nat \<Rightarrow> track_phase \<Rightarrow> bool" where
  "count_step g Untracked g Checked"
| "count_step g Checked (inc32 g) Tracked"
| "count_step g Tracked (dec32 g) Dropping"
| "count_step g Dropping g Untracked"

lemma inc32_exact [simp]: "g + 1 < two32 \<Longrightarrow> inc32 g = g + 1"
  by (simp add: inc32_def)

lemma dec32_exact [simp]:
  assumes "0 < g" and "g < two32"
  shows "dec32 g = g - 1"
proof -
  have "g + (two32 - 1) = (g - 1) + two32"
    using assms by simp
  then have "dec32 g = ((g - 1) + two32) mod two32"
    by (simp only: dec32_def)
  also have "\<dots> = g - 1"
    using assms by (simp only: mod_add_self2) simp
  finally show ?thesis .
qed

interpretation guards: gauge track_weight "\<lambda>_. 0" "\<lambda>_. True" 0 1 two32 count_step
  by unfold_locales
    (auto simp: track_weight_def elim!: count_step.cases split: if_splits)

lemma sd_step_count:
  assumes "sd_step T s s'"
  shows "(in_flight (ss_coord s') = in_flight (ss_coord s) \<and> ss_phase s' = ss_phase s) \<or>
    (\<exists>t\<in>T. \<exists>p'. count_step (in_flight (ss_coord s)) (ss_phase s t) (in_flight (ss_coord s')) p' \<and>
       ss_phase s' = (ss_phase s)(t := p'))"
  using assms
  by (cases rule: sd_step.cases) (auto simp: set_phase_def sd_defs count_step.simps)

lemma sd_balanced:
  assumes "(sd_step T)\<^sup>*\<^sup>* sd_init s" and "finite T" and "card T < two32"
  shows "guards.balanced T (in_flight (ss_coord s)) (ss_phase s)"
  using assms(1)
proof (induction rule: rtranclp_induct)
  case base
  show ?case unfolding guards.balanced_def by (simp add: sd_init_def sd_new_def track_weight_def)
next
  case (step s s')
  from sd_step_count [OF step(2)] show ?case
  proof (elim disjE conjE bexE exE)
    fix t p'
    assume "t \<in> T" "count_step (in_flight (ss_coord s)) (ss_phase s t) (in_flight (ss_coord s')) p'"
      "ss_phase s' = (ss_phase s)(t := p')"
    then show ?thesis
      using guards.balanced_step [OF assms(2) _ _ step(3)] assms(3) by (metis mult_1_right)
  qed (use step(3) in simp)
qed

lemma in_flight_counts:
  assumes "(sd_step T)\<^sup>*\<^sup>* sd_init s" and "finite T" and "card T < two32"
  shows "in_flight (ss_coord s) = card {t \<in> T. ss_phase s t = Tracked}"
  using sd_balanced [OF assms]
  by (simp add: guards.balanced_def track_weight_def sum_eq_card [OF assms(2)])

section \<open>Properties of the protocol\<close>

lemma state_after_start:
  assumes "(sd_step T)\<^sup>*\<^sup>* sd_init s"
  shows "sd_state (ss_coord s) = Running \<longleftrightarrow> ss_pc s = Not_Started"
  using assms
proof (induction rule: rtranclp_induct)
  case base
  then show ?case by (simp add: sd_init_def sd_new_def)
next
  case (step s s')
  from step(2,3) show ?case
    by (cases rule: sd_step.cases) (auto simp: set_phase_def sd_defs)
qed

lemma reports_zero:
  assumes "sd_step T s s'" and "ss_pc s' = Report Complete" and "ss_pc s \<noteq> Report Complete"
  shows "in_flight (ss_coord s') = 0"
  using assms by (cases rule: sd_step.cases) (auto simp: set_phase_def)

text \<open>
  C32: \<open>initiate\<close> reports a complete drain only when no tracked request is left: at the step in which the
  result becomes \<open>Complete\<close>, no guard is held, for every interleaving of requests with the drain.
\<close>

theorem complete_means_no_guard_held:
  assumes "(sd_step T)\<^sup>*\<^sup>* sd_init s" and "sd_step T s s'"
    and "ss_pc s' = Report Complete" and "ss_pc s \<noteq> Report Complete"
    and "finite T" and "card T < two32"
  shows "\<forall>t. t \<in> T \<longrightarrow> ss_phase s' t \<noteq> Tracked"
proof -
  have "card {t \<in> T. ss_phase s' t = Tracked} = 0"
    using in_flight_counts [OF rtranclp.rtrancl_into_rtrancl [OF assms(1,2)] assms(5,6)]
      reports_zero [OF assms(2-4)] by simp
  with assms(5) show ?thesis by auto
qed

definition sd_drained :: "'t set \<Rightarrow> 't shutdown_sys \<Rightarrow> bool" where
  "sd_drained T s \<longleftrightarrow> sd_state (ss_coord s) \<noteq> Running \<and>
     (\<forall>t\<in>T. ss_phase s t \<noteq> Checked \<and> ss_phase s t \<noteq> Tracked)"

lemma sd_drained_step: "sd_step T s s' \<Longrightarrow> sd_drained T s \<Longrightarrow> sd_drained T s'"
  by (induction rule: sd_step.induct) (auto simp: sd_drained_def set_phase_def sd_defs)

text \<open>
  A drained coordinator stays drained: once the shutdown has begun, no request is tracked and none
  has passed the acceptance check without counting itself, no request is ever tracked again.
\<close>

theorem drained_is_final:
  assumes "(sd_step T)\<^sup>*\<^sup>* s s'" and "sd_state (ss_coord s) \<noteq> Running"
    and "\<forall>t\<in>T. ss_phase s t \<noteq> Checked \<and> ss_phase s t \<noteq> Tracked"
  shows "\<forall>t. t \<in> T \<longrightarrow> ss_phase s' t \<noteq> Tracked"
proof -
  have "sd_drained T s"
    using assms(2,3) by (simp add: sd_drained_def)
  with assms(1) have "sd_drained T s'"
    by (induction rule: rtranclp_induct) (auto intro: sd_drained_step)
  then show ?thesis by (simp add: sd_drained_def)
qed

definition drain_wake_invar :: "'t set \<Rightarrow> 't shutdown_sys \<Rightarrow> bool" where
  "drain_wake_invar T s \<longleftrightarrow>
     ((\<exists>n. ss_pc s = Check_Time n) \<or> ss_pc s = Await) \<and> (\<forall>t\<in>T. ss_phase s t \<noteq> Tracked) \<longrightarrow>
     sd_permit (ss_coord s) \<or> (\<exists>t\<in>T. ss_phase s t = Dropping)"

lemma drain_wake_step:
  "sd_step T s s' \<Longrightarrow> drain_wake_invar T s \<Longrightarrow>
   (in_flight (ss_coord s) \<noteq> 0 \<Longrightarrow> \<exists>t\<in>T. ss_phase s t = Tracked) \<Longrightarrow> drain_wake_invar T s'"
  by (induction rule: sd_step.induct) (auto simp: drain_wake_invar_def set_phase_def sd_defs, (metis track_phase.distinct)+)

lemma counted_tracked:
  assumes "(sd_step T)\<^sup>*\<^sup>* sd_init s" and "finite T" and "card T < two32"
    and "in_flight (ss_coord s) \<noteq> 0"
  shows "\<exists>t\<in>T. ss_phase s t = Tracked"
proof (rule ccontr)
  assume "\<not> ?thesis"
  then have "{t \<in> T. ss_phase s t = Tracked} = {}" by blast
  with in_flight_counts [OF assms(1-3)] assms(4) show False by simp
qed

text \<open>
  C33: The drain does not oversleep. While \<open>wait_for_drain\<close> sleeps with no permit stored and no dropped
  guard still about to notify, at least one tracked request is really in flight.
\<close>

theorem drain_not_lost:
  assumes "(sd_step T)\<^sup>*\<^sup>* sd_init s" and "ss_pc s = Await" and "\<not> sd_permit (ss_coord s)"
    and "\<forall>t\<in>T. ss_phase s t \<noteq> Dropping" and "finite T" and "card T < two32"
  shows "\<exists>t. t \<in> T \<and> ss_phase s t = Tracked"
proof -
  have "drain_wake_invar T sd_init"
    by (simp add: drain_wake_invar_def sd_init_def)
  with assms(1) have "drain_wake_invar T s"
    by (induction rule: rtranclp_induct)
      (auto intro: drain_wake_step counted_tracked [OF _ assms(5,6)])
  with assms(2-4) show ?thesis
    by (auto simp: drain_wake_invar_def)
qed

subsection \<open>The check-then-count window\<close>

definition race_init :: "bool shutdown_sys" where
  "race_init = sd_init"

text \<open>
  \<open>track\<close> reads the state before it counts the request. A request that has read \<open>Running\<close> and is then
  overtaken by the whole of \<open>initiate\<close> is tracked after the shutdown has reported \<open>Complete\<close>.
\<close>

lemma tracked_after_complete:
  "\<exists>s. (sd_step {True})\<^sup>*\<^sup>* race_init s \<and> ss_pc s = Finished Complete \<and> ss_phase s True = Tracked"
proof -
  define s1 where "s1 = set_phase True Checked race_init"
  define s2 where "s2 = s1\<lparr>ss_coord := (ss_coord s1)\<lparr>sd_state := Draining\<rparr>, ss_pc := Read_Count\<rparr>"
  define s3 where "s3 = s2\<lparr>ss_pc := Report Complete\<rparr>"
  define s4 where "s4 = s3\<lparr>ss_coord := (ss_coord s3)\<lparr>sd_state := ShutStopped\<rparr>, ss_pc := Finished Complete\<rparr>"
  define s5 where "s5 = set_phase True Tracked (s4\<lparr>ss_coord := guard_added (ss_coord s4)\<rparr>)"
  note defs = s1_def s2_def s3_def s4_def s5_def set_phase_def race_init_def sd_init_def sd_new_def
  have "sd_step {True} race_init s1"
    unfolding s1_def by (rule check_accepting) (simp_all add: defs is_accepting_def)
  moreover have "sd_step {True} s1 s2"
    unfolding s2_def by (rule start_drain) (simp add: defs)
  moreover have "sd_step {True} s2 s3"
    unfolding s3_def by (rule drained) (simp_all add: defs)
  moreover have "sd_step {True} s3 s4"
    unfolding s4_def by (rule stop) (simp add: defs)
  moreover have "sd_step {True} s4 s5"
    unfolding s5_def by (rule count_up) (simp_all add: defs)
  ultimately have "(sd_step {True})\<^sup>*\<^sup>* race_init s5"
    by (meson converse_rtranclp_into_rtranclp r_into_rtranclp)
  moreover have "ss_pc s5 = Finished Complete" "ss_phase s5 True = Tracked"
    by (simp_all add: defs)
  ultimately show ?thesis by blast
qed

subsection \<open>A run with one request\<close>

definition run_tracked :: "bool shutdown_sys" where
  "run_tracked = set_phase True Tracked (sd_init\<lparr>ss_coord := guard_added sd_new\<rparr>)"

definition run_await :: "bool shutdown_sys" where
  "run_await = run_tracked\<lparr>ss_coord := (guard_added sd_new)\<lparr>sd_state := Draining\<rparr>, ss_pc := Await\<rparr>"

lemmas run_defs = run_tracked_def run_await_def set_phase_def sd_init_def sd_defs inc32_def dec32_def two32_def

lemma run_await_reach: "(sd_step {True})\<^sup>*\<^sup>* sd_init run_await"
proof -
  define s1 :: "bool shutdown_sys" where "s1 = set_phase True Checked sd_init"
  define s3 where "s3 = run_tracked\<lparr>ss_coord := (ss_coord run_tracked)\<lparr>sd_state := Draining\<rparr>, ss_pc := Read_Count\<rparr>"
  define s4 where "s4 = s3\<lparr>ss_pc := Check_Time 1\<rparr>"
  have "sd_step {True} sd_init s1"
    unfolding s1_def by (rule check_accepting) (simp_all add: run_defs)
  moreover have "sd_step {True} s1 run_tracked"
    using count_up [of True "{True}" s1] by (simp add: run_defs s1_def)
  moreover have "sd_step {True} run_tracked s3"
    unfolding s3_def by (rule start_drain) (simp add: run_defs)
  moreover have "sd_step {True} s3 s4"
    using not_drained [of s3 0 "{True}"] by (simp add: run_defs s3_def s4_def)
  moreover have "sd_step {True} s4 run_await"
    using await [of s4 1 "{True}"] by (simp add: run_defs s3_def s4_def)
  ultimately show ?thesis
    by (meson converse_rtranclp_into_rtranclp r_into_rtranclp)
qed

theorem drain_not_lost_witness: "\<exists>t. t \<in> {True} \<and> ss_phase run_await t = Tracked"
  by (rule drain_not_lost [OF run_await_reach]) (simp_all add: run_defs)

lemma run_drained_reach:
  "(sd_step {True})\<^sup>*\<^sup>* sd_init (set_phase True Dropping (run_await\<lparr>ss_coord := guard_removed (ss_coord run_await)\<rparr>))"
  by (rule rtranclp.rtrancl_into_rtrancl [OF run_await_reach count_down]) (simp_all add: run_defs)

theorem complete_means_no_guard_held_witness:
  "let s = set_phase True Dropping (run_await\<lparr>ss_coord := guard_removed (ss_coord run_await)\<rparr>);
       s' = s\<lparr>ss_pc := Report Complete\<rparr>
   in \<forall>t. t \<in> {True} \<longrightarrow> ss_phase s' t \<noteq> Tracked"
  unfolding Let_def
  by (rule complete_means_no_guard_held [OF run_drained_reach slept_drained]) (simp_all add: run_defs)

theorem drained_is_final_witness:
  "let s = (sd_init :: bool shutdown_sys)\<lparr>ss_coord := sd_new\<lparr>sd_state := Draining\<rparr>, ss_pc := Read_Count\<rparr>
   in \<forall>t. t \<in> {True} \<longrightarrow> ss_phase (s\<lparr>ss_pc := Report Complete\<rparr>) t \<noteq> Tracked"
  unfolding Let_def
  by (rule drained_is_final [OF r_into_rtranclp [where r = "sd_step {True}", OF drained]])
    (simp_all add: run_defs)

section \<open>Health\<close>

datatype health_state = Healthy | Degraded | Unhealthy

record health_report =
  hr_state :: health_state
  hr_ready :: bool
  hr_accepting_requests :: bool
  hr_models_loaded :: usize
  hr_memory_used_bytes :: usize
  hr_queue_depth :: usize
  hr_uptime_secs :: u64

record health_config =
  require_model_loaded :: bool
  max_queue_depth :: usize

definition health_config_default :: health_config where
  "health_config_default = \<lparr>require_model_loaded = False, max_queue_depth = 1000\<rparr>"

record health_checker =
  hc_config :: health_config
  hc_start_time :: instant

definition hc_new :: "instant \<Rightarrow> health_config \<Rightarrow> health_checker" where
  "hc_new now cfg = \<lparr>hc_config = cfg, hc_start_time = now\<rparr>"

definition is_alive :: "health_checker \<Rightarrow> bool" where
  "is_alive h = True"

definition is_ready :: "health_checker \<Rightarrow> shutdown_state \<Rightarrow> usize \<Rightarrow> usize \<Rightarrow> bool" where
  "is_ready h st models queue =
     (if st \<noteq> Running then False
      else if require_model_loaded (hc_config h) \<and> models = 0 then False
      else if max_queue_depth (hc_config h) \<le> queue then False
      else True)"

definition compute_state :: "health_checker \<Rightarrow> shutdown_state \<Rightarrow> usize \<Rightarrow> usize \<Rightarrow> health_state" where
  "compute_state h st models queue =
     (if st \<noteq> Running then Unhealthy
      else if require_model_loaded (hc_config h) \<and> models = 0 then Degraded
      else if max_queue_depth (hc_config h) \<le> queue then Degraded
      else Healthy)"

definition health_report_of ::
  "instant \<Rightarrow> health_checker \<Rightarrow> shutdown_state \<Rightarrow> usize \<Rightarrow> usize \<Rightarrow> usize \<Rightarrow> health_report"
where
  "health_report_of now h st models memory queue =
     \<lparr>hr_state = compute_state h st models queue, hr_ready = is_ready h st models queue,
      hr_accepting_requests = (st = Running), hr_models_loaded = models,
      hr_memory_used_bytes = memory, hr_queue_depth = queue,
      hr_uptime_secs = (now - hc_start_time h) div 1000000000\<rparr>"

text \<open>
  Health reports are consistent: a report says ready exactly when its state is \<open>Healthy\<close>, says
  unhealthy exactly when the shutdown has begun, and accepts requests exactly when it is not unhealthy.
\<close>

theorem health_report_consistent:
  "let r = health_report_of now h st models memory queue
   in (hr_ready r \<longleftrightarrow> hr_state r = Healthy) \<and> (hr_state r = Unhealthy \<longleftrightarrow> st \<noteq> Running) \<and>
      (hr_accepting_requests r \<longleftrightarrow> hr_state r \<noteq> Unhealthy)"
  by (simp add: health_report_of_def compute_state_def is_ready_def Let_def)

end
