(* ===== verification/Daemon_Boot.thy ===== *)
theory Daemon_Boot
  imports Env_Config Shutdown_Health
begin

text \<open>
  Start-up of the daemon (\<open>run_serve\<close> of \<open>main.rs\<close>, \<open>runtime_init.rs\<close>, \<open>auth_boot.rs\<close>,
  \<open>sandbox_boot.rs\<close>): the arguments, the sandbox mode, the credential policy, the construction of the
  session authentication, and the models loaded before the server accepts connections.

  The platform, the outcome of the cryptographic self-tests and the outcome of installing a sandbox are
  arguments. Every way to refuse the start is a value of \<open>serve_abort\<close>.
\<close>

section \<open>Arguments\<close>

text \<open>The loop over the arguments after the command: the paths and the ids in their order.\<close>

fun serve_args :: "string list \<Rightarrow> string list \<Rightarrow> string list \<Rightarrow> string + string list \<times> string list" where
  "serve_args paths ids [] = Inr (paths, ids)"
| "serve_args paths ids (a # rest) =
     (if a = ''--model'' then
        (case rest of [] \<Rightarrow> Inl ''Missing value for --model'' | v # rest' \<Rightarrow> serve_args (paths @ [v]) ids rest')
      else if a = ''--model-id'' then
        (case rest of [] \<Rightarrow> Inl ''Missing value for --model-id'' | v # rest' \<Rightarrow> serve_args paths (ids @ [v]) rest')
      else Inl (''Unknown serve argument: '' @ a))"

definition resize_none :: "usize \<Rightarrow> 'a option list \<Rightarrow> 'a option list" where
  "resize_none n xs = take n xs @ replicate (n - length xs) None"

definition env_paths :: "string \<Rightarrow> string list" where
  "env_paths v = filter (\<lambda>s. s \<noteq> []) (map str_trim (split_on (CHR '','') v))"

definition parse_serve_models :: "environment \<Rightarrow> string list \<Rightarrow> string + (string \<times> string option) list" where
  "parse_serve_models env args =
     (case serve_args [] [] (drop 2 args) of
        Inl e \<Rightarrow> Inl e
      | Inr (paths, ids) \<Rightarrow>
          if length paths < length ids then Inl ''More --model-id values than --model paths''
          else
            let paths' = (if paths = [] then
                            (case env ''GG_CORE_PRELOAD_MODELS'' of Some v \<Rightarrow> env_paths v | None \<Rightarrow> paths)
                          else paths)
            in Inr (zip paths' (resize_none (length paths') (map Some ids))))"

section \<open>Sandbox mode and credential policy\<close>

datatype platform = Windows | Linux_x86_64 | Other_Platform

datatype sandbox_mode = Enforce | Seccomp | SandboxOff

primrec platform_default :: "platform \<Rightarrow> sandbox_mode" where
  "platform_default Windows = Enforce"
| "platform_default Linux_x86_64 = Seccomp"
| "platform_default Other_Platform = SandboxOff"

definition sandbox_mode_from_env :: "platform \<Rightarrow> environment \<Rightarrow> string + sandbox_mode" where
  "sandbox_mode_from_env pf env =
     (case env ''GG_CORE_SANDBOX'' of
        None \<Rightarrow> Inr (platform_default pf)
      | Some v \<Rightarrow>
          let w = to_ascii_lowercase (str_trim v) in
          if w = ''enforce'' then Inr Enforce
          else if w = ''seccomp'' then Inr Seccomp
          else if w = ''off'' then Inr SandboxOff
          else Inl (''invalid GG_CORE_SANDBOX value '' @ [CHR 0x27] @ w @ [CHR 0x27] @ '' (expected enforce|seccomp|off)''))"

record sandbox_config =
  sb_max_memory_bytes :: usize
  sb_max_cpu_time_ms :: u64
  sb_enabled :: bool
  sb_gpu_enabled :: bool
  sb_cgroup_enabled :: bool

definition sandbox_config_default :: sandbox_config where
  "sandbox_config_default = \<lparr>sb_max_memory_bytes = 2 * 1024 * 1024 * 1024, sb_max_cpu_time_ms = 30000,
     sb_enabled = True, sb_gpu_enabled = False, sb_cgroup_enabled = True\<rparr>"

definition daemon_sandbox_config :: "sandbox_mode \<Rightarrow> env_config \<Rightarrow> sandbox_config" where
  "daemon_sandbox_config mode cfg =
     sandbox_config_default\<lparr>sb_max_memory_bytes := max_total_memory (ec_resource_limits cfg), sb_max_cpu_time_ms := 0,
       sb_cgroup_enabled := (mode = Enforce), sb_gpu_enabled := False\<rparr>"

text \<open>\<open>install\<close> is the outcome of the system calls: success, and an error text.\<close>

definition apply_daemon_sandbox ::
  "platform \<Rightarrow> (sandbox_config \<Rightarrow> bool \<times> string option) \<Rightarrow> sandbox_mode \<Rightarrow> env_config \<Rightarrow> string + string" where
  "apply_daemon_sandbox pf install mode cfg =
     (if mode = SandboxOff
      then Inr (''Sandbox: OFF ('' @ (if platform_default pf = SandboxOff then ''no implementation for this platform; '' else []) @
                ''persistent process isolation is NOT applied)'')
      else
        let (success, err) = install (daemon_sandbox_config mode cfg) in
        if success then
          Inr (if mode = Enforce \<and> pf = Windows
               then ''Sandbox: ENFORCE (Windows Job Object: memory cap, single process; no syscall or network filter)''
               else if mode = Enforce then ''Sandbox: ENFORCE (cgroup resource limits + seccomp syscall allowlist)''
               else ''Sandbox: SECCOMP (syscall allowlist)'')
        else
          Inl (''sandbox activation failed: '' @ (case err of None \<Rightarrow> ''unknown error'' | Some e \<Rightarrow> e) @
               ''. Set GG_CORE_SANDBOX=off to run without process isolation (not recommended), or fix the underlying cause.''))"

datatype auth_policy = TokenPolicy | InsecureNoAuth

definition RECOMMENDED_TOKEN_BYTES :: usize where "RECOMMENDED_TOKEN_BYTES = 16"

definition no_auth_opt_in :: "environment \<Rightarrow> bool" where
  "no_auth_opt_in env = (case env ''GG_CORE_ALLOW_INSECURE_NO_AUTH'' of Some v \<Rightarrow> str_trim v = ''1'' | None \<Rightarrow> False)"

definition auth_policy_of :: "environment \<Rightarrow> string \<Rightarrow> string + auth_policy" where
  "auth_policy_of env token =
     (if token \<noteq> [] then Inr TokenPolicy
      else if no_auth_opt_in env then Inr InsecureNoAuth
      else Inl (''CORE_AUTH_TOKEN is empty. The daemon refuses to serve without a shared token because an empty token authenticates every local client. Set CORE_AUTH_TOKEN to a secret of at least '' @
                show_nat RECOMMENDED_TOKEN_BYTES @ '' bytes, or set GG_CORE_ALLOW_INSECURE_NO_AUTH=1 for a development-only, local-trust deployment (never in production).''))"

section \<open>Preloading\<close>

primrec show_load_error :: "(io_error \<Rightarrow> string) \<Rightarrow> (path \<Rightarrow> string) \<Rightarrow> load_error \<Rightarrow> string" where
  "show_load_error io disp (PathNotAllowed p) = ''Model path not allowed: '' @ disp p"
| "show_load_error io disp (LoadNotFound p) = ''Model file not found: '' @ disp p"
| "show_load_error io disp (InvalidFormat m) = ''Invalid model format: '' @ m"
| "show_load_error io disp (LoadIo e) = ''IO error: '' @ io e"

primrec show_model_op_error :: "(io_error \<Rightarrow> string) \<Rightarrow> (path \<Rightarrow> string) \<Rightarrow> model_op_error \<Rightarrow> string" where
  "show_model_op_error io disp (OpPath e) = ''path rejected: '' @ show_load_error io disp e"
| "show_model_op_error io disp (OpBackend m) = ''backend load failed: '' @ m"
| "show_model_op_error io disp (OpLifecycle e) = ''lifecycle: '' @ show_lifecycle_error e"

text \<open>
  The loop of \<open>preload_models\<close>; \<open>ws\<close> and \<open>ts\<close> give, for each load, the file system over its steps and the
  time. The result lists what was loaded.
\<close>

fun preload_models ::
  "load_env \<Rightarrow> (nat \<Rightarrow> nat \<Rightarrow> fs) \<Rightarrow> (nat \<Rightarrow> instant) \<Rightarrow> string \<Rightarrow> (string \<times> string option) list \<Rightarrow> model_lifecycle
   \<Rightarrow> (string + (string \<times> u64) list) \<times> model_lifecycle" where
  "preload_models env ws ts base [] lc = (Inr [], lc)"
| "preload_models env ws ts base ((p, mid) # ms) lc =
     (case load_model_from_path env (ws 0) (ts 0) base p mid lc of
        (Inl e, lc') \<Rightarrow>
          (Inl (''preload of '' @ [CHR 0x27] @ p @ [CHR 0x27] @ '' failed: '' @ show_model_op_error (le_show_io env) (le_disp env) e), lc')
      | (Inr loaded, lc') \<Rightarrow>
          (case preload_models env (\<lambda>i. ws (Suc i)) (\<lambda>i. ts (Suc i)) base ms lc' of
             (Inl e, lc'') \<Rightarrow> (Inl e, lc'')
           | (Inr others, lc'') \<Rightarrow> (Inr (loaded # others), lc'')))"

section \<open>The whole start\<close>

definition daemon_health_config :: health_config where
  "daemon_health_config = health_config_default\<lparr>require_model_loaded := True\<rparr>"

text \<open>The session authentication of \<open>init_ipc\<close>.\<close>

definition init_session_auth :: "(string \<Rightarrow> byte list) \<Rightarrow> env_config \<Rightarrow> session_auth" where
  "init_session_auth sha cfg = auth_new sha (ec_auth_token cfg) (ec_session_timeout cfg)"

definition init_scheduler :: "env_config \<Rightarrow> request_queue \<times> limits" where
  "init_scheduler cfg = (queue_new (ec_request_queue cfg), limits_new (ec_resource_limits cfg))"

datatype serve_abort =
    BadArguments string
  | BadSandboxMode string
  | SelfTestFailed string
  | NoCredential string
  | PreloadFailed string
  | SandboxFailed string

record daemon =
  dm_config :: env_config
  dm_policy :: auth_policy
  dm_auth :: session_auth
  dm_health :: health_config
  dm_queue :: request_queue
  dm_limits :: limits
  dm_preloaded :: "(string \<times> u64) list"
  dm_lifecycle :: model_lifecycle

text \<open>\<open>run_serve\<close> up to the point where the server starts.\<close>

definition run_serve ::
  "platform \<Rightarrow> string + unit \<Rightarrow> (sandbox_config \<Rightarrow> bool \<times> string option) \<Rightarrow> (string \<Rightarrow> byte list) \<Rightarrow> load_env
   \<Rightarrow> (nat \<Rightarrow> nat \<Rightarrow> fs) \<Rightarrow> (nat \<Rightarrow> instant) \<Rightarrow> environment \<Rightarrow> string list \<Rightarrow> serve_abort + daemon" where
  "run_serve pf self_tests install sha lenv ws ts env args =
     (case parse_serve_models env args of
        Inl e \<Rightarrow> Inl (BadArguments e)
      | Inr models \<Rightarrow>
     (case sandbox_mode_from_env pf env of
        Inl e \<Rightarrow> Inl (BadSandboxMode e)
      | Inr mode \<Rightarrow>
     (case self_tests of
        Inl e \<Rightarrow> Inl (SelfTestFailed e)
      | Inr _ \<Rightarrow>
     (let cfg = load env in
      case auth_policy_of env (ec_auth_token cfg) of
        Inl e \<Rightarrow> Inl (NoCredential e)
      | Inr policy \<Rightarrow>
     (let lc = lifecycle_new registry_new (engine_new (ec_max_context_length cfg)) in
      case preload_models (lenv\<lparr>le_gguf := load_gguf_config env\<rparr>) ws ts (ec_base_path cfg) models lc of
        (Inl e, _) \<Rightarrow> Inl (PreloadFailed e)
      | (Inr loaded, lc') \<Rightarrow>
     (case apply_daemon_sandbox pf install mode cfg of
        Inl e \<Rightarrow> Inl (SandboxFailed e)
      | Inr _ \<Rightarrow>
          let (q, l) = init_scheduler cfg
          in Inr \<lparr>dm_config = cfg, dm_policy = policy, dm_auth = init_session_auth sha cfg, dm_health = daemon_health_config,
              dm_queue = q, dm_limits = l, dm_preloaded = loaded, dm_lifecycle = lc'\<rparr>))))))"

section \<open>A running daemon is secured and serves its models\<close>

lemma run_serve_Inr:
  assumes "run_serve pf st install sha lenv ws ts env args = Inr d"
  obtains models mode policy loaded lc' where
    "parse_serve_models env args = Inr models" "sandbox_mode_from_env pf env = Inr mode"
    "auth_policy_of env (ec_auth_token (load env)) = Inr policy"
    "preload_models (lenv\<lparr>le_gguf := load_gguf_config env\<rparr>) ws ts (ec_base_path (load env)) models
       (lifecycle_new registry_new (engine_new (ec_max_context_length (load env)))) = (Inr loaded, lc')"
    "\<not> isl (apply_daemon_sandbox pf install mode (load env))"
    "dm_config d = load env" "dm_policy d = policy" "dm_auth d = init_session_auth sha (load env)"
    "dm_preloaded d = loaded" "dm_lifecycle d = lc'"
  using assms
  by (auto simp: run_serve_def init_scheduler_def Let_def split: sum.splits prod.splits)

lemma auth_run_hash: "expected_token_hash (auth_run sha es a) = expected_token_hash a"
  by (induction es arbitrary: a) (simp_all add: auth_exec_fixed)

lemma empty_token_refused:
  assumes "ec_auth_token cfg \<noteq> []" "\<And>t. sha t = sha [] \<Longrightarrow> t = []"
  shows "isl (fst (authenticate sha now r [] (auth_run sha es (init_session_auth sha cfg))))"
proof -
  have "sha [] \<noteq> sha (ec_auth_token cfg)" using assms by metis
  then show ?thesis
    by (simp add: authenticate_def auth_run_hash init_session_auth_def auth_new_def constant_time_compare_eq Let_def)
qed


lemma load_from_path_ok:
  "load_model_from_path env w now base rel mid lc = (Inr (m, h), lc') \<Longrightarrow>
     (mid = None \<or> mid = Some m) \<and> get_handle lc m = None \<and> get_handle lc' m = Some h \<and> has_model (ml_engine lc') m \<and>
     (\<forall>m'. m' \<noteq> m \<longrightarrow> get_handle lc' m' = get_handle lc m' \<and> has_model (ml_engine lc') m' = has_model (ml_engine lc) m')"
  by (auto simp: load_model_from_path_def prepare_model_def register_prepared_def lifecycle_load_def register_def
      register_with_format_def register_model_def index_insert_def get_handle_def index_get_handle_def contains_id_def has_model_def Let_def
      split: sum.splits prod.splits if_splits option.splits)

definition serves :: "model_lifecycle \<Rightarrow> string \<times> u64 \<Rightarrow> bool" where
  "serves lc = (\<lambda>(m, h). get_handle lc m = Some h \<and> has_model (ml_engine lc) m)"

lemma preload_keeps:
  "preload_models env ws ts base ms lc = (Inr loaded, lc') \<Longrightarrow> serves lc x \<Longrightarrow> serves lc' x"
proof (induction env ws ts base ms lc arbitrary: loaded rule: preload_models.induct)
  case (2 env ws ts base p mid ms lc)
  obtain m h lc1 others where l: "load_model_from_path env (ws 0) (ts 0) base p mid lc = (Inr (m, h), lc1)"
    and r: "preload_models env (\<lambda>i. ws (Suc i)) (\<lambda>i. ts (Suc i)) base ms lc1 = (Inr others, lc')"
    using "2.prems" by (auto split: prod.splits sum.splits)
  have "fst x \<noteq> m" using load_from_path_ok [OF l] "2.prems"(2) by (auto simp: serves_def)
  then have "serves lc1 x" using load_from_path_ok [OF l] "2.prems"(2) by (cases x) (auto simp: serves_def)
  then show ?case using "2.IH" l r by (metis surj_pair)
qed simp

lemma preload_serves:
  "preload_models env ws ts base ms lc = (Inr loaded, lc') \<Longrightarrow>
     list_all2 (\<lambda>(p, mid) (m, h). mid = None \<or> mid = Some m) ms loaded \<and> list_all (serves lc') loaded"
proof (induction env ws ts base ms lc arbitrary: loaded rule: preload_models.induct)
  case (2 env ws ts base p mid ms lc)
  obtain m h lc1 others where l: "load_model_from_path env (ws 0) (ts 0) base p mid lc = (Inr (m, h), lc1)"
    and r: "preload_models env (\<lambda>i. ws (Suc i)) (\<lambda>i. ts (Suc i)) base ms lc1 = (Inr others, lc')" and e: "loaded = (m, h) # others"
    using "2.prems" by (auto split: prod.splits sum.splits)
  have "serves lc1 (m, h)" using load_from_path_ok [OF l] by (auto simp: serves_def)
  then show ?case using "2.IH" l r e preload_keeps [OF r] load_from_path_ok [OF l] by auto
qed simp

text \<open>
  A daemon that starts serves every model it was asked to preload: one entry for each requested path,
  in order, under the requested id where one was given, each with its handle in the index and its model in
  the engine; the start aborts at the first model that cannot be loaded.
\<close>

theorem started_daemon_serves_models:
  assumes "run_serve pf st install sha lenv ws ts env args = Inr d"
  shows "\<exists>models. parse_serve_models env args = Inr models \<and>
           list_all2 (\<lambda>(p, mid) (m, h). mid = None \<or> mid = Some m) models (dm_preloaded d) \<and>
           list_all (serves (dm_lifecycle d)) (dm_preloaded d)"
  using assms by (rule run_serve_Inr) (auto dest: preload_serves)

text \<open>A start with a token, the default sandbox of the platform, and one model with its manifest.\<close>

definition sample_environment :: environment where
  "sample_environment key = (if key = ''CORE_AUTH_TOKEN'' then Some ''secret'' else None)"

definition sample_serve :: "serve_abort + daemon" where
  "sample_serve = run_serve Linux_x86_64 (Inr ()) (\<lambda>c. (sb_enabled c, None)) (map of_char) sample_env (\<lambda>_ _. sample_fs ''x'') (\<lambda>_. 0)
     sample_environment [''GG-CORE'', ''serve'', ''--model'', ''models/m.gguf'', ''--model-id'', ''chat'']"

lemma sample_boot_preload:
  "\<exists>lc. preload_models (sample_env\<lparr>le_gguf := g\<rparr>) (\<lambda>_ _. sample_fs ''x'') (\<lambda>_. 0) ''.'' [(''models/m.gguf'', Some ''chat'')]
     (lifecycle_new registry_new E) = (Inr [(''chat'', 1)], lc)"
proof -
  have v: "validate_path (sample_fs ''x'') ''.'' ''models/m.gguf'' = Inr [Normal ''models'', Normal ''m.gguf'']" by code_simp
  obtain md where md: "load_metadata (sample_fs ''x'') [Normal ''models'', Normal ''m.gguf''] = Inr md"
    by (simp add: load_metadata_def load_defs)
  obtain model where "load_model_dispatch (sample_env\<lparr>le_gguf := g\<rparr>) (\<lambda>_. sample_fs ''x'') [Normal ''models'', Normal ''m.gguf''] ''chat'' = Inr model"
    using sample_digests by (simp add: load_defs)
  with v md show ?thesis
    by (simp add: load_model_from_path_def prepare_model_def register_prepared_def lifecycle_load_def lifecycle_new_def
        index_new_def contains_id_def registry_new_def register_def register_with_format_def Let_def)
qed

lemma sample_serve_starts: "\<exists>d. sample_serve = Inr d \<and> dm_preloaded d = [(''chat'', 1)]"
proof -
  have a: "parse_serve_models sample_environment [''GG-CORE'', ''serve'', ''--model'', ''models/m.gguf'', ''--model-id'', ''chat'']
      = Inr [(''models/m.gguf'', Some ''chat'')]"
    by (simp add: parse_serve_models_def resize_none_def)
  have p: "auth_policy_of sample_environment (ec_auth_token (load sample_environment)) = Inr TokenPolicy"
    by (simp add: auth_policy_of_def load_def sample_environment_def)
  show ?thesis
    using a p sample_boot_preload [of "load_gguf_config sample_environment" "engine_new (ec_max_context_length (load sample_environment))"]
    by (auto simp: sample_serve_def run_serve_def sandbox_mode_from_env_def sample_environment_def apply_daemon_sandbox_def
        daemon_sandbox_config_def sandbox_config_default_def init_scheduler_def load_def Let_def)
qed


theorem started_daemon_serves_models_witness:
  "\<exists>d. sample_serve = Inr d \<and> list_all (serves (dm_lifecycle d)) [(''chat'', 1)]"
proof -
  obtain d where d: "sample_serve = Inr d" "dm_preloaded d = [(''chat'', 1)]" using sample_serve_starts by blast
  then show ?thesis using started_daemon_serves_models [OF d(1) [unfolded sample_serve_def]] by auto
qed

end
