(* ===== verification/Wire_Codec.thy ===== *)
theory Wire_Codec
  imports Engine_Types Telemetry Shutdown_Health
begin

text \<open>
  The wire format of the IPC protocol: message types (\<open>ipc/protocol_types.rs\<close>,
  \<open>ipc/protocol_model_types.rs\<close>), the size-limited message codec (\<open>ipc/protocol_codec.rs\<close>), the
  two token encoders (\<open>ipc/encoding.rs\<close>) and the length-prefixed frames of a connection
  (\<open>ipc/server.rs\<close>, \<open>read_frame\<close> and \<open>write_frame\<close>).

  A byte string on the wire is a \<^typ>\<open>string\<close>: a character is exactly one byte. JSON is
  produced and parsed by \<open>serde_json\<close>, which is outside the sources: the two directions are a record
  of functions that every operation using them takes as an argument.
\<close>

section \<open>Messages\<close>

record model_info =
  mi_handle_id :: u64
  mi_name :: string
  mi_format :: string
  mi_size_bytes :: u64
  mi_memory_bytes :: u64
  mi_state :: string
  mi_request_count :: u64
  mi_avg_latency_ms :: f64
  mi_loaded_at :: string

record models_list_response =
  ml_models :: "model_info list"
  ml_total_memory_bytes :: u64

datatype protocol_version = V1 | V2

definition CURRENT_PROTOCOL_VERSION :: protocol_version where
  "CURRENT_PROTOCOL_VERSION = V1"

fun is_supported :: "protocol_version \<Rightarrow> bool" where
  "is_supported V1 = True"
| "is_supported V2 = True"

definition negotiate :: "protocol_version option \<Rightarrow> protocol_version" where
  "negotiate client =
     (let requested = (case client of None \<Rightarrow> V1 | Some v \<Rightarrow> v)
      in if is_supported requested then requested else CURRENT_PROTOCOL_VERSION)"

datatype protocol_error =
    InvalidFormat string
  | MissingField string
  | Serialization string
  | MessageTooLarge usize usize

primrec show_protocol_error :: "protocol_error \<Rightarrow> string" where
  "show_protocol_error (InvalidFormat m) = ''Invalid message format: '' @ m"
| "show_protocol_error (MissingField m) = ''Missing required field: '' @ m"
| "show_protocol_error (Serialization m) = ''Serialization error: '' @ m"
| "show_protocol_error (MessageTooLarge n mx) =
     ''Message too large: '' @ show_nat n @ '' bytes (max '' @ show_nat mx @ '')''"

type_synonym request_id = u64

record inference_request =
  ir_request_id :: request_id
  ir_model_id :: string
  ir_prompt :: string
  ir_parameters :: inference_params

definition request_validate :: "inference_request \<Rightarrow> protocol_error + unit" where
  "request_validate r =
     (if ir_model_id r = [] then Inl (MissingField ''model_id'')
      else if ir_prompt r = [] then Inl (MissingField ''prompt'')
      else Inr ())"

datatype inference_error_code =
  CodeAdmissionRejected | CodeExecutionFailed | CodeModelNotLoaded | CodeInputInvalid | CodeShuttingDown |
  CodeCancelled | CodeDeadlineExceeded

record inference_response =
  resp_request_id :: request_id
  resp_output :: string
  resp_tokens_generated :: usize
  resp_finished :: bool
  resp_error :: "string option"
  resp_error_code :: "inference_error_code option"

definition response_success :: "request_id \<Rightarrow> string \<Rightarrow> usize \<Rightarrow> bool \<Rightarrow> inference_response" where
  "response_success i out n fin = \<lparr>resp_request_id = i, resp_output = out, resp_tokens_generated = n,
     resp_finished = fin, resp_error = None, resp_error_code = None\<rparr>"

definition response_error_coded :: "request_id \<Rightarrow> string \<Rightarrow> inference_error_code \<Rightarrow> inference_response" where
  "response_error_coded i e c = \<lparr>resp_request_id = i, resp_output = [], resp_tokens_generated = 0,
     resp_finished = True, resp_error = Some e, resp_error_code = Some c\<rparr>"

definition response_error :: "request_id \<Rightarrow> string \<Rightarrow> inference_response" where
  "response_error i e = response_error_coded i e CodeExecutionFailed"

record stream_chunk =
  sc_request_id :: request_id
  sc_token :: nat
  sc_text :: "string option"
  sc_is_final :: bool
  sc_error :: "string option"

definition chunk_token :: "request_id \<Rightarrow> nat \<Rightarrow> stream_chunk" where
  "chunk_token i t = \<lparr>sc_request_id = i, sc_token = t, sc_text = None, sc_is_final = False, sc_error = None\<rparr>"

definition chunk_token_with_text :: "request_id \<Rightarrow> nat \<Rightarrow> string \<Rightarrow> stream_chunk" where
  "chunk_token_with_text i t txt =
     \<lparr>sc_request_id = i, sc_token = t, sc_text = Some txt, sc_is_final = False, sc_error = None\<rparr>"

definition chunk_final_token :: "request_id \<Rightarrow> nat \<Rightarrow> stream_chunk" where
  "chunk_final_token i t = \<lparr>sc_request_id = i, sc_token = t, sc_text = None, sc_is_final = True, sc_error = None\<rparr>"

definition chunk_complete :: "request_id \<Rightarrow> stream_chunk" where
  "chunk_complete i = \<lparr>sc_request_id = i, sc_token = 0, sc_text = None, sc_is_final = True, sc_error = None\<rparr>"

definition chunk_final_token_with_text :: "request_id \<Rightarrow> nat \<Rightarrow> string \<Rightarrow> stream_chunk" where
  "chunk_final_token_with_text i t txt =
     \<lparr>sc_request_id = i, sc_token = t, sc_text = Some txt, sc_is_final = True, sc_error = None\<rparr>"

definition chunk_error :: "request_id \<Rightarrow> string \<Rightarrow> stream_chunk" where
  "chunk_error i e = \<lparr>sc_request_id = i, sc_token = 0, sc_text = None, sc_is_final = True, sc_error = Some e\<rparr>"

record warmup_request =
  wq_model_id :: string
  wq_tokens :: usize

record warmup_response =
  wr_model_id :: string
  wr_success :: bool
  wr_error :: "string option"
  wr_elapsed_ms :: u64

definition warmup_success :: "string \<Rightarrow> u64 \<Rightarrow> warmup_response" where
  "warmup_success mid ms = \<lparr>wr_model_id = mid, wr_success = True, wr_error = None, wr_elapsed_ms = ms\<rparr>"

definition warmup_error :: "string \<Rightarrow> string \<Rightarrow> u64 \<Rightarrow> warmup_response" where
  "warmup_error mid e ms = \<lparr>wr_model_id = mid, wr_success = False, wr_error = Some e, wr_elapsed_ms = ms\<rparr>"

datatype health_check_type = Liveness | Readiness | FullCheck

record health_check_response =
  hr_check_type :: health_check_type
  hr_ok :: bool
  hr_report :: "health_report option"

record model_load_request =
  lq_path :: string
  lq_model_id :: "string option"

record model_load_response =
  lr_success :: bool
  lr_model_id :: "string option"
  lr_handle_id :: "u64 option"
  lr_error :: "string option"

definition load_success :: "string \<Rightarrow> u64 \<Rightarrow> model_load_response" where
  "load_success mid h = \<lparr>lr_success = True, lr_model_id = Some mid, lr_handle_id = Some h, lr_error = None\<rparr>"

definition load_error :: "string \<Rightarrow> model_load_response" where
  "load_error e = \<lparr>lr_success = False, lr_model_id = None, lr_handle_id = None, lr_error = Some e\<rparr>"

record model_unload_response =
  ur_success :: bool
  ur_model_id :: string
  ur_error :: "string option"

definition unload_success :: "string \<Rightarrow> model_unload_response" where
  "unload_success mid = \<lparr>ur_success = True, ur_model_id = mid, ur_error = None\<rparr>"

definition unload_error :: "string \<Rightarrow> string \<Rightarrow> model_unload_response" where
  "unload_error mid e = \<lparr>ur_success = False, ur_model_id = mid, ur_error = Some e\<rparr>"

datatype ipc_message =
    Handshake string "protocol_version option"
  | HandshakeAck string protocol_version
  | InferenceRequest inference_request
  | InferenceResponse inference_response
  | StreamChunk stream_chunk
  | HealthCheck health_check_type
  | HealthResponse health_check_response
  | MetricsRequest
  | MetricsResponse metrics_snapshot
  | PrometheusMetricsRequest
  | PrometheusMetricsResponse string
  | SpansRequest usize
  | SpansResponse "exportable_span list"
  | CancelRequest request_id
  | CancelResponse request_id bool
  | WarmupRequest warmup_request
  | WarmupResponse warmup_response
  | ModelsRequest
  | ModelsResponse models_list_response
  | ModelLoadRequest model_load_request
  | ModelLoadResponse model_load_response
  | ModelUnloadRequest string
  | ModelUnloadResponse model_unload_response
  | ErrorMessage nat string

section \<open>Message codec\<close>

record json =
  to_vec :: "ipc_message \<Rightarrow> string + string"
  from_slice :: "string \<Rightarrow> string + ipc_message"

definition MAX_MESSAGE_SIZE :: usize where
  "MAX_MESSAGE_SIZE = 16 * 1024 * 1024"

definition MAX_RESPONSE_SIZE :: usize where
  "MAX_RESPONSE_SIZE = 16 * 1024 * 1024"

definition encode_message :: "json \<Rightarrow> ipc_message \<Rightarrow> protocol_error + string" where
  "encode_message J m =
     (case to_vec J m of
        Inl e \<Rightarrow> Inl (Serialization e)
      | Inr bytes \<Rightarrow>
          if MAX_MESSAGE_SIZE < length bytes then Inl (MessageTooLarge (length bytes) MAX_MESSAGE_SIZE)
          else Inr bytes)"

definition response_too_large :: "usize \<Rightarrow> ipc_message" where
  "response_too_large n =
     ErrorMessage 413 (''Response too large: '' @ show_nat n @ '' bytes (max '' @ show_nat MAX_RESPONSE_SIZE @ '')'')"

definition encode_response :: "json \<Rightarrow> ipc_message \<Rightarrow> protocol_error + string" where
  "encode_response J m =
     (case to_vec J m of
        Inl e \<Rightarrow> Inl (Serialization e)
      | Inr bytes \<Rightarrow>
          if MAX_RESPONSE_SIZE < length bytes then encode_message J (response_too_large (length bytes))
          else Inr bytes)"

definition decode_message :: "json \<Rightarrow> string \<Rightarrow> protocol_error + ipc_message" where
  "decode_message J bytes =
     (if MAX_MESSAGE_SIZE < length bytes then Inl (MessageTooLarge (length bytes) MAX_MESSAGE_SIZE)
      else (case from_slice J bytes of Inl e \<Rightarrow> Inl (Serialization e) | Inr m \<Rightarrow> Inr m))"

section \<open>Packed tokens\<close>

definition u32_to_le :: "nat \<Rightarrow> string" where
  "u32_to_le x = map char_of (le_bytes 4 x)"

definition u32_from_le :: "string \<Rightarrow> nat" where
  "u32_from_le bs = of_le_bytes (map of_char bs)"

definition v2_encode :: "nat list \<Rightarrow> string" where
  "v2_encode tokens = u32_to_le (as_u32 (length tokens)) @ concat (map u32_to_le tokens)"

definition v2_decode :: "string \<Rightarrow> protocol_error + nat list" where
  "v2_decode bytes =
     (if length bytes < 4 then Inl (InvalidFormat ''V2: too short'')
      else
        let count = u32_from_le [bytes ! 0, bytes ! 1, bytes ! 2, bytes ! 3];
            expected_len = 4 + count * 4
        in if length bytes \<noteq> expected_len
           then Inl (InvalidFormat (''V2: expected '' @ show_nat expected_len @ '' bytes, got '' @ show_nat (length bytes)))
           else Inr (map (\<lambda>i. let offset = 4 + i * 4 in
                       u32_from_le [bytes ! offset, bytes ! (offset + 1), bytes ! (offset + 2), bytes ! (offset + 3)])
                     [0..<count]))"

text \<open>The V1 encoder is JSON of the token array: \<open>unwrap_or_default\<close> turns a failure into no bytes.\<close>

record token_json =
  tokens_to_vec :: "nat list \<Rightarrow> string + string"
  tokens_from_slice :: "string \<Rightarrow> string + nat list"

definition v1_encode :: "token_json \<Rightarrow> nat list \<Rightarrow> string" where
  "v1_encode J tokens = (case tokens_to_vec J tokens of Inl _ \<Rightarrow> [] | Inr bs \<Rightarrow> bs)"

definition v1_decode :: "token_json \<Rightarrow> string \<Rightarrow> protocol_error + nat list" where
  "v1_decode J bytes = (case tokens_from_slice J bytes of Inl e \<Rightarrow> Inl (InvalidFormat e) | Inr ts \<Rightarrow> Inr ts)"

fun encode_tokens :: "token_json \<Rightarrow> protocol_version \<Rightarrow> nat list \<Rightarrow> string" where
  "encode_tokens J V1 = v1_encode J"
| "encode_tokens J V2 = v2_encode"

fun decode_tokens :: "token_json \<Rightarrow> protocol_version \<Rightarrow> string \<Rightarrow> protocol_error + nat list" where
  "decode_tokens J V1 = v1_decode J"
| "decode_tokens J V2 = v2_decode"

section \<open>Frames\<close>

datatype server_error = UnexpectedEof | FrameTooLarge usize usize

text \<open>
  \<open>read_exact\<close> on the bytes that are still to arrive before the peer closes: all \<open>n\<close> bytes, or the
  end-of-file error. The reader returns what is left of the stream.
\<close>

definition read_exact :: "usize \<Rightarrow> string \<Rightarrow> (server_error + string) \<times> string" where
  "read_exact n input = (if length input < n then (Inl UnexpectedEof, []) else (Inr (take n input), drop n input))"

definition read_frame :: "usize \<Rightarrow> string \<Rightarrow> (server_error + string) \<times> string" where
  "read_frame max_frame_size input =
     (case read_exact 4 input of
        (Inl e, rest) \<Rightarrow> (Inl e, rest)
      | (Inr len_buf, rest) \<Rightarrow>
          let frame_len = u32_from_le len_buf in
          if max_frame_size < frame_len then (Inl (FrameTooLarge frame_len max_frame_size), rest)
          else read_exact frame_len rest)"

definition write_frame :: "string \<Rightarrow> string \<Rightarrow> string" where
  "write_frame written data = written @ u32_to_le (as_u32 (length data)) @ data"

text \<open>The frames the read loop of a connection receives before its first read error.\<close>

function read_frames :: "usize \<Rightarrow> string \<Rightarrow> string list \<times> server_error" where
  "read_frames mx input =
     (case read_frame mx input of
        (Inl e, rest) \<Rightarrow> ([], e)
      | (Inr frame, rest) \<Rightarrow> apfst ((#) frame) (read_frames mx rest))"
  by pat_completeness auto
termination
  by (relation "measure (\<lambda>(mx, input). length input)")
    (auto simp: read_frame_def read_exact_def Let_def split: if_splits)

declare read_frames.simps [simp del]

section \<open>Round trips\<close>

lemma of_char_less [simp]: "of_char (c :: char) < (256 :: nat)"
  by (simp add: of_char_def)

lemma length_u32_to_le [simp]: "length (u32_to_le x) = 4"
  by (simp add: u32_to_le_def)

lemma u32_from_to: "u32_from_le (u32_to_le x) = x mod 2 ^ 32"
proof -
  have "map of_char (map char_of (le_bytes 4 x) :: string) = le_bytes 4 x"
    using le_bytes_less [of _ 4 x] by (auto simp: map_idI)
  then show ?thesis by (simp add: u32_to_le_def u32_from_le_def of_le_bytes_le_bytes del: map_map)
qed

lemma u32_from_to_small [simp]: "x < 2 ^ 32 \<Longrightarrow> u32_from_le (u32_to_le x) = x"
  by (simp add: u32_from_to)

lemma u32_to_from:
  assumes "length bs = 4"
  shows "u32_to_le (u32_from_le bs) = bs"
proof -
  have "le_bytes (length (map of_char bs :: nat list)) (of_le_bytes (map of_char bs)) = map of_char bs"
    by (rule le_bytes_of_le_bytes) simp
  then show ?thesis using assms by (simp add: u32_to_le_def u32_from_le_def map_idI)
qed

lemma u32_from_le_less:
  assumes "length bs = 4"
  shows "u32_from_le bs < 2 ^ 32"
  using of_le_bytes_less [of "map of_char bs :: nat list"] assms by (simp add: u32_from_le_def)

lemma four_bytes:
  assumes "k + 4 \<le> length bs"
  shows "[bs ! k, bs ! (k + 1), bs ! (k + 2), bs ! (k + 3)] = take 4 (drop k bs)"
  using assms by (intro nth_equalityI) (auto simp: less_Suc_eq numeral_eq_Suc nth_append)

lemma length_concat_u32 [simp]: "length (concat (map u32_to_le ts)) = 4 * length ts"
  by (induction ts) auto

lemma take_drop_concat_u32:
  "i < length ts \<Longrightarrow> take 4 (drop (4 * i) (concat (map u32_to_le ts))) = u32_to_le (ts ! i)"
proof (induction ts arbitrary: i)
  case Nil
  then show ?case by simp
next
  case (Cons t ts)
  then show ?case by (cases i) simp_all
qed

lemma concat_chunks:
  "length bs = 4 * n \<Longrightarrow> concat (map (\<lambda>i. take 4 (drop (4 * i) bs)) [0..<n]) = bs"
proof (induction n arbitrary: bs)
  case 0
  then show ?case by simp
next
  case (Suc n)
  have "concat (map (\<lambda>i. take 4 (drop (4 * i) bs)) [0..<Suc n]) =
      take 4 bs @ concat (map (\<lambda>i. take 4 (drop (4 * i) (drop 4 bs))) [0..<n])"
    by (simp add: upt_conv_Cons map_Suc_upt [symmetric] o_def add.commute del: upt_Suc)
  also have "\<dots> = bs" using Suc.prems by (subst Suc.IH) simp_all
  finally show ?case .
qed

text \<open>The tokens of the decoder's loop, as four-byte chunks after the count.\<close>

lemma v2_decode_chunks:
  "v2_decode bs = Inr ts \<longleftrightarrow>
     4 \<le> length bs \<and> length bs = 4 + 4 * u32_from_le (take 4 bs) \<and>
     ts = map (\<lambda>i. u32_from_le (take 4 (drop (4 * i) (drop 4 bs)))) [0..<u32_from_le (take 4 bs)]"
proof (cases "length bs < 4")
  case True
  then show ?thesis by (simp add: v2_decode_def)
next
  case False
  then have hd: "[bs ! 0, bs ! 1, bs ! 2, bs ! 3] = take 4 bs"
    using four_bytes [of 0 bs] by (simp add: numeral_2_eq_2)
  show ?thesis
  proof (cases "length bs = 4 + u32_from_le (take 4 bs) * 4")
    case len: True
    have chunk: "u32_from_le [bs ! (4 + i * 4), bs ! (4 + i * 4 + 1), bs ! (4 + i * 4 + 2), bs ! (4 + i * 4 + 3)] =
        u32_from_le (take 4 (drop (4 * i) (drop 4 bs)))" if "i < u32_from_le (take 4 bs)" for i
    proof -
      have "4 + i * 4 + 4 \<le> length bs" using that len by simp
      from four_bytes [OF this] show ?thesis by (simp only: drop_drop mult.commute [of i] add.commute [of _ "4 * i"])
    qed
    have "v2_decode bs = Inr (map (\<lambda>i. u32_from_le (take 4 (drop (4 * i) (drop 4 bs)))) [0..<u32_from_le (take 4 bs)])"
      unfolding v2_decode_def Let_def hd using False len chunk by (simp cong: map_cong)
    with len show ?thesis by auto
  next
    case len: False
    then show ?thesis using False unfolding v2_decode_def Let_def hd by auto
  qed
qed

text \<open>
  C37: The packed token format is exact in both directions: the decoder accepts precisely the encodings of
  token lists (of at most \<open>2 ^ 32 - 1\<close> tokens of 32 bits), and returns the encoded list.
\<close>

theorem v2_decode_iff_encode:
  "v2_decode bs = Inr ts \<longleftrightarrow> bs = v2_encode ts \<and> length ts < 2 ^ 32 \<and> set ts \<subseteq> {..<2 ^ 32}"
proof
  assume "v2_decode bs = Inr ts"
  then have len: "4 \<le> length bs" "length bs = 4 + 4 * u32_from_le (take 4 bs)"
    and ts: "ts = map (\<lambda>i. u32_from_le (take 4 (drop (4 * i) (drop 4 bs)))) [0..<u32_from_le (take 4 bs)]"
    by (simp_all only: v2_decode_chunks)
  have small: "u32_from_le (take 4 bs) < 2 ^ 32" by (rule u32_from_le_less) (use len in simp)
  have chunk: "length (take 4 (drop (4 * i) (drop 4 bs))) = 4" if "i < u32_from_le (take 4 bs)" for i
    using that len by simp
  have "concat (map u32_to_le ts) =
      concat (map (\<lambda>i. take 4 (drop (4 * i) (drop 4 bs))) [0..<u32_from_le (take 4 bs)])"
    unfolding ts map_map o_def using chunk by (intro arg_cong [of _ _ concat] map_cong refl u32_to_from) simp
  also have "\<dots> = drop 4 bs" using len by (intro concat_chunks) simp
  finally have "v2_encode ts = take 4 bs @ drop 4 bs"
    using small len by (simp add: v2_encode_def as_u32_def ts u32_to_from)
  then show "bs = v2_encode ts \<and> length ts < 2 ^ 32 \<and> set ts \<subseteq> {..<2 ^ 32}"
    using small chunk u32_from_le_less by (auto simp: ts)
next
  assume rhs: "bs = v2_encode ts \<and> length ts < 2 ^ 32 \<and> set ts \<subseteq> {..<2 ^ 32}"
  then have bs: "bs = u32_to_le (length ts) @ concat (map u32_to_le ts)"
    by (simp add: v2_encode_def as_u32_def)
  have count: "u32_from_le (take 4 bs) = length ts" unfolding bs using rhs by simp
  have "map (\<lambda>i. u32_from_le (take 4 (drop (4 * i) (drop 4 bs)))) [0..<length ts] =
      map (\<lambda>i. u32_from_le (u32_to_le (ts ! i))) [0..<length ts]"
    by (intro map_cong refl) (simp add: bs take_drop_concat_u32)
  also have "\<dots> = map (\<lambda>i. ts ! i) [0..<length ts]"
    using rhs by (intro map_cong refl u32_from_to_small) (auto dest: nth_mem)
  finally show "v2_decode bs = Inr ts"
    unfolding v2_decode_chunks count by (simp add: bs map_nth)
qed

lemma read_frame_written:
  assumes "length data < 2 ^ 32" and "length data \<le> mx"
  shows "read_frame mx (u32_to_le (as_u32 (length data)) @ data @ rest) = (Inr data, rest)"
  using assms by (simp add: read_frame_def read_exact_def as_u32_def Let_def)

text \<open>
  C38: Frames survive the stream: whatever sequence of payloads within the frame limit is written to a
  connection, the peer reads exactly those payloads in order and then meets the end of the stream.
\<close>

theorem frames_roundtrip:
  assumes "\<forall>f \<in> set frames. length f \<le> mx" and "mx < 2 ^ 32"
  shows "read_frames mx (foldl write_frame [] frames) = (frames, UnexpectedEof)"
proof -
  have flat: "foldl write_frame w frames = w @ concat (map (\<lambda>f. u32_to_le (as_u32 (length f)) @ f) frames)" for w
    by (induction frames arbitrary: w) (simp_all add: write_frame_def)
  have "read_frames mx (concat (map (\<lambda>f. u32_to_le (as_u32 (length f)) @ f) frames)) = (frames, UnexpectedEof)"
    using assms(1)
  proof (induction frames)
    case Nil
    then show ?case by (simp add: read_frames.simps [of mx "[]"] read_frame_def read_exact_def)
  next
    case (Cons f frames)
    then have "read_frame mx (u32_to_le (as_u32 (length f)) @ f @
        concat (map (\<lambda>f. u32_to_le (as_u32 (length f)) @ f) frames)) =
      (Inr f, concat (map (\<lambda>f. u32_to_le (as_u32 (length f)) @ f) frames))"
      using assms(2) by (intro read_frame_written) auto
    with Cons show ?case by (subst read_frames.simps) simp
  qed
  then show ?thesis by (simp add: flat)
qed

theorem frames_roundtrip_witness:
  "read_frames 100 (foldl write_frame [] [''ping'', [], ''pong'']) = ([''ping'', [], ''pong''], UnexpectedEof)"
  using frames_roundtrip [of "[''ping'', [], ''pong'']" 100] by simp

lemma encode_message_length: "encode_message J m = Inr bs \<Longrightarrow> length bs \<le> MAX_MESSAGE_SIZE"
  by (auto simp: encode_message_def split: sum.splits if_splits)

text \<open>
  An encoded message reaches the peer unchanged: if the JSON parser inverts the printer on the message,
  what \<open>encode_message\<close> accepts is read back as one frame under the default frame limit and decodes to
  the same message. An oversized response is replaced by a 413 error message that obeys the limit.
\<close>

theorem message_roundtrip:
  assumes inverse: "\<And>b. to_vec J m = Inr b \<Longrightarrow> from_slice J b = Inr m"
    and enc: "encode_message J m = Inr bs"
  shows "read_frame ipc_server_config_default (write_frame [] bs @ rest) = (Inr bs, rest) \<and>
    decode_message J bs = Inr m \<and>
    (\<forall>b. encode_response J m' = Inr b \<longrightarrow> length b \<le> MAX_RESPONSE_SIZE)"
proof -
  note len = encode_message_length [OF enc]
  have "read_frame ipc_server_config_default (write_frame [] bs @ rest) = (Inr bs, rest)"
    using len read_frame_written [of bs ipc_server_config_default rest]
    by (simp add: write_frame_def ipc_server_config_default_def MAX_MESSAGE_SIZE_def)
  moreover have "decode_message J bs = Inr m"
    using enc inverse len by (auto simp: encode_message_def decode_message_def split: sum.splits if_splits)
  moreover have "length b \<le> MAX_RESPONSE_SIZE" if "encode_response J m' = Inr b" for b
    using that encode_message_length [of J _ b]
    by (auto simp: encode_response_def MAX_RESPONSE_SIZE_def MAX_MESSAGE_SIZE_def split: sum.splits if_splits)
  ultimately show ?thesis by blast
qed

definition sample_json :: json where
  "sample_json = \<lparr>to_vec = (\<lambda>m. case m of CancelRequest i \<Rightarrow> Inr (''C'' @ show_nat i) | _ \<Rightarrow> Inl ''no''),
     from_slice = (\<lambda>b. if b = ''C7'' then Inr (CancelRequest 7) else Inl ''no'')\<rparr>"

theorem message_roundtrip_witness:
  "decode_message sample_json ''C7'' = Inr (CancelRequest 7) \<and>
   read_frame ipc_server_config_default (write_frame [] ''C7'' @ ''x'') = (Inr ''C7'', ''x'')"
proof -
  have show7: "show_nat 7 = ''7''" by code_simp
  have "encode_message sample_json (CancelRequest 7) = Inr ''C7''"
    by (simp add: encode_message_def sample_json_def show7 MAX_MESSAGE_SIZE_def)
  moreover have "to_vec sample_json (CancelRequest 7) = Inr b \<Longrightarrow> from_slice sample_json b = Inr (CancelRequest 7)" for b
    by (auto simp: sample_json_def show7)
  ultimately show ?thesis
    using message_roundtrip [of sample_json "CancelRequest 7" "''C7''" "''x''" MetricsRequest] by blast
qed

end
