(* ===== verification/Stream_Server.thy ===== *)
theory Stream_Server
  imports Wire_Codec Session_Auth
begin

text \<open>
  One IPC connection (\<open>ipc/server.rs\<close>, \<open>ipc/stream_bridge.rs\<close>, and \<open>process_streaming\<close> with
  \<open>relay_stream\<close> of \<open>ipc/handler.rs\<close>, built with the feature \<open>gguf\<close>): the reader loop, the table of
  active requests, and the tasks it spawns beside itself, one per inference request.

  Tasks interleave at every \<open>await\<close>. The step relation has one step per critical section: a lookup or
  update of the active-request table under its lock, and a frame written under the writer lock. Each
  request gets a fresh cancellation token, which names its task; the frames written so far carry the token
  they belong to. The outcome of admission (shutdown, queue), the items the engine produces, deadlines and
  failing writes are choices of the environment.
\<close>

section \<open>State\<close>

type_synonym token = nat

datatype on_sent = Continue | Stop | Ignore

datatype task_pc =
    Entering inference_request string  \<comment> \<open>\<open>process_streaming\<close> before the queue\<close>
  | Relaying                           \<comment> \<open>at the \<open>select!\<close> of \<open>relay_stream\<close>\<close>
  | Sending stream_chunk on_sent       \<comment> \<open>in \<open>send\<close>, past its first check, before the writer lock\<close>
  | Failing string                     \<comment> \<open>\<open>process_streaming\<close> returned an error to the task\<close>
  | Finishing                          \<comment> \<open>about to remove the id\<close>
  | Inferring inference_request        \<comment> \<open>\<open>handle_inference_controlled\<close> is running\<close>
  | Answered inference_response        \<comment> \<open>it returned; about to remove the id\<close>
  | Responding inference_response      \<comment> \<open>id removed; about to write the response\<close>
  | Done

datatype reader_pc = Reading | Acking "token option" request_id bool | Closing | Closed

record connection =
  co_require_auth :: bool
  co_auth :: session_auth
  co_session :: "string option"
  co_active :: "(request_id, token) hash_map"
  co_cancelled :: "token \<Rightarrow> bool"
  co_next :: token
  co_tasks :: "token \<Rightarrow> (request_id \<times> task_pc) option"
  co_reader :: reader_pc
  co_out :: "(token option \<times> ipc_message) list"
  co_lost :: "token \<Rightarrow> bool"  \<comment> \<open>a frame of this task could not be written\<close>

definition conn_init :: "bool \<Rightarrow> session_auth \<Rightarrow> connection" where
  "conn_init req a = \<lparr>co_require_auth = req, co_auth = a, co_session = None, co_active = [], co_cancelled = (\<lambda>_. False),
     co_next = 0, co_tasks = (\<lambda>_. None), co_reader = Reading, co_out = [], co_lost = (\<lambda>_. False)\<rparr>"

definition emit :: "token option \<Rightarrow> ipc_message \<Rightarrow> connection \<Rightarrow> connection" where
  "emit tag m c = c\<lparr>co_out := co_out c @ [(tag, m)]\<rparr>"

definition set_task :: "token \<Rightarrow> request_id \<Rightarrow> task_pc \<Rightarrow> connection \<Rightarrow> connection" where
  "set_task t i pc c = c\<lparr>co_tasks := (co_tasks c)(t \<mapsto> (i, pc))\<rparr>"

primrec show_auth_error :: "auth_error \<Rightarrow> string" where
  "show_auth_error InvalidToken = ''Invalid handshake token''"
| "show_auth_error SessionNotFound = ''Session not found''"
| "show_auth_error SessionExpired = ''Session expired''"
| "show_auth_error AuthNotAuthenticated = ''Authentication required''"
| "show_auth_error RateLimited = ''Too many failed attempts, please try again later''"
| "show_auth_error SessionRateLimited = ''Session request rate limit exceeded''"

definition not_authenticated :: ipc_message where
  "not_authenticated = ErrorMessage 401 ''Not authenticated''"

definition duplicate_id :: ipc_message where
  "duplicate_id = ErrorMessage 409 ''Duplicate active request ID''"

section \<open>The reader's operations\<close>

text \<open>\<open>register_request\<close>, and the same lookup and insertion that the streaming branch writes out.\<close>

definition register_request :: "request_id \<Rightarrow> connection \<Rightarrow> (token \<times> connection) option" where
  "register_request i c =
     (case map_of (co_active c) i of
        Some _ \<Rightarrow> None
      | None \<Rightarrow> Some (co_next c, c\<lparr>co_active := AList.update i (co_next c) (co_active c), co_next := Suc (co_next c)\<rparr>))"

definition recv_stream :: "inference_request \<Rightarrow> connection \<Rightarrow> connection" where
  "recv_stream req c =
     (case co_session c of
        None \<Rightarrow> emit None not_authenticated c
      | Some sid \<Rightarrow>
          (case register_request (ir_request_id req) c of
             None \<Rightarrow> emit None duplicate_id c
           | Some (t, c') \<Rightarrow> set_task t (ir_request_id req) (Entering req sid) c'))"

text \<open>\<open>IpcHandler::require_auth\<close>: whether the caller may go on.\<close>

definition require_auth :: "instant \<Rightarrow> connection \<Rightarrow> bool \<times> connection" where
  "require_auth now c =
     (if \<not> co_require_auth c then (True, c)
      else
        (case co_session c of
           None \<Rightarrow> (False, c)
         | Some sid \<Rightarrow>
             let (r, a) = auth_validate now sid (co_auth c) in (r = Inr (), c\<lparr>co_auth := a\<rparr>)))"

definition recv_inference :: "instant \<Rightarrow> inference_request \<Rightarrow> connection \<Rightarrow> connection" where
  "recv_inference now req c =
     (case require_auth now c of
        (False, c1) \<Rightarrow> (emit None not_authenticated c1)\<lparr>co_reader := Closing\<rparr>
      | (True, c1) \<Rightarrow>
          (case register_request (ir_request_id req) c1 of
             None \<Rightarrow> emit None duplicate_id c1
           | Some (t, c2) \<Rightarrow> set_task t (ir_request_id req) (Inferring req) c2))"

definition recv_cancel :: "instant \<Rightarrow> request_id \<Rightarrow> connection \<Rightarrow> connection" where
  "recv_cancel now i c =
     (case co_session c of
        None \<Rightarrow> emit None not_authenticated c
      | Some sid \<Rightarrow>
          (case auth_validate now sid (co_auth c) of
             (Inl e, a) \<Rightarrow> emit None not_authenticated (c\<lparr>co_auth := a\<rparr>)
           | (Inr _, a) \<Rightarrow>
               (case map_of (co_active c) i of
                  None \<Rightarrow> c\<lparr>co_auth := a, co_reader := Acking None i False\<rparr>
                | Some t \<Rightarrow> c\<lparr>co_auth := a, co_cancelled := (co_cancelled c)(t := True), co_reader := Acking (Some t) i True\<rparr>)))"

text \<open>A handshake through \<open>IpcHandler::process\<close>; an error of the handler ends the connection.\<close>

definition recv_handshake ::
  "(string \<Rightarrow> byte list) \<Rightarrow> instant \<Rightarrow> byte list \<Rightarrow> string \<Rightarrow> protocol_version option \<Rightarrow> connection \<Rightarrow> connection" where
  "recv_handshake sha now r tok v c =
     (case authenticate sha now r tok (co_auth c) of
        (Inl e, a) \<Rightarrow> (emit None (ErrorMessage 401 (''Authentication error: '' @ show_auth_error e)) (c\<lparr>co_auth := a\<rparr>))\<lparr>co_reader := Closing\<rparr>
      | (Inr sid, a) \<Rightarrow>
          emit None (HandshakeAck sid (negotiate v)) (c\<lparr>co_auth := a, co_session := Some sid\<rparr>))"

text \<open>When the loop ends, every request that is still active is cancelled.\<close>

definition cancel_all :: "connection \<Rightarrow> connection" where
  "cancel_all c = c\<lparr>co_cancelled := (\<lambda>t. co_cancelled c t \<or> t \<in> snd ` set (co_active c)), co_reader := Closed\<rparr>"

section \<open>The tasks' operations\<close>

text \<open>The chunk of \<open>relay_stream\<close> for an item, and what the relay does once it is sent.\<close>

fun item_chunk :: "request_id \<Rightarrow> stream_item \<Rightarrow> stream_chunk \<times> on_sent" where
  "item_chunk i (ItemToken t) = (chunk_token i t, Continue)"
| "item_chunk i (ItemText s) = (chunk_token_with_text i 0 s, Continue)"
| "item_chunk i (ItemEnd TermComplete) = (chunk_complete i, Stop)"
| "item_chunk i (ItemEnd (TermRejected m)) = (chunk_error i m, Stop)"
| "item_chunk i (ItemEnd (TermError m)) = (chunk_error i m, Stop)"

definition error_terminal :: "stream_chunk \<Rightarrow> bool" where
  "error_terminal k \<longleftrightarrow> sc_is_final k \<and> sc_error k \<noteq> None"

text \<open>\<open>IpcStreamBridge::send\<close> up to the writer lock: data of a cancelled stream is refused at once.\<close>

definition begin_send :: "token \<Rightarrow> request_id \<Rightarrow> stream_chunk \<Rightarrow> on_sent \<Rightarrow> connection \<Rightarrow> connection" where
  "begin_send t i k after c =
     (if co_cancelled c t \<and> \<not> error_terminal k
      then set_task t i (if after = Ignore then Finishing else Failing ''Stream send error: cancelled'') c
      else set_task t i (Sending k after) c)"

text \<open>\<open>write_frame\<close> under the writer lock: the cancellation is looked up again before the write.\<close>

definition locked_write :: "token \<Rightarrow> request_id \<Rightarrow> stream_chunk \<Rightarrow> on_sent \<Rightarrow> connection \<Rightarrow> connection" where
  "locked_write t i k after c =
     (if co_cancelled c t \<and> \<not> error_terminal k
      then set_task t i (if after = Ignore then Finishing else Failing ''Stream send error: cancelled'') c
      else set_task t i (if after = Continue then Relaying else Finishing) (emit (Some t) (StreamChunk k) c))"

definition failed_write :: "token \<Rightarrow> request_id \<Rightarrow> on_sent \<Rightarrow> string \<Rightarrow> connection \<Rightarrow> connection" where
  "failed_write t i after e c =
     set_task t i (if after = Ignore then Finishing else Failing (''Stream send error: '' @ e)) (c\<lparr>co_lost := (co_lost c)(t := True)\<rparr>)"

text \<open>
  \<open>process_streaming\<close> up to the relay; \<open>tracked\<close> is whether the shutdown coordinator takes the request
  and \<open>queued\<close> the verdict of the streaming queue.
\<close>

definition enter_stream ::
  "instant \<Rightarrow> token \<Rightarrow> inference_request \<Rightarrow> string \<Rightarrow> bool \<Rightarrow> string + unit \<Rightarrow> connection \<Rightarrow> connection" where
  "enter_stream now t req sid tracked queued c =
     (let i = ir_request_id req in
      case auth_validate now sid (co_auth c) of
        (Inl e, a) \<Rightarrow> set_task t i (Failing (''Authentication error: '' @ show_auth_error e)) (c\<lparr>co_auth := a\<rparr>)
      | (Inr _, a) \<Rightarrow>
          let c1 = c\<lparr>co_auth := a\<rparr> in
          if \<not> tracked then set_task t i (Failing ''Server is shutting down'') c1
          else
            (case request_validate req of
               Inl e \<Rightarrow> begin_send t i (chunk_error i (show_protocol_error e)) Stop c1
             | Inr _ \<Rightarrow>
                 (case params_validate (ir_parameters req) of
                    Inl e \<Rightarrow> begin_send t i (chunk_error i (show_inference_error e)) Stop c1
                  | Inr _ \<Rightarrow>
                      (case queued of
                         Inl m \<Rightarrow> set_task t i (Failing (''Queue error: '' @ m)) c1
                       | Inr _ \<Rightarrow> set_task t i Relaying c1))))"

definition remove_id :: "request_id \<Rightarrow> connection \<Rightarrow> connection" where
  "remove_id i c = c\<lparr>co_active := AList.delete i (co_active c)\<rparr>"

section \<open>Steps\<close>

text \<open>
  The arms of the \<open>select!\<close> after the first are not guarded by the cancellation flag: it can be set after
  the first arm was polled. \<open>read_other\<close> is any reply of \<open>IpcHandler::process\<close> or a decoding error,
  \<open>others\<close> any call that another connection makes on the shared session table.
\<close>

inductive srv_step :: "(string \<Rightarrow> byte list) \<Rightarrow> connection \<Rightarrow> connection \<Rightarrow> bool" for sha where
  read_stream: "co_reader c = Reading \<Longrightarrow> p_stream (ir_parameters req) \<Longrightarrow> srv_step sha c (recv_stream req c)"
| read_inference: "co_reader c = Reading \<Longrightarrow> \<not> p_stream (ir_parameters req) \<Longrightarrow> srv_step sha c (recv_inference now req c)"
| read_cancel: "co_reader c = Reading \<Longrightarrow> srv_step sha c (recv_cancel now i c)"
| write_ack: "co_reader c = Acking t i b \<Longrightarrow>
    srv_step sha c ((emit t (CancelResponse i b) c)\<lparr>co_reader := Reading\<rparr>)"
| read_handshake: "co_reader c = Reading \<Longrightarrow> srv_step sha c (recv_handshake sha now r tok v c)"
| read_other: "co_reader c = Reading \<Longrightarrow> (\<forall>k. m \<noteq> StreamChunk k) \<Longrightarrow> srv_step sha c (emit None m c)"
| read_end: "co_reader c = Reading \<Longrightarrow> srv_step sha c (c\<lparr>co_reader := Closing\<rparr>)"
| close: "co_reader c = Closing \<Longrightarrow> srv_step sha c (cancel_all c)"
| others: "srv_step sha c (c\<lparr>co_auth := auth_exec sha e (co_auth c)\<rparr>)"
| enter: "co_tasks c t = Some (i, Entering req sid) \<Longrightarrow> srv_step sha c (enter_stream now t req sid tracked queued c)"
| relay_cancelled: "co_tasks c t = Some (i, Relaying) \<Longrightarrow> co_cancelled c t \<Longrightarrow>
    srv_step sha c (begin_send t i (chunk_error i ''cancelled'') Ignore c)"
| relay_deadline: "co_tasks c t = Some (i, Relaying) \<Longrightarrow>
    srv_step sha c (begin_send t i (chunk_error i ''stream deadline exceeded'') Ignore
      (c\<lparr>co_cancelled := (co_cancelled c)(t := True)\<rparr>))"
| relay_item: "co_tasks c t = Some (i, Relaying) \<Longrightarrow> item_chunk i it = (k, after) \<Longrightarrow>
    srv_step sha c (begin_send t i k after c)"
| relay_dropped: "co_tasks c t = Some (i, Relaying) \<Longrightarrow>
    srv_step sha c (begin_send t i (chunk_error i ''stream ended without a terminal'') Ignore c)"
| write_chunk: "co_tasks c t = Some (i, Sending k after) \<Longrightarrow> srv_step sha c (locked_write t i k after c)"
| write_fails: "co_tasks c t = Some (i, Sending k after) \<Longrightarrow> srv_step sha c (failed_write t i after e c)"
| report: "co_tasks c t = Some (i, Failing e) \<Longrightarrow> srv_step sha c (begin_send t i (chunk_error i e) Ignore c)"
| finish: "co_tasks c t = Some (i, Finishing) \<Longrightarrow> srv_step sha c (set_task t i Done (remove_id i c))"
| infer: "co_tasks c t = Some (i, Inferring req) \<Longrightarrow> resp_request_id resp = i \<Longrightarrow> srv_step sha c (set_task t i (Answered resp) c)"
| answer: "co_tasks c t = Some (i, Answered resp) \<Longrightarrow> srv_step sha c (set_task t i (Responding resp) (remove_id i c))"
| respond: "co_tasks c t = Some (i, Responding resp) \<Longrightarrow>
    srv_step sha c (set_task t i Done (emit (Some t) (InferenceResponse resp) c))"
| respond_fails: "co_tasks c t = Some (i, Responding resp) \<Longrightarrow>
    srv_step sha c (set_task t i Done (c\<lparr>co_lost := (co_lost c)(t := True)\<rparr>))"

inductive_cases srv_stepE: "srv_step sha c c'"

lemmas reader_defs = recv_stream_def recv_inference_def recv_cancel_def recv_handshake_def require_auth_def
  register_request_def cancel_all_def

lemmas task_defs = enter_stream_def begin_send_def locked_write_def failed_write_def remove_id_def

lemmas chunk_defs = chunk_token_def chunk_token_with_text_def chunk_complete_def chunk_error_def

abbreviation srv_reachable :: "(string \<Rightarrow> byte list) \<Rightarrow> connection \<Rightarrow> connection \<Rightarrow> bool" where
  "srv_reachable sha c c' \<equiv> (srv_step sha)\<^sup>*\<^sup>* c c'"

lemma srv_first: "srv_step sha c d \<Longrightarrow> srv_reachable sha c d"
  by (rule r_into_rtranclp)

lemma srv_then: "srv_reachable sha c d \<Longrightarrow> srv_step sha d e \<Longrightarrow> srv_reachable sha c e"
  by (rule rtranclp.rtrancl_into_rtrancl)

section \<open>Replies of a request\<close>

fun is_reply :: "ipc_message \<Rightarrow> bool" where
  "is_reply (StreamChunk k) = True"
| "is_reply (InferenceResponse r) = True"
| "is_reply _ = False"

fun is_terminal :: "ipc_message \<Rightarrow> bool" where
  "is_terminal (StreamChunk k) = sc_is_final k"
| "is_terminal (InferenceResponse r) = True"
| "is_terminal _ = False"

fun reply_id :: "ipc_message \<Rightarrow> request_id" where
  "reply_id (StreamChunk k) = sc_request_id k"
| "reply_id (InferenceResponse r) = resp_request_id r"
| "reply_id _ = 0"

definition replies :: "token \<Rightarrow> (token option \<times> ipc_message) list \<Rightarrow> ipc_message list" where
  "replies t out = map snd (filter (\<lambda>(tag, m). tag = Some t \<and> is_reply m) out)"

definition answered :: "ipc_message list \<Rightarrow> bool" where
  "answered fs \<longleftrightarrow> (\<exists>ms m. fs = ms @ [m] \<and> is_terminal m \<and> (\<forall>x \<in> set ms. \<not> is_terminal x))"

definition unanswered :: "ipc_message list \<Rightarrow> bool" where
  "unanswered fs \<longleftrightarrow> (\<forall>x \<in> set fs. \<not> is_terminal x)"

text \<open>What the replies of a task may be at each of its control points.\<close>

fun pc_ok :: "request_id \<Rightarrow> ipc_message list \<Rightarrow> bool \<Rightarrow> task_pc \<Rightarrow> bool" where
  "pc_ok i fs lost (Entering req sid) = (unanswered fs \<and> ir_request_id req = i)"
| "pc_ok i fs lost (Sending k after) = (unanswered fs \<and> sc_request_id k = i \<and>
     (after = Continue \<longleftrightarrow> \<not> sc_is_final k) \<and> (after = Ignore \<longrightarrow> error_terminal k))"
| "pc_ok i fs lost (Answered r) = (unanswered fs \<and> resp_request_id r = i)"
| "pc_ok i fs lost (Responding r) = (unanswered fs \<and> resp_request_id r = i)"
| "pc_ok i fs lost Finishing = (answered fs \<or> lost \<and> unanswered fs)"
| "pc_ok i fs lost Done = (answered fs \<or> lost \<and> unanswered fs)"
| "pc_ok i fs lost _ = unanswered fs"

definition replies_inv ::
  "(token \<Rightarrow> (request_id \<times> task_pc) option) \<Rightarrow> (token option \<times> ipc_message) list \<Rightarrow> (token \<Rightarrow> bool) \<Rightarrow> token \<Rightarrow> bool" where
  "replies_inv tasks out lost next \<longleftrightarrow>
     (\<forall>t i pc. tasks t = Some (i, pc) \<longrightarrow>
        t < next \<and> pc_ok i (replies t out) (lost t) pc \<and> (\<forall>m \<in> set (replies t out). reply_id m = i)) \<and>
     (\<forall>t. tasks t = None \<longrightarrow> replies t out = [])"

definition conn_replies_inv :: "connection \<Rightarrow> bool" where
  "conn_replies_inv c = replies_inv (co_tasks c) (co_out c) (co_lost c) (co_next c)"

lemma replies_snoc:
  "replies t (out @ [(tag, m)]) = replies t out @ (if tag = Some t \<and> is_reply m then [m] else [])"
  by (simp add: replies_def)

lemma unanswered_snoc: "unanswered fs \<Longrightarrow> \<not> is_terminal m \<Longrightarrow> unanswered (fs @ [m])"
  by (simp add: unanswered_def)

lemma answered_snoc: "unanswered fs \<Longrightarrow> is_terminal m \<Longrightarrow> answered (fs @ [m])"
  by (auto simp: answered_def unanswered_def)

lemma replies_inv_task:
  assumes "conn_replies_inv c" and "co_tasks c t = Some (i, pc)"
  shows "t < co_next c" "pc_ok i (replies t (co_out c)) (co_lost c t) pc" "\<forall>m \<in> set (replies t (co_out c)). reply_id m = i"
  using assms by (auto simp: conn_replies_inv_def replies_inv_def)

lemma inv_set_task:
  assumes "conn_replies_inv c" and "co_tasks c t = Some (i, pc0)" and "pc_ok i (replies t (co_out c)) (co_lost c t) pc"
  shows "conn_replies_inv (set_task t i pc c)"
  using assms replies_inv_task [OF assms(1,2)] by (auto simp: conn_replies_inv_def replies_inv_def set_task_def)

lemma inv_set_task_emit:
  assumes "conn_replies_inv c" and "co_tasks c t = Some (i, pc0)" and "is_reply m" and "reply_id m = i"
    and "pc_ok i (replies t (co_out c) @ [m]) (co_lost c t) pc"
  shows "conn_replies_inv (set_task t i pc (emit (Some t) m c))"
  using assms replies_inv_task [OF assms(1,2)]
  by (auto simp: conn_replies_inv_def replies_inv_def set_task_def emit_def replies_snoc)

lemma inv_emit: "tag = None \<or> \<not> is_reply m \<Longrightarrow> conn_replies_inv (emit tag m c) = conn_replies_inv c"
  by (auto simp: conn_replies_inv_def replies_inv_def emit_def replies_snoc)

lemma inv_fields [simp]:
  "conn_replies_inv (c\<lparr>co_auth := a\<rparr>) = conn_replies_inv c"
  "conn_replies_inv (c\<lparr>co_session := sid\<rparr>) = conn_replies_inv c"
  "conn_replies_inv (c\<lparr>co_active := ac\<rparr>) = conn_replies_inv c"
  "conn_replies_inv (c\<lparr>co_cancelled := ca\<rparr>) = conn_replies_inv c"
  "conn_replies_inv (c\<lparr>co_reader := r\<rparr>) = conn_replies_inv c"
  by (simp_all add: conn_replies_inv_def)

lemma pc_ok_lost: "pc_ok i fs lost pc \<Longrightarrow> pc_ok i fs True pc"
  by (cases pc) auto

lemma inv_lost: "conn_replies_inv c \<Longrightarrow> conn_replies_inv (c\<lparr>co_lost := (co_lost c)(t := True)\<rparr>)"
  by (auto simp: conn_replies_inv_def replies_inv_def intro: pc_ok_lost)

lemma inv_register:
  assumes "conn_replies_inv c" and "register_request i c = Some (t, c')" and "pc_ok i [] (co_lost c t) pc"
  shows "conn_replies_inv (set_task t i pc c')"
proof -
  have c': "t = co_next c" "c' = c\<lparr>co_active := AList.update i t (co_active c), co_next := Suc t\<rparr>"
    using assms(2) by (auto simp: register_request_def split: option.splits)
  have "co_tasks c t = None"
    using assms(1) c'(1) by (cases "co_tasks c t") (auto simp: conn_replies_inv_def replies_inv_def)
  then show ?thesis
    using assms(1,3) unfolding c'(2) conn_replies_inv_def replies_inv_def set_task_def
    by (auto simp: c'(1) less_Suc_eq)
qed

lemma inv_begin_send:
  assumes "conn_replies_inv c" and "co_tasks c t = Some (i, pc)" and "unanswered (replies t (co_out c))"
    and "sc_request_id k = i" and "after = Continue \<longleftrightarrow> \<not> sc_is_final k" and "after = Ignore \<longrightarrow> error_terminal k"
  shows "conn_replies_inv (begin_send t i k after c)"
  using assms unfolding begin_send_def by (auto intro!: inv_set_task)

lemma chunk_error_terminal [simp]: "error_terminal (chunk_error i e)" "sc_is_final (chunk_error i e)"
  "sc_request_id (chunk_error i e) = i"
  by (simp_all add: chunk_error_def error_terminal_def)

lemma item_chunk_ok:
  assumes "item_chunk i it = (k, after)"
  shows "sc_request_id k = i \<and> (after = Continue \<longleftrightarrow> \<not> sc_is_final k) \<and> after \<noteq> Ignore"
  using assms by (cases "(i, it)" rule: item_chunk.cases) (auto simp: chunk_defs)

lemma inv_locked_write:
  assumes "conn_replies_inv c" and t: "co_tasks c t = Some (i, Sending k after)"
  shows "conn_replies_inv (locked_write t i k after c)"
proof -
  note pc = replies_inv_task(2) [OF assms, simplified]
  show ?thesis
  proof (cases "co_cancelled c t \<and> \<not> error_terminal k")
    case True
    then show ?thesis using assms pc unfolding locked_write_def by (auto intro!: inv_set_task)
  next
    case False
    then show ?thesis using assms pc unfolding locked_write_def
      by (cases after) (auto intro!: inv_set_task_emit simp: unanswered_snoc answered_snoc)
  qed
qed

lemma inv_failed_write:
  assumes "conn_replies_inv c" and t: "co_tasks c t = Some (i, Sending k after)"
  shows "conn_replies_inv (failed_write t i after e c)"
  using inv_lost [OF assms(1), of t] t replies_inv_task(2) [OF assms, simplified]
  unfolding failed_write_def by (auto intro!: inv_set_task)

lemma inv_enter:
  assumes "conn_replies_inv c" and t: "co_tasks c t = Some (i, Entering req sid)"
  shows "conn_replies_inv (enter_stream now t req sid tracked queued c)"
proof -
  have un: "unanswered (replies t (co_out c))" and i: "ir_request_id req = i"
    using replies_inv_task(2) [OF assms] by simp_all
  show ?thesis
    using assms un unfolding enter_stream_def i Let_def
    by (auto intro!: inv_set_task inv_begin_send split: sum.splits prod.splits)
qed

lemma inv_reader:
  assumes "conn_replies_inv c"
  shows "conn_replies_inv (recv_stream req c)" "conn_replies_inv (recv_inference now req c)"
    "conn_replies_inv (recv_cancel now i c)" "conn_replies_inv (recv_handshake sha now r tok v c)"
proof -
  have auth: "conn_replies_inv (snd (require_auth now c))" for now
    using assms by (auto simp: require_auth_def split_beta Let_def split: option.splits)
  show "conn_replies_inv (recv_stream req c)"
    using assms by (auto simp: recv_stream_def inv_emit unanswered_def intro!: inv_register split: option.splits)
  show "conn_replies_inv (recv_inference now req c)"
    using auth [of now]
    by (auto simp: recv_inference_def inv_emit unanswered_def intro!: inv_register split: option.splits prod.splits bool.splits)
  show "conn_replies_inv (recv_cancel now i c)"
    using assms by (auto simp: recv_cancel_def inv_emit split: option.splits prod.splits sum.splits)
  show "conn_replies_inv (recv_handshake sha now r tok v c)"
    using assms by (auto simp: recv_handshake_def inv_emit split: prod.splits sum.splits)
qed

lemma inv_step: "srv_step sha c c' \<Longrightarrow> conn_replies_inv c \<Longrightarrow> conn_replies_inv c'"
proof (induction rule: srv_step.induct)
  case (relay_item c t i it k after)
  then show ?case using item_chunk_ok [OF relay_item(2)] replies_inv_task(2) by (fastforce intro!: inv_begin_send)
next
  case (finish c t i)
  then show ?case using replies_inv_task(2) [OF finish(2,1)]
    by (auto simp: remove_id_def intro!: inv_set_task [where ?pc0.0 = Finishing])
next
  case (infer c t i req resp)
  then show ?case using replies_inv_task(2) [OF infer(3,1)] by (auto intro!: inv_set_task)
next
  case (answer c t i resp)
  then show ?case using replies_inv_task(2) [OF answer(2,1)]
    by (auto simp: remove_id_def intro!: inv_set_task [where ?pc0.0 = "Answered resp"])
next
  case (respond c t i resp)
  then show ?case using replies_inv_task(2) [OF respond(2,1)] by (auto intro!: inv_set_task_emit answered_snoc)
next
  case (respond_fails c t i resp)
  then show ?case using replies_inv_task(2) [OF respond_fails(2,1)] inv_lost [OF respond_fails(2), of t]
    by (auto intro!: inv_set_task)
next
  case (write_ack c t i b)
  then show ?case by (simp add: inv_emit)
next
  case (read_other c m)
  then show ?case by (simp add: inv_emit)
next
  case (close c)
  then show ?case by (simp add: cancel_all_def)
qed (auto intro!: inv_reader inv_enter inv_locked_write inv_failed_write inv_begin_send dest: replies_inv_task(2))

lemma inv_init: "conn_replies_inv (conn_init req a)"
  by (simp add: conn_replies_inv_def replies_inv_def conn_init_def replies_def)

lemma inv_reach: "srv_reachable sha c c' \<Longrightarrow> conn_replies_inv c \<Longrightarrow> conn_replies_inv c'"
  by (induction rule: rtranclp_induct) (auto dest: inv_step)

section \<open>The table of active requests\<close>

fun live :: "task_pc \<Rightarrow> bool" where
  "live (Responding r) = False"
| "live Done = False"
| "live _ = True"

definition ids_inv :: "connection \<Rightarrow> bool" where
  "ids_inv c \<longleftrightarrow> wf_map (co_active c) \<and>
     (\<forall>i t. map_of (co_active c) i = Some t \<longleftrightarrow> (\<exists>pc. co_tasks c t = Some (i, pc) \<and> live pc)) \<and>
     (\<forall>t. co_tasks c t \<noteq> None \<longrightarrow> t < co_next c) \<and>
     (co_reader c = Closed \<longrightarrow> (\<forall>i t. map_of (co_active c) i = Some t \<longrightarrow> co_cancelled c t))"

lemma ids_bound: "ids_inv c \<Longrightarrow> co_tasks c t = Some p \<Longrightarrow> t < co_next c"
  by (cases p) (simp add: ids_inv_def)

lemma ids_active: "ids_inv c \<Longrightarrow> co_tasks c t = Some (i, pc) \<Longrightarrow> live pc \<Longrightarrow> map_of (co_active c) i = Some t"
  by (auto simp: ids_inv_def)

lemma ids_set_task:
  assumes "ids_inv c" and "co_tasks c t = Some (i, pc0)" and "live pc0 = live pc"
  shows "ids_inv (set_task t i pc c)"
  using assms unfolding ids_inv_def set_task_def by auto

lemma ids_remove:
  assumes inv: "ids_inv c" and t: "co_tasks c t = Some (i, pc0)" and "live pc0" "\<not> live pc"
  shows "ids_inv (set_task t i pc (remove_id i c))"
proof -
  have i: "map_of (co_active c) i = Some t" using assms by (auto simp: ids_inv_def)
  have uniq: "t' = t" if "co_tasks c t' = Some (i, pc')" "live pc'" for t' pc'
  proof -
    have "map_of (co_active c) i = Some t'" using that inv by (auto simp: ids_inv_def)
    with i show ?thesis by simp
  qed
  have "t' = t \<or> j \<noteq> i" if "co_tasks c t' = Some (j, pc')" "live pc'" for t' j pc'
    using that uniq by blast
  with assms i show ?thesis unfolding ids_inv_def set_task_def remove_id_def by auto
qed

lemma ids_register:
  assumes inv: "ids_inv c" and reg: "register_request i c = Some (t, c')" and "live pc" and "co_reader c \<noteq> Closed"
  shows "ids_inv (set_task t i pc c')"
proof -
  have none: "map_of (co_active c) i = None"
    and c': "t = co_next c" "c' = c\<lparr>co_active := AList.update i t (co_active c), co_next := Suc t\<rparr>"
    using reg by (auto simp: register_request_def split: option.splits)
  have "co_tasks c t = None"
    using ids_bound [OF inv, of t] c'(1) by (cases "co_tasks c t") auto
  moreover have "\<not> live pc'" if "co_tasks c t' = Some (i, pc')" for t' pc'
    using ids_active [OF inv that] none by auto
  moreover from calculation have "map_of (co_active c) j \<noteq> Some t" for j using inv by (auto simp: ids_inv_def)
  ultimately show ?thesis using inv assms(3,4) none
    unfolding c'(2) ids_inv_def set_task_def by (auto simp: c'(1) less_Suc_eq)
qed

lemma emit_fields [simp]:
  "co_tasks (emit tag m c) = co_tasks c" "co_reader (emit tag m c) = co_reader c" "co_active (emit tag m c) = co_active c"
  "co_cancelled (emit tag m c) = co_cancelled c"
  by (simp_all add: emit_def)

lemma ids_emit [simp]: "ids_inv (emit tag m c) = ids_inv c"
  by (simp add: ids_inv_def emit_def)

lemma ids_fields [simp]:
  "ids_inv (c\<lparr>co_auth := a\<rparr>) = ids_inv c"
  "ids_inv (c\<lparr>co_session := sid\<rparr>) = ids_inv c"
  "ids_inv (c\<lparr>co_lost := l\<rparr>) = ids_inv c"
  by (simp_all add: ids_inv_def)

lemma ids_reader_open: "ids_inv c \<Longrightarrow> r \<noteq> Closed \<Longrightarrow> ids_inv (c\<lparr>co_reader := r\<rparr>)"
  by (simp add: ids_inv_def)

lemma ids_cancel: "ids_inv c \<Longrightarrow> ids_inv (c\<lparr>co_cancelled := (co_cancelled c)(t := True)\<rparr>)"
  by (auto simp: ids_inv_def)

lemma ids_begin_send:
  "ids_inv c \<Longrightarrow> co_tasks c t = Some (i, pc) \<Longrightarrow> live pc \<Longrightarrow> ids_inv (begin_send t i k after c)"
  unfolding begin_send_def by (auto intro!: ids_set_task)

lemma ids_reader:
  assumes "ids_inv c" and "co_reader c = Reading"
  shows "ids_inv (recv_stream req c)" "ids_inv (recv_inference now req c)" "ids_inv (recv_cancel now i c)"
    "ids_inv (recv_handshake sha now r tok v c)"
proof -
  have auth: "ids_inv (snd (require_auth now c)) \<and> co_reader (snd (require_auth now c)) = Reading" for now
    using assms by (auto simp: require_auth_def split_beta Let_def split: option.splits)
  show "ids_inv (recv_stream req c)"
    using assms by (auto simp: recv_stream_def intro!: ids_register split: option.splits)
  show "ids_inv (recv_inference now req c)"
    using auth [of now]
    by (auto simp: recv_inference_def intro!: ids_register ids_reader_open split: option.splits prod.splits bool.splits)
  show "ids_inv (recv_cancel now i c)"
    using assms by (auto simp: recv_cancel_def ids_inv_def emit_def split: option.splits prod.splits sum.splits)
  show "ids_inv (recv_handshake sha now r tok v c)"
    using assms by (auto simp: recv_handshake_def intro!: ids_reader_open split: prod.splits sum.splits)
qed

lemma ids_close: "ids_inv c \<Longrightarrow> ids_inv (cancel_all c)"
  by (simp add: ids_inv_def cancel_all_def) (metis map_of_SomeD snd_conv image_eqI)

lemma ids_enter:
  assumes "ids_inv c" and "co_tasks c t = Some (ir_request_id req, Entering req sid)"
  shows "ids_inv (enter_stream now t req sid tracked queued c)"
  using assms unfolding enter_stream_def Let_def
  by (auto intro!: ids_set_task ids_begin_send split: sum.splits prod.splits)

lemma ids_step: "srv_step sha c c' \<Longrightarrow> ids_inv c \<Longrightarrow> conn_replies_inv c \<Longrightarrow> ids_inv c'"
proof (induction rule: srv_step.induct)
  case (enter c t i req sid now tracked queued)
  then show ?case using replies_inv_task(2) [OF enter(3,1)] by (intro ids_enter) auto
next
  case (write_ack c t i b)
  then show ?case by (intro ids_reader_open) simp_all
next
  case (read_end c)
  then show ?case by (intro ids_reader_open) simp_all
next
  case (relay_deadline c t i)
  then show ?case by (intro ids_begin_send ids_cancel) auto
next
  case (write_chunk c t i k after)
  then show ?case unfolding locked_write_def by (auto intro!: ids_set_task)
next
  case (write_fails c t i k after e)
  then show ?case unfolding failed_write_def by (auto intro!: ids_set_task)
next
  case (respond c t i resp)
  then show ?case by (auto intro!: ids_set_task)
next
  case (finish c t i)
  then show ?case by (intro ids_remove) auto
next
  case (answer c t i resp)
  then show ?case by (intro ids_remove) auto
qed (auto intro!: ids_reader ids_close ids_begin_send ids_set_task)

lemma ids_init: "ids_inv (conn_init req a)"
  by (simp add: ids_inv_def conn_init_def)

lemma ids_reach:
  assumes "srv_reachable sha c c'" and "ids_inv c" and "conn_replies_inv c"
  shows "ids_inv c' \<and> conn_replies_inv c'"
  using assms by (induction rule: rtranclp_induct) (auto dest: ids_step inv_step)

section \<open>The cancellation fence\<close>

definition fenced :: "(token option \<times> ipc_message) list \<Rightarrow> bool" where
  "fenced out \<longleftrightarrow> (\<forall>xs ys t i k. out = xs @ (Some t, CancelResponse i True) # ys \<longrightarrow>
     (Some t, StreamChunk k) \<in> set ys \<longrightarrow> error_terminal k)"

definition fence_inv :: "connection \<Rightarrow> bool" where
  "fence_inv c \<longleftrightarrow> fenced (co_out c) \<and>
     (\<forall>t i. co_reader c = Acking (Some t) i True \<or> (Some t, CancelResponse i True) \<in> set (co_out c) \<longrightarrow> co_cancelled c t)"

lemma fenced_snoc:
  assumes "fenced out"
    and "\<And>t k. tag = Some t \<Longrightarrow> m = StreamChunk k \<Longrightarrow> \<not> error_terminal k \<Longrightarrow> \<forall>i. (Some t, CancelResponse i True) \<notin> set out"
  shows "fenced (out @ [(tag, m)])"
  unfolding fenced_def
proof (intro allI impI)
  fix xs ys t i k
  assume split: "out @ [(tag, m)] = xs @ (Some t, CancelResponse i True) # ys" and k: "(Some t, StreamChunk k) \<in> set ys"
  then have "ys \<noteq> []" by auto
  then obtain zs z where ys: "ys = zs @ [z]" by (metis rev_exhaust)
  then have out: "out = xs @ (Some t, CancelResponse i True) # zs" and z: "z = (tag, m)"
    using split by (auto simp: append_eq_append_conv2)
  show "error_terminal k"
  proof (cases "(Some t, StreamChunk k) \<in> set zs")
    case True
    then show ?thesis using assms(1) out by (auto simp: fenced_def)
  next
    case False
    then have "z = (Some t, StreamChunk k)" using k ys by auto
    then show ?thesis using assms(2) [of t k] out z by auto
  qed
qed

lemma fence_emit:
  assumes "fence_inv c" and "\<And>k. m \<noteq> StreamChunk k" and "\<And>t i. (tag, m) = (Some t, CancelResponse i True) \<Longrightarrow> co_cancelled c t"
  shows "fence_inv (emit tag m c)"
  using assms unfolding fence_inv_def emit_def by (auto intro!: fenced_snoc)

lemma fence_emit_chunk:
  assumes "fence_inv c" and "\<not> (co_cancelled c t \<and> \<not> error_terminal k)"
  shows "fence_inv (emit (Some t) (StreamChunk k) c)"
  using assms unfolding fence_inv_def emit_def by (auto intro!: fenced_snoc)

lemma fence_fields [simp]:
  "fence_inv (c\<lparr>co_auth := a\<rparr>) = fence_inv c"
  "fence_inv (c\<lparr>co_session := sid\<rparr>) = fence_inv c"
  "fence_inv (c\<lparr>co_active := ac\<rparr>) = fence_inv c"
  "fence_inv (c\<lparr>co_lost := l\<rparr>) = fence_inv c"
  "fence_inv (c\<lparr>co_next := n\<rparr>) = fence_inv c"
  "fence_inv (set_task t i pc c) = fence_inv c"
  by (simp_all add: fence_inv_def set_task_def)

lemma fence_begin_send [simp]: "fence_inv (begin_send t i k after c) = fence_inv c"
  by (simp add: begin_send_def)

lemma fence_cancel: "fence_inv c \<Longrightarrow> fence_inv (c\<lparr>co_cancelled := (co_cancelled c)(t := True)\<rparr>)"
  by (auto simp: fence_inv_def)

lemma fence_reader: "fence_inv c \<Longrightarrow> (\<And>t i. r \<noteq> Acking (Some t) i True) \<Longrightarrow> fence_inv (c\<lparr>co_reader := r\<rparr>)"
  by (auto simp: fence_inv_def)

lemma fence_ack:
  "fence_inv c \<Longrightarrow>
   fence_inv (c\<lparr>co_auth := a, co_cancelled := (co_cancelled c)(t := True), co_reader := Acking (Some t) i True\<rparr>)"
  by (auto simp: fence_inv_def)

lemma fence_recv:
  assumes "fence_inv c"
  shows "fence_inv (recv_stream req c)" "fence_inv (recv_inference now req c)" "fence_inv (recv_cancel now i c)"
    "fence_inv (recv_handshake sha now r tok v c)"
proof -
  have auth: "fence_inv (snd (require_auth now c))" for now
    using assms by (auto simp: require_auth_def split_beta Let_def split: option.splits)
  show "fence_inv (recv_stream req c)"
    using assms by (auto simp: recv_stream_def register_request_def not_authenticated_def duplicate_id_def
        intro!: fence_emit split: option.splits)
  show "fence_inv (recv_inference now req c)"
    using auth [of now]
    by (auto simp: recv_inference_def register_request_def not_authenticated_def duplicate_id_def
        intro!: fence_emit fence_reader split: option.splits prod.splits bool.splits)
  show "fence_inv (recv_cancel now i c)"
    using assms by (auto simp: recv_cancel_def not_authenticated_def fence_ack intro!: fence_emit fence_reader
        split: option.splits prod.splits sum.splits)
  show "fence_inv (recv_handshake sha now r tok v c)"
    using assms by (auto simp: recv_handshake_def intro!: fence_emit fence_reader split: prod.splits sum.splits)
qed

lemma fence_step: "srv_step sha c c' \<Longrightarrow> fence_inv c \<Longrightarrow> fence_inv c'"
proof (induction rule: srv_step.induct)
  case (write_ack c t i b)
  then show ?case by (intro fence_reader fence_emit) (auto simp: fence_inv_def)
next
  case (write_chunk c t i k after)
  then show ?case unfolding locked_write_def by (auto intro!: fence_emit_chunk)
next
  case (respond c t i resp)
  then show ?case by (auto intro!: fence_emit)
next
  case (read_other c m)
  then show ?case by (auto intro!: fence_emit)
next
  case (close c)
  then show ?case by (auto simp: cancel_all_def fence_inv_def)
next
  case (enter c t i req sid now tracked queued)
  then show ?case by (simp add: enter_stream_def Let_def split: sum.splits prod.splits)
qed (auto simp: failed_write_def remove_id_def intro!: fence_recv fence_reader fence_cancel)

lemma fence_reach: "srv_reachable sha c c' \<Longrightarrow> fence_inv c \<Longrightarrow> fence_inv c'"
  by (induction rule: rtranclp_induct) (auto dest: fence_step)

section \<open>Properties of a connection\<close>

text \<open>
  C10: Cancellation is a fence: once the acknowledgement of a cancel request has been written, no further
  data frame of the cancelled stream is written to the connection, only its final error frame may be.
\<close>

theorem cancel_ack_fences_stream:
  assumes run: "srv_reachable sha (conn_init req a) c"
    and ack: "co_out c = xs @ (Some t, CancelResponse i True) # ys"
    and later: "(Some t, StreamChunk k) \<in> set ys"
  shows "sc_is_final k \<and> sc_error k \<noteq> None"
proof -
  have "fence_inv (conn_init req a)" by (simp add: fence_inv_def fenced_def conn_init_def)
  from fence_reach [OF run this] have "fenced (co_out c)" by (simp add: fence_inv_def)
  then have "error_terminal k" using ack later unfolding fenced_def by blast
  then show ?thesis by (simp add: error_terminal_def)
qed

text \<open>
  C36: Every accepted request is answered once: the frames written for it carry its id, at most the last
  of them is final, and when its task has ended with every write delivered there is exactly one final frame.
\<close>

theorem one_final_frame_per_request:
  assumes run: "srv_reachable sha (conn_init req a) c" and task: "co_tasks c t = Some (i, pc)"
  shows "(\<forall>m \<in> set (replies t (co_out c)). reply_id m = i) \<and>
    (\<forall>m \<in> set (butlast (replies t (co_out c))). \<not> is_terminal m) \<and>
    (pc = Done \<and> \<not> co_lost c t \<longrightarrow>
       replies t (co_out c) \<noteq> [] \<and> is_terminal (last (replies t (co_out c))))"
proof -
  note inv = replies_inv_task [OF inv_reach [OF run inv_init] task]
  have "unanswered (replies t (co_out c)) \<or> answered (replies t (co_out c))"
    using inv(2) by (cases pc) auto
  then have "\<forall>m \<in> set (butlast (replies t (co_out c))). \<not> is_terminal m"
    by (auto simp: unanswered_def answered_def dest: in_set_butlastD)
  moreover have "answered (replies t (co_out c))" if "pc = Done" "\<not> co_lost c t"
    using inv(2) that by simp
  ultimately show ?thesis using inv(3) by (auto simp: answered_def)
qed

text \<open>
  Requests in flight are kept apart and none outlives its connection unnoticed: at any time two
  unfinished requests of a connection have different ids, and once the connection is closed every
  unfinished request has been cancelled.
\<close>

theorem active_ids_unique_and_cancelled:
  assumes run: "srv_reachable sha (conn_init req a) c"
    and t: "co_tasks c t = Some (i, pc)" "live pc"
  shows "(\<forall>t' pc'. co_tasks c t' = Some (i, pc') \<and> live pc' \<longrightarrow> t' = t) \<and>
    (co_reader c = Closed \<longrightarrow> co_cancelled c t)"
proof -
  have inv: "ids_inv c" using ids_reach [OF run ids_init inv_init] by blast
  have own: "map_of (co_active c) i = Some t" by (rule ids_active [OF inv t])
  have "t' = t" if "co_tasks c t' = Some (i, pc')" "live pc'" for t' pc'
    using ids_active [OF inv that] own by simp
  moreover have "co_cancelled c t" if "co_reader c = Closed"
    using inv own that by (simp add: ids_inv_def)
  ultimately show ?thesis by blast
qed

section \<open>A run of a connection\<close>

text \<open>
  A client shakes hands, starts a stream, cancels it while a token waits for the writer lock, gets the
  acknowledgement and then the final error frame.
\<close>

definition sample_request :: inference_request where
  "sample_request = \<lparr>ir_request_id = 7, ir_model_id = ''m'', ir_prompt = ''p'', ir_parameters = params_default\<lparr>p_stream := True\<rparr>\<rparr>"

definition sample_auth :: "nat \<Rightarrow> session_auth" where
  "sample_auth n = (auth_new (\<lambda>s. []) ''t'' 60)\<lparr>sa_sessions := [(''0a'', (session_new 5)\<lparr>request_count := n\<rparr>)]\<rparr>"

definition sample_conn :: "nat \<Rightarrow> task_pc \<Rightarrow> bool \<Rightarrow> reader_pc \<Rightarrow> (token option \<times> ipc_message) list \<Rightarrow> connection" where
  "sample_conn n pc cancelled r out =
     \<lparr>co_require_auth = True, co_auth = sample_auth n, co_session = Some ''0a'', co_active = [(7, 0)],
      co_cancelled = (\<lambda>_. False)(0 := cancelled), co_next = 1, co_tasks = [0 \<mapsto> (7, pc)], co_reader = r,
      co_out = (None, HandshakeAck ''0a'' V1) # out, co_lost = (\<lambda>_. False)\<rparr>"

lemma sample_validate:
  "n < 10 \<Longrightarrow> auth_validate 5 ''0a'' (sample_auth n) = (Inr (), sample_auth (Suc n))"
  by (simp add: auth_validate_def sample_auth_def session_new_def charge_request_def auth_new_def auth_consts wrap_add_def
      two64_numeral Let_def)

lemma sample_params: "params_validate (params_default\<lparr>p_stream := True\<rparr>) = Inr ()"
  by (simp add: params_validate_def params_default_def f32_0_7_def f32_0_9_def f32_le_def)

lemma sample_run_waiting:
  "srv_reachable (\<lambda>s. []) (conn_init True (auth_new (\<lambda>s. []) ''t'' 60))
     (sample_conn 1 (Sending (chunk_token 7 42) Continue) False Reading [])"
  (is "srv_reachable ?sha ?c0 _")
proof -
  let ?c1 = "recv_handshake ?sha 5 [10] ''t'' None ?c0"
  let ?k = "chunk_token 7 42"
  have c1: "?c1 = \<lparr>co_require_auth = True, co_auth = sample_auth 0, co_session = Some ''0a'', co_active = [],
      co_cancelled = (\<lambda>_. False), co_next = 0, co_tasks = Map.empty, co_reader = Reading,
      co_out = [(None, HandshakeAck ''0a'' V1)], co_lost = (\<lambda>_. False)\<rparr>"
    by (simp add: recv_handshake_def conn_init_def sample_login emit_def negotiate_def)
      (simp add: sample_auth_def session_new_def)
  have s1: "srv_step ?sha ?c0 ?c1" by (rule read_handshake) (simp add: conn_init_def)
  have "srv_step ?sha ?c1 (recv_stream sample_request ?c1)"
    by (rule read_stream) (simp_all add: c1 sample_request_def)
  moreover have "recv_stream sample_request ?c1 = sample_conn 0 (Entering sample_request ''0a'') False Reading []"
    by (simp add: c1 recv_stream_def register_request_def sample_conn_def set_task_def sample_request_def fun_eq_iff)
  ultimately have s2: "srv_step ?sha ?c1 (sample_conn 0 (Entering sample_request ''0a'') False Reading [])" by simp
  have "srv_step ?sha (sample_conn 0 (Entering sample_request ''0a'') False Reading [])
      (enter_stream 5 0 sample_request ''0a'' True (Inr ()) (sample_conn 0 (Entering sample_request ''0a'') False Reading []))"
    by (rule enter) (simp add: sample_conn_def)
  moreover have "enter_stream 5 0 sample_request ''0a'' True (Inr ()) (sample_conn 0 (Entering sample_request ''0a'') False Reading []) =
      sample_conn 1 Relaying False Reading []"
    by (simp add: enter_stream_def sample_conn_def sample_validate sample_request_def request_validate_def sample_params set_task_def)
  ultimately have s3: "srv_step ?sha (sample_conn 0 (Entering sample_request ''0a'') False Reading []) (sample_conn 1 Relaying False Reading [])"
    by simp
  have "srv_step ?sha (sample_conn 1 Relaying False Reading []) (begin_send 0 7 ?k Continue (sample_conn 1 Relaying False Reading []))"
    by (rule relay_item [where it = "ItemToken 42"]) (simp_all add: sample_conn_def)
  then have s4: "srv_step ?sha (sample_conn 1 Relaying False Reading []) (sample_conn 1 (Sending ?k Continue) False Reading [])"
    by (simp add: begin_send_def sample_conn_def set_task_def)
  show ?thesis
    by (rule srv_then [OF _ s4], rule srv_then [OF _ s3],
        rule srv_then [OF _ s2], rule srv_first [OF s1])
qed

definition sample_ack :: "token option \<times> ipc_message" where
  "sample_ack = (Some 0, CancelResponse 7 True)"

definition sample_end :: stream_chunk where
  "sample_end = chunk_error 7 ''Stream send error: cancelled''"

lemma sample_run:
  "srv_reachable (\<lambda>s. []) (conn_init True (auth_new (\<lambda>s. []) ''t'' 60))
     (sample_conn 2 Finishing True Reading [sample_ack, (Some 0, StreamChunk sample_end)])"
  (is "srv_reachable ?sha _ _")
proof -
  let ?k = "chunk_token 7 42" and ?e = "''Stream send error: cancelled''" and ?ack = sample_ack
  have "srv_step ?sha (sample_conn 1 (Sending ?k Continue) False Reading []) (recv_cancel 5 7 (sample_conn 1 (Sending ?k Continue) False Reading []))"
    by (rule read_cancel) (simp add: sample_conn_def)
  then have s5: "srv_step ?sha (sample_conn 1 (Sending ?k Continue) False Reading [])
      (sample_conn 2 (Sending ?k Continue) True (Acking (Some 0) 7 True) [])"
    by (simp add: recv_cancel_def sample_conn_def sample_validate numeral_2_eq_2)
  have "srv_step ?sha (sample_conn 2 (Sending ?k Continue) True (Acking (Some 0) 7 True) [])
      ((emit (Some 0) (CancelResponse 7 True) (sample_conn 2 (Sending ?k Continue) True (Acking (Some 0) 7 True) []))\<lparr>co_reader := Reading\<rparr>)"
    by (rule write_ack) (simp add: sample_conn_def)
  then have s6: "srv_step ?sha (sample_conn 2 (Sending ?k Continue) True (Acking (Some 0) 7 True) [])
      (sample_conn 2 (Sending ?k Continue) True Reading [?ack])"
    by (simp add: emit_def sample_conn_def sample_ack_def)
  have "srv_step ?sha (sample_conn 2 (Sending ?k Continue) True Reading [?ack])
      (locked_write 0 7 ?k Continue (sample_conn 2 (Sending ?k Continue) True Reading [?ack]))"
    by (rule write_chunk) (simp add: sample_conn_def)
  then have s7: "srv_step ?sha (sample_conn 2 (Sending ?k Continue) True Reading [?ack])
      (sample_conn 2 (Failing ?e) True Reading [?ack])"
    by (simp add: locked_write_def sample_conn_def set_task_def error_terminal_def chunk_token_def)
  have "srv_step ?sha (sample_conn 2 (Failing ?e) True Reading [?ack])
      (begin_send 0 7 (chunk_error 7 ?e) Ignore (sample_conn 2 (Failing ?e) True Reading [?ack]))"
    by (rule report) (simp add: sample_conn_def)
  then have s8: "srv_step ?sha (sample_conn 2 (Failing ?e) True Reading [?ack])
      (sample_conn 2 (Sending (chunk_error 7 ?e) Ignore) True Reading [?ack])"
    by (simp add: begin_send_def sample_conn_def set_task_def)
  have "srv_step ?sha (sample_conn 2 (Sending (chunk_error 7 ?e) Ignore) True Reading [?ack])
      (locked_write 0 7 (chunk_error 7 ?e) Ignore (sample_conn 2 (Sending (chunk_error 7 ?e) Ignore) True Reading [?ack]))"
    by (rule write_chunk) (simp add: sample_conn_def)
  then have s9: "srv_step ?sha (sample_conn 2 (Sending (chunk_error 7 ?e) Ignore) True Reading [?ack])
      (sample_conn 2 Finishing True Reading [?ack, (Some 0, StreamChunk sample_end)])"
    by (simp add: locked_write_def sample_conn_def set_task_def emit_def sample_end_def)
  show ?thesis
    by (rule srv_then [OF _ s9], rule srv_then [OF _ s8],
        rule srv_then [OF _ s7], rule srv_then [OF _ s6],
        rule srv_then [OF sample_run_waiting s5])
qed

theorem cancel_ack_fences_stream_witness: "sc_is_final sample_end \<and> sc_error sample_end \<noteq> None"
  by (rule cancel_ack_fences_stream [OF sample_run, of "[(None, HandshakeAck ''0a'' V1)]" 0 7 "[(Some 0, StreamChunk sample_end)]"])
    (simp_all add: sample_conn_def sample_ack_def)

theorem one_final_frame_per_request_witness:
  "replies 0 (co_out (sample_conn 2 Finishing True Reading [sample_ack, (Some 0, StreamChunk sample_end)])) =
     [StreamChunk sample_end] \<and> reply_id (StreamChunk sample_end) = 7"
  using one_final_frame_per_request [OF sample_run, of 0 7 Finishing]
  by (simp add: sample_conn_def sample_ack_def replies_def)

theorem active_ids_unique_and_cancelled_witness:
  "\<not> co_cancelled (sample_conn 1 (Sending (chunk_token 7 42) Continue) False Reading []) 0 \<and>
   co_cancelled (cancel_all (sample_conn 1 (Sending (chunk_token 7 42) Continue) False Closing [])) 0"
proof -
  let ?pc = "Sending (chunk_token 7 42) Continue"
  have "srv_step (\<lambda>s. []) (sample_conn 1 ?pc False Reading []) ((sample_conn 1 ?pc False Reading [])\<lparr>co_reader := Closing\<rparr>)"
    by (rule read_end) (simp add: sample_conn_def)
  then have a: "srv_step (\<lambda>s. []) (sample_conn 1 ?pc False Reading []) (sample_conn 1 ?pc False Closing [])"
    by (simp add: sample_conn_def)
  have b: "srv_step (\<lambda>s. []) (sample_conn 1 ?pc False Closing []) (cancel_all (sample_conn 1 ?pc False Closing []))"
    by (rule close) (simp add: sample_conn_def)
  have "srv_reachable (\<lambda>s. []) (conn_init True (auth_new (\<lambda>s. []) ''t'' 60)) (cancel_all (sample_conn 1 ?pc False Closing []))"
    by (rule srv_then [OF srv_then [OF sample_run_waiting a] b])
  moreover have "co_tasks (cancel_all (sample_conn 1 ?pc False Closing [])) 0 = Some (7, ?pc)"
    and closed: "co_reader (cancel_all (sample_conn 1 ?pc False Closing [])) = Closed"
    by (simp_all add: cancel_all_def sample_conn_def)
  ultimately have "co_cancelled (cancel_all (sample_conn 1 ?pc False Closing [])) 0"
    using active_ids_unique_and_cancelled live.simps(5) by blast
  then show ?thesis by (simp add: sample_conn_def)
qed

end
