(* ===== verification/Ipc_Handler.thy ===== *)
theory Ipc_Handler
  imports Daemon_Boot Stream_Server
begin

text \<open>
  The message handler (\<open>ipc/handler.rs\<close>, \<open>ipc/handler_inference.rs\<close>, \<open>ipc/handler_models.rs\<close>,
  \<open>ipc/health_handler.rs\<close>): authentication of every message that changes state, the answers to health,
  metrics and model queries, non-streaming inference with cancellation and deadline, warm-up, and loading
  and unloading of models.

  Inference and warm-up wait for the worker. What the rest of the system does meanwhile is an argument, an
  arbitrary function on the state, together with what the \<open>select!\<close> finds when it wakes up; \<open>None\<close> means
  that nothing is ready and the call is still waiting.
\<close>

section \<open>State\<close>

datatype handler_error =
    HProtocol protocol_error
  | HAuth auth_error
  | HNotAuthenticated
  | HQueueFull string
  | HShuttingDown
  | HStreamSend string

primrec show_handler_error :: "handler_error \<Rightarrow> string" where
  "show_handler_error (HProtocol e) = ''Protocol error: '' @ show_protocol_error e"
| "show_handler_error (HAuth e) = ''Authentication error: '' @ show_auth_error e"
| "show_handler_error HNotAuthenticated = ''Not authenticated''"
| "show_handler_error (HQueueFull m) = ''Queue error: '' @ m"
| "show_handler_error HShuttingDown = ''Server is shutting down''"
| "show_handler_error (HStreamSend m) = ''Stream send error: '' @ m"

record handler =
  ih_auth :: session_auth
  ih_require_auth :: bool
  ih_queue :: request_queue
  ih_shared :: shared
  ih_next_chan :: chan
  ih_shutdown :: coordinator
  ih_health :: health_checker
  ih_metrics :: metrics_store
  ih_lifecycle :: model_lifecycle

text \<open>
  What a call depends on besides the state: the hash of tokens, clocks, random bytes, the loading
  environment, the formatting of times and the division of \<open>f64\<close>.
\<close>

record call_env =
  ce_sha :: "string \<Rightarrow> byte list"
  ce_now :: instant
  ce_random :: "byte list"
  ce_load :: load_env
  ce_fs :: "nat \<Rightarrow> fs"
  ce_base :: string
  ce_format_time :: "instant \<Rightarrow> string"
  ce_mean :: "f64 \<Rightarrow> u64 \<Rightarrow> f64"

record awaited =
  aw_meanwhile :: "handler \<Rightarrow> handler"
  aw_closed :: bool      \<comment> \<open>the worker dropped the channel without an answer\<close>
  aw_cancelled :: bool   \<comment> \<open>the caller's token is cancelled\<close>
  aw_now :: instant

section \<open>Authentication\<close>

definition handler_require_auth ::
  "instant \<Rightarrow> string option \<Rightarrow> handler \<Rightarrow> (handler_error + unit) \<times> handler" where
  "handler_require_auth now who H =
     (if \<not> ih_require_auth H then (Inr (), H)
      else
        (case who of
           None \<Rightarrow> (Inl HNotAuthenticated, H)
         | Some sid \<Rightarrow>
             (case auth_validate now sid (ih_auth H) of
                (Inl e, a) \<Rightarrow> (Inl (HAuth e), H\<lparr>ih_auth := a\<rparr>)
              | (Inr _, a) \<Rightarrow> (Inr (), H\<lparr>ih_auth := a\<rparr>))))"

section \<open>Inference\<close>

definition classify_worker_error :: "string \<Rightarrow> inference_error_code" where
  "classify_worker_error msg =
     (if contains_str msg ''Request cancelled'' then CodeCancelled
      else if contains_str msg ''Deadline exceeded'' then CodeDeadlineExceeded
      else if contains_str msg ''Memory limit exceeded'' \<or> contains_str msg ''queue full'' \<or> contains_str msg ''Queue full''
        then CodeAdmissionRejected
      else if contains_str msg ''Model not loaded'' then CodeModelNotLoaded
      else if contains_str msg ''Context length exceeded'' \<or> contains_str msg ''Input validation failed''
        then CodeInputInvalid
      else CodeExecutionFailed)"

definition enqueue_failure :: "request_id \<Rightarrow> queue_error \<Rightarrow> inference_response" where
  "enqueue_failure i e =
     response_error_coded i (show_queue_error e)
       (case e of ContextTooLarge _ _ \<Rightarrow> CodeInputInvalid | _ \<Rightarrow> CodeAdmissionRejected)"

definition stopped :: "request_id \<Rightarrow> inference_error \<Rightarrow> inference_response" where
  "stopped i e =
     response_error_coded i (show_inference_error e)
       (case e of DeadlineExceeded _ \<Rightarrow> CodeDeadlineExceeded | _ \<Rightarrow> CodeCancelled)"

text \<open>\<open>None\<close> is the error of a channel whose sender is gone.\<close>

fun worker_outcome :: "request_id \<Rightarrow> reply option \<Rightarrow> inference_response" where
  "worker_outcome i (Some (Inr r)) = response_success i (r_output r) (r_tokens_generated r) (r_finished r)"
| "worker_outcome i (Some (Inl e)) = response_error_coded i e (classify_worker_error e)"
| "worker_outcome i None = response_error_coded i ''worker dropped response channel'' CodeExecutionFailed"

definition fresh_chan :: "handler \<Rightarrow> chan \<times> handler" where
  "fresh_chan H = (ih_next_chan H, H\<lparr>ih_next_chan := Suc (ih_next_chan H)\<rparr>)"

text \<open>Leaving the function drops the stop-on-drop guard, then the guard of the shutdown coordinator.\<close>

definition leave_inference :: "flag option \<Rightarrow> handler \<Rightarrow> handler" where
  "leave_inference f H =
     (let H' = (case f of None \<Rightarrow> H | Some f \<Rightarrow> H\<lparr>ih_shared := set_flag f (ih_shared H)\<rparr>)
      in H'\<lparr>ih_shutdown := guard_drop (ih_shutdown H')\<rparr>)"

text \<open>The biased \<open>select!\<close>: an available result first, then cancellation, then the deadline.\<close>

definition select_outcome ::
  "request_id \<Rightarrow> chan \<Rightarrow> flag \<Rightarrow> u64 option \<Rightarrow> instant option \<Rightarrow> awaited \<Rightarrow> handler \<Rightarrow> (inference_response \<times> handler) option" where
  "select_outcome i ch f timeout dl w H =
     (let H1 = aw_meanwhile w H;
          stop = (\<lambda>e. Some (stopped i e, H1\<lparr>ih_shared := set_flag f (ih_shared H1)\<rparr>))
      in case shared.replies (ih_shared H1) ch of
           Some r \<Rightarrow> Some (worker_outcome i (Some r), H1)
         | None \<Rightarrow>
             if aw_closed w then Some (worker_outcome i None, H1)
             else if aw_cancelled w then stop Cancelled
             else (case dl of
                     None \<Rightarrow> None
                   | Some d \<Rightarrow>
                       if d \<le> aw_now w
                       then stop (DeadlineExceeded (case timeout of None \<Rightarrow> 0 | Some t \<Rightarrow> t)) else None))"

definition handle_inference_controlled ::
  "instant \<Rightarrow> awaited \<Rightarrow> inference_request \<Rightarrow> handler \<Rightarrow> (inference_response \<times> handler) option" where
  "handle_inference_controlled now w req H =
     (let i = ir_request_id req in
      case track (ih_shutdown H) of
        (False, sd) \<Rightarrow> Some (response_error_coded i ''Server is shutting down'' CodeShuttingDown, H\<lparr>ih_shutdown := sd\<rparr>)
      | (True, sd) \<Rightarrow>
     (let H1 = H\<lparr>ih_shutdown := sd\<rparr> in
      case request_validate req of
        Inl e \<Rightarrow> Some (response_error_coded i (show_protocol_error e) CodeInputInvalid, leave_inference None H1)
      | Inr _ \<Rightarrow>
     (case params_validate (ir_parameters req) of
        Inl e \<Rightarrow> Some (response_error_coded i (show_inference_error e) CodeInputInvalid, leave_inference None H1)
      | Inr _ \<Rightarrow>
     (let timeout = p_timeout_ms (ir_parameters req);
          dl = map_option (\<lambda>ms. now + from_millis ms) timeout;
          (f, sh) = new_flag (ih_shared H1);
          (ch, H2) = fresh_chan (H1\<lparr>ih_shared := sh\<rparr>);
          (res, q, sh') = enqueue_controlled now (ir_model_id req) (ir_prompt req) (ir_parameters req) priority.Normal ch f
                            (ih_queue H2) (ih_shared H2);
          H3 = H2\<lparr>ih_queue := q, ih_shared := sh'\<rparr>
      in case res of
           Inl e \<Rightarrow> Some (enqueue_failure i e, leave_inference (Some f) H3)
         | Inr _ \<Rightarrow>
             map_option (\<lambda>(resp, H4). (resp, leave_inference (Some f) H4)) (select_outcome i ch f timeout dl w H3)))))"

text \<open>\<open>handle_inference\<close> passes a token nobody else holds, so the caller cannot cancel it.\<close>

definition handle_inference ::
  "instant \<Rightarrow> awaited \<Rightarrow> inference_request \<Rightarrow> handler \<Rightarrow> (inference_response \<times> handler) option" where
  "handle_inference now w req H = handle_inference_controlled now (w\<lparr>aw_cancelled := False\<rparr>) req H"

definition elapsed_ms :: "instant \<Rightarrow> instant \<Rightarrow> u64" where
  "elapsed_ms start now = (now - start) div 1000000"

definition handle_warmup :: "instant \<Rightarrow> awaited \<Rightarrow> string \<Rightarrow> handler \<Rightarrow> (warmup_response \<times> handler) option" where
  "handle_warmup now w m H =
     (let (ch, H1) = fresh_chan H;
          (res, q, sh) = enqueue_with_response now m ''Hello'' (params_default\<lparr>p_max_tokens := 1\<rparr>) Low ch
                           (ih_queue H1) (ih_shared H1);
          H2 = H1\<lparr>ih_queue := q, ih_shared := sh\<rparr>
      in case res of
           Inl e \<Rightarrow> Some (warmup_error m (show_queue_error e) (elapsed_ms now now), H2)
         | Inr _ \<Rightarrow>
             (let H3 = aw_meanwhile w H2; ms = elapsed_ms now (aw_now w) in
              case shared.replies (ih_shared H3) ch of
                Some (Inr _) \<Rightarrow> Some (warmup_success m ms, H3)
              | Some (Inl e) \<Rightarrow> Some (warmup_error m e ms, H3)
              | None \<Rightarrow> if aw_closed w then Some (warmup_error m ''worker unavailable'' ms, H3) else None))"

section \<open>Queries and model operations\<close>

definition model_info_of :: "call_env \<Rightarrow> loaded_model_info \<Rightarrow> model_info" where
  "model_info_of ce m =
     \<lparr>mi_handle_id = li_handle_id m, mi_name = li_name m, mi_format = li_format m, mi_size_bytes = li_size_bytes m,
      mi_memory_bytes = li_memory_bytes m, mi_state = state_as_str (li_state m), mi_request_count = li_request_count m,
      mi_avg_latency_ms = (if 0 < li_request_count m then ce_mean ce (li_total_latency_ms m) (li_request_count m) else F32 0),
      mi_loaded_at = ce_format_time ce (li_loaded_at m)\<rparr>"

definition handle_models_request :: "call_env \<Rightarrow> handler \<Rightarrow> models_list_response" where
  "handle_models_request ce H =
     (let models = list_models (ml_registry (ih_lifecycle H))
      in \<lparr>ml_models = map (model_info_of ce) models,
          ml_total_memory_bytes = sum_list (map li_memory_bytes models) mod two64\<rparr>)"

definition health_handle :: "instant \<Rightarrow> health_check_type \<Rightarrow> handler \<Rightarrow> health_check_response" where
  "health_handle now ty H =
     (let st = sd_state (ih_shutdown H);
          models = registry_count (ml_registry (ih_lifecycle H));
          queue_len = rq_len (ih_queue H)
      in case ty of
           Liveness \<Rightarrow> \<lparr>hr_check_type = Liveness, hr_ok = is_alive (ih_health H), hr_report = None\<rparr>
         | Readiness \<Rightarrow> \<lparr>hr_check_type = Readiness, hr_ok = is_ready (ih_health H) st models queue_len, hr_report = None\<rparr>
         | FullCheck \<Rightarrow>
             (let report = health_report_of now (ih_health H) st models (total_memory (ml_registry (ih_lifecycle H))) queue_len
              in \<lparr>hr_check_type = FullCheck, hr_ok = hr_ready report, hr_report = Some report\<rparr>))"

text \<open>The blocking task of the load does not panic: its operations are total in the model.\<close>

definition handle_model_load :: "call_env \<Rightarrow> model_load_request \<Rightarrow> handler \<Rightarrow> model_load_response \<times> handler" where
  "handle_model_load ce req H =
     (let shown = show_model_op_error (le_show_io (ce_load ce)) (le_disp (ce_load ce)) in
      case prepare_model (ce_load ce) (ce_fs ce) (ce_base ce) (lq_path req) (lq_model_id req) of
        Inl e \<Rightarrow> (load_error (shown e), H)
      | Inr pr \<Rightarrow>
          (case register_prepared (ce_now ce) pr (ih_lifecycle H) of
             (Inl e, lc) \<Rightarrow> (load_error (shown e), H\<lparr>ih_lifecycle := lc\<rparr>)
           | (Inr (m, h), lc) \<Rightarrow> (load_success m h, H\<lparr>ih_lifecycle := lc\<rparr>)))"

definition handle_model_unload :: "call_env \<Rightarrow> string \<Rightarrow> handler \<Rightarrow> model_unload_response \<times> handler" where
  "handle_model_unload ce m H =
     (case unload_model m (ih_lifecycle H) of
        (Inl e, lc) \<Rightarrow> (unload_error m (show_model_op_error (le_show_io (ce_load ce)) (le_disp (ce_load ce)) e), H\<lparr>ih_lifecycle := lc\<rparr>)
      | (Inr _, lc) \<Rightarrow> (unload_success m, H\<lparr>ih_lifecycle := lc\<rparr>))"

section \<open>Dispatch\<close>

type_synonym answer = "ipc_message \<times> string option"

definition authorized ::
  "instant \<Rightarrow> string option \<Rightarrow> handler \<Rightarrow> (handler \<Rightarrow> (ipc_message \<times> handler) option)
   \<Rightarrow> ((handler_error + answer) \<times> handler) option" where
  "authorized now who H act =
     (case handler_require_auth now who H of
        (Inl e, H1) \<Rightarrow> Some (Inl e, H1)
      | (Inr _, H1) \<Rightarrow> map_option (\<lambda>(m, H2). (Inr (m, None), H2)) (act H1))"

definition handle_message ::
  "call_env \<Rightarrow> awaited \<Rightarrow> ipc_message \<Rightarrow> string option \<Rightarrow> handler \<Rightarrow> ((handler_error + answer) \<times> handler) option" where
  "handle_message ce w msg who H =
     (case msg of
        Handshake tok v \<Rightarrow>
          (case authenticate (ce_sha ce) (ce_now ce) (ce_random ce) tok (ih_auth H) of
             (Inl e, a) \<Rightarrow> Some (Inl (HAuth e), H\<lparr>ih_auth := a\<rparr>)
           | (Inr sid, a) \<Rightarrow> Some (Inr (HandshakeAck sid (negotiate v), Some sid), H\<lparr>ih_auth := a\<rparr>))
      | InferenceRequest req \<Rightarrow>
          authorized (ce_now ce) who H (\<lambda>H1. map_option (apfst InferenceResponse) (handle_inference (ce_now ce) w req H1))
      | HealthCheck ty \<Rightarrow> Some (Inr (HealthResponse (health_handle (ce_now ce) ty H), None), H)
      | MetricsRequest \<Rightarrow> Some (Inr (MetricsResponse (snapshot (ih_metrics H)), None), H)
      | ModelsRequest \<Rightarrow> Some (Inr (ModelsResponse (handle_models_request ce H), None), H)
      | CancelRequest i \<Rightarrow>
          authorized (ce_now ce) who H
            (\<lambda>H1. let (c, sh) = cancel i (ih_queue H1) (ih_shared H1) in Some (CancelResponse i c, H1\<lparr>ih_shared := sh\<rparr>))
      | WarmupRequest r \<Rightarrow>
          authorized (ce_now ce) who H (\<lambda>H1. map_option (apfst WarmupResponse) (handle_warmup (ce_now ce) w (wq_model_id r) H1))
      | ModelLoadRequest r \<Rightarrow>
          authorized (ce_now ce) who H (\<lambda>H1. Some (apfst ModelLoadResponse (handle_model_load ce r H1)))
      | ModelUnloadRequest m \<Rightarrow>
          authorized (ce_now ce) who H (\<lambda>H1. Some (apfst ModelUnloadResponse (handle_model_unload ce m H1)))
      | _ \<Rightarrow> Some (Inr (ErrorMessage 400 ''Unexpected message type'', None), H))"

definition process ::
  "json \<Rightarrow> call_env \<Rightarrow> awaited \<Rightarrow> string \<Rightarrow> string option \<Rightarrow> handler \<Rightarrow> ((handler_error + string \<times> string option) \<times> handler) option" where
  "process J ce w bytes who H =
     (case decode_message J bytes of
        Inl e \<Rightarrow> Some (Inl (HProtocol e), H)
      | Inr msg \<Rightarrow>
          map_option (\<lambda>(res, H').
            ((case res of
                Inl e \<Rightarrow> Inl e
              | Inr (resp, new_session) \<Rightarrow>
                  (case encode_message J resp of Inl e \<Rightarrow> Inl (HProtocol e) | Inr out \<Rightarrow> Inr (out, new_session))), H'))
            (handle_message ce w msg who H))"

section \<open>Only authenticated callers change anything\<close>

definition protected_message :: "ipc_message \<Rightarrow> bool" where
  "protected_message m =
     (case m of InferenceRequest _ \<Rightarrow> True | CancelRequest _ \<Rightarrow> True | WarmupRequest _ \<Rightarrow> True
      | ModelLoadRequest _ \<Rightarrow> True | ModelUnloadRequest _ \<Rightarrow> True | _ \<Rightarrow> False)"

definition session_valid :: "instant \<Rightarrow> string option \<Rightarrow> handler \<Rightarrow> bool" where
  "session_valid now who H = (case who of None \<Rightarrow> False | Some sid \<Rightarrow> fst (auth_validate now sid (ih_auth H)) = Inr ())"

lemma authorized_invalid:
  assumes "ih_require_auth H" "\<not> session_valid now who H"
  shows "\<exists>e a. authorized now who H act = Some (Inl e, H\<lparr>ih_auth := a\<rparr>)"
proof (cases who)
  case None
  then have "authorized now who H act = Some (Inl HNotAuthenticated, H\<lparr>ih_auth := ih_auth H\<rparr>)"
    using assms by (simp add: authorized_def handler_require_auth_def)
  then show ?thesis by blast
next
  case (Some sid)
  then show ?thesis using assms
    by (cases "auth_validate now sid (ih_auth H)") (auto simp: authorized_def handler_require_auth_def session_valid_def split: sum.splits)
qed

text \<open>
  C22: Without a valid session nothing but the authentication state can change: when sessions are required
  and the caller's is missing, unknown, expired or over its rate limit, every message that is not a
  handshake or a query is refused with an error, at once, and no message changes the queue, the
  cancellation flags, the models, the engine, the metrics or the shutdown state.
\<close>

theorem unauthenticated_changes_nothing:
  assumes "ih_require_auth H" "\<not> session_valid (ce_now ce) who H"
  shows "\<exists>res a. handle_message ce w msg who H = Some (res, H\<lparr>ih_auth := a\<rparr>) \<and> (protected_message msg \<longrightarrow> isl res)"
proof -
  note refused = authorized_invalid [OF assms]
  have same: "\<exists>a. H = H\<lparr>ih_auth := a\<rparr>" by (rule exI [of _ "ih_auth H"]) simp
  show ?thesis
  proof (cases "protected_message msg")
    case True
    then obtain act where "handle_message ce w msg who H = authorized (ce_now ce) who H act"
      by (cases msg) (auto simp: protected_message_def handle_message_def)
    then show ?thesis using refused [of act] by auto
  next
    case False
    then show ?thesis using same
      by (cases msg) (auto simp: protected_message_def handle_message_def split: prod.splits sum.splits)
  qed
qed

section \<open>Every inference request gets one explicit answer\<close>

definition answer_explicit :: "inference_response \<Rightarrow> bool" where
  "answer_explicit r \<longleftrightarrow>
     resp_error r = None \<and> resp_error_code r = None \<or>
     resp_error r \<noteq> None \<and> resp_error_code r \<noteq> None \<and> resp_output r = [] \<and> resp_tokens_generated r = 0 \<and> resp_finished r"

lemmas response_defs = response_success_def response_error_coded_def enqueue_failure_def stopped_def answer_explicit_def

lemma worker_outcome_explicit:
  "answer_explicit (worker_outcome i r) \<and> resp_request_id (worker_outcome i r) = i"
  by (cases "(i, r)" rule: worker_outcome.cases) (auto simp: response_defs)

lemma guard_balance: "n < two32 \<Longrightarrow> dec32 (inc32 n) = n"
  by (cases "n + 1 = two32") (auto simp: dec32_def inc32_def two32_def)

lemma leave_inference_effect:
  "in_flight (ih_shutdown (leave_inference f H)) = dec32 (in_flight (ih_shutdown H))"
  "shared.replies (ih_shared (leave_inference f H)) = shared.replies (ih_shared H)"
  "flags (ih_shared (leave_inference (Some g) H)) g"
  by (auto simp: leave_inference_def set_flag_def guard_drop_def guard_removed_def Let_def split: option.splits)

text \<open>A response that is a success is exactly the result of the worker, and a result is never dropped.\<close>

definition answers_reply :: "request_id \<Rightarrow> chan \<Rightarrow> inference_response \<Rightarrow> handler \<Rightarrow> bool" where
  "answers_reply i ch resp H \<longleftrightarrow>
     (resp_error resp = None \<longleftrightarrow> (\<exists>r. shared.replies (ih_shared H) ch = Some (Inr r))) \<and>
     (\<forall>r. shared.replies (ih_shared H) ch = Some r \<longrightarrow> resp = worker_outcome i (Some r))"

lemma select_outcome_ok:
  assumes "select_outcome i ch f timeout dl w H = Some (resp, H')"
  shows "resp_request_id resp = i \<and> answer_explicit resp \<and> answers_reply i ch resp H' \<and>
         ih_shutdown H' = ih_shutdown (aw_meanwhile w H)"
proof (cases "shared.replies (ih_shared (aw_meanwhile w H)) ch")
  case None
  then show ?thesis using assms worker_outcome_explicit [of i None]
    by (auto simp: select_outcome_def answers_reply_def response_defs set_flag_def Let_def split: if_splits option.splits)
next
  case (Some r)
  then have "resp = worker_outcome i (Some r)" "H' = aw_meanwhile w H"
    using assms by (auto simp: select_outcome_def Let_def)
  then show ?thesis using Some worker_outcome_explicit [of i "Some r"]
    by (cases r) (auto simp: answers_reply_def response_defs)
qed

lemma inference_cases:
  assumes "handle_inference_controlled now w req H = Some (resp, H')"
  obtains (shutting_down) "\<not> is_accepting (ih_shutdown H)" "H' = H"
      "resp = response_error_coded (ir_request_id req) ''Server is shutting down'' CodeShuttingDown"
  | (invalid) e where "is_accepting (ih_shutdown H)" "H' = leave_inference None (H\<lparr>ih_shutdown := guard_added (ih_shutdown H)\<rparr>)"
      "isl (request_validate req) \<or> isl (params_validate (ir_parameters req))"
      "resp = response_error_coded (ir_request_id req) e CodeInputInvalid"
  | (refused) e H3 where "H' = leave_inference (Some (next_flag (ih_shared H))) H3" "resp = enqueue_failure (ir_request_id req) e"
      "ih_shutdown H3 = guard_added (ih_shutdown H)" "is_accepting (ih_shutdown H)"
  | (awaited) H3 H4 timeout dl where "H' = leave_inference (Some (next_flag (ih_shared H))) H4"
      "select_outcome (ir_request_id req) (ih_next_chan H) (next_flag (ih_shared H)) timeout dl w H3 = Some (resp, H4)"
      "ih_shutdown H3 = guard_added (ih_shutdown H)" "is_accepting (ih_shutdown H)"
  using assms
  by (auto simp: handle_inference_controlled_def track_def new_flag_def fresh_chan_def Let_def isl_def
      split: prod.splits sum.splits if_splits)

text \<open>
  C23: A non-streaming request gets one explicit answer under its own id: either the result the worker sent,
  unchanged, or an error with a code, an empty output and no tokens. A result that has arrived is never
  replaced by a cancellation or an expired deadline. Once the call returns, its place with the shutdown
  coordinator is given back, and the cancellation flag of an admitted request is set, so that no work is
  done for a caller who is gone. The hypotheses: the counter has room, and the other requests that come
  and go meanwhile give back what they take.
\<close>

theorem inference_answered_explicitly:
  assumes ans: "handle_inference_controlled now w req H = Some (resp, H')"
    and room: "in_flight (ih_shutdown H) < two32"
    and others: "\<And>G. in_flight (ih_shutdown (aw_meanwhile w G)) = in_flight (ih_shutdown G)"
  shows "resp_request_id resp = ir_request_id req \<and> answer_explicit resp \<and>
         in_flight (ih_shutdown H') = in_flight (ih_shutdown H) \<and>
         (resp_error_code resp \<notin> {Some CodeShuttingDown, Some CodeInputInvalid, Some CodeAdmissionRejected} \<longrightarrow>
            answers_reply (ir_request_id req) (ih_next_chan H) resp H') \<and>
         (is_accepting (ih_shutdown H) \<and> \<not> isl (request_validate req) \<and> \<not> isl (params_validate (ir_parameters req)) \<longrightarrow>
            flags (ih_shared H') (next_flag (ih_shared H)))"
  using ans
proof (cases rule: inference_cases)
  case (awaited H3 H4 timeout dl)
  then show ?thesis
    using select_outcome_ok [OF awaited(2)] others [of H3] guard_balance [OF room]
    by (auto simp: leave_inference_effect guard_added_def answers_reply_def)
qed (use guard_balance [OF room] in \<open>auto simp: leave_inference_effect guard_added_def response_defs split: queue_error.splits\<close>)

section \<open>Codes of worker errors\<close>

lemma no_char: "\<not> set p \<subseteq> set s \<Longrightarrow> \<not> contains_str s p"
  using contains_str_set by blast

lemma show_nat_chars: "byte_val c \<notin> {48..57} \<Longrightarrow> c \<notin> set (show_nat n)"
  using show_nat_digits by fastforce

text \<open>
  The errors without free text get their codes: cancelled, deadline, memory and context.
\<close>

lemma classify_fixed:
  "classify_worker_error (show_inference_error Cancelled) = CodeCancelled"
  "classify_worker_error (show_inference_error (DeadlineExceeded t)) = CodeDeadlineExceeded"
  "classify_worker_error (show_inference_error (MemoryExceeded u l)) = CodeAdmissionRejected"
  "classify_worker_error (show_inference_error (ContextExceeded mx got)) = CodeInputInvalid"
proof -
  have c: "contains_str (p @ s) p" for p s by (rule contains_str_append1) simp
  show "classify_worker_error (show_inference_error Cancelled) = CodeCancelled"
    by (simp add: classify_worker_error_def)
  show "classify_worker_error (show_inference_error (DeadlineExceeded t)) = CodeDeadlineExceeded"
    using c [of "''Deadline exceeded''"] no_char [of "''Request cancelled''"]
    by (simp add: classify_worker_error_def show_nat_chars)
  show "classify_worker_error (show_inference_error (MemoryExceeded u l)) = CodeAdmissionRejected"
    using c [of "''Memory limit exceeded''"] no_char [of "''Request cancelled''"] no_char [of "''Deadline exceeded''"]
    by (simp add: classify_worker_error_def show_nat_chars)
  show "classify_worker_error (show_inference_error (ContextExceeded mx got)) = CodeInputInvalid"
    using c [of "''Context length exceeded''"] no_char [of "''Request cancelled''"] no_char [of "''Deadline exceeded''"]
      no_char [of "''Memory limit exceeded''"] no_char [of "''queue full''"] no_char [of "''Queue full''"] no_char [of "''Model not loaded''"]
    by (simp add: classify_worker_error_def show_nat_chars)
qed

text \<open>The name of the model is part of the message, so a name can change the code.\<close>

lemma model_name_changes_code:
  "classify_worker_error (show_inference_error (ModelNotLoaded ''qwen'')) = CodeModelNotLoaded"
  "classify_worker_error (show_inference_error (ModelNotLoaded ''Request cancelled'')) = CodeCancelled"
  by (simp_all add: classify_worker_error_def)

section \<open>Queries\<close>

lemma models_total: "ml_total_memory_bytes (handle_models_request ce H) = total_memory (ml_registry (ih_lifecycle H))"
  by (simp add: handle_models_request_def total_memory_def list_models_def Let_def comp_def case_prod_unfold)

lemma full_check_is_readiness:
  "hr_ok (health_handle now FullCheck H) = hr_ok (health_handle now Readiness H)"
  by (simp add: health_handle_def health_report_of_def Let_def)

text \<open>A message of the protocol that the handler does not know, and work admitted during a shutdown.\<close>

lemma spans_request_refused:
  "handle_message ce w (SpansRequest n) who H = Some (Inr (ErrorMessage 400 ''Unexpected message type'', None), H)"
  by (simp add: handle_message_def)

lemma warmup_ignores_shutdown:
  assumes "pq_len (rq_queue (ih_queue H)) + length (rq_streaming (ih_queue H)) < max_pending (rq_config (ih_queue H))"
    and "1 \<le> max_context_tokens (rq_config (ih_queue H))" and "sd_state (ih_shutdown H) = Draining"
  shows "\<exists>resp H'. handle_warmup now \<lparr>aw_meanwhile = id, aw_closed = True, aw_cancelled = False, aw_now = now\<rparr> m H = Some (resp, H') \<and>
           sd_state (ih_shutdown H') = Draining \<and> in_flight (ih_shutdown H') = in_flight (ih_shutdown H) \<and>
           rq_next_id (ih_queue H') = wrap_add (rq_next_id (ih_queue H)) 1"
  using assms
  by (auto simp: handle_warmup_def fresh_chan_def enqueue_with_response_def enqueue_inner_def enqueue_locked_def check_context_def
      BYTES_PER_TOKEN_ESTIMATE_def notify_if_ok_def notify_one_def with_tx_def new_flag_def Let_def split: option.splits sum.splits)

section \<open>Examples\<close>

definition sample_handler :: handler where
  "sample_handler =
     \<lparr>ih_auth = auth_new (map of_char) ''secret'' 10, ih_require_auth = True, ih_queue = queue_new queue_config_default,
      ih_shared = shared_init, ih_next_chan = 3, ih_shutdown = sd_new, ih_health = hc_new 0 health_config_default,
      ih_metrics = store_new, ih_lifecycle = lifecycle_new registry_new (engine_new 16)\<rparr>"

definition sample_call :: call_env where
  "sample_call = \<lparr>ce_sha = map of_char, ce_now = 0, ce_random = [7], ce_load = sample_env, ce_fs = (\<lambda>_. sample_fs ''x''),
     ce_base = ''.'', ce_format_time = (\<lambda>_. []), ce_mean = (\<lambda>t _. t)\<rparr>"

text \<open>A worker that answers on the channel while the deadline passes.\<close>

definition sample_wait :: awaited where
  "sample_wait = \<lparr>aw_meanwhile = (\<lambda>H. H\<lparr>ih_shared := send_reply (Some 3) (Inr \<lparr>r_output = ''hi'', r_tokens_generated = 1, r_finished = True\<rparr>) (ih_shared H)\<rparr>),
     aw_closed = False, aw_cancelled = True, aw_now = 1000000000000\<rparr>"

definition sample_inference :: inference_request where
  "sample_inference = \<lparr>ir_request_id = 9, ir_model_id = ''m'', ir_prompt = ''p'', ir_parameters = params_default\<lparr>p_timeout_ms := Some 5\<rparr>\<rparr>"

theorem unauthenticated_changes_nothing_witness:
  "\<exists>res a. handle_message sample_call sample_wait (ModelUnloadRequest ''m'') (Some ''00'') sample_handler
     = Some (res, sample_handler\<lparr>ih_auth := a\<rparr>) \<and> isl res"
proof -
  have "ih_require_auth sample_handler" "\<not> session_valid (ce_now sample_call) (Some ''00'') sample_handler"
    by (simp_all add: sample_handler_def sample_call_def session_valid_def auth_validate_def auth_new_def)
  from unauthenticated_changes_nothing [OF this, of sample_wait "ModelUnloadRequest ''m''"] show ?thesis
    by (auto simp: protected_message_def)
qed

lemma sample_inference_answered:
  "\<exists>H'. handle_inference_controlled 0 sample_wait sample_inference sample_handler = Some (response_success 9 ''hi'' 1 True, H')"
  by (simp add: handle_inference_controlled_def sample_inference_def sample_handler_def sample_wait_def track_def is_accepting_def sd_new_def
      request_validate_def params_validate_def params_default_def f32_0_7_def f32_0_9_def f32_le_def new_flag_def fresh_chan_def
      enqueue_controlled_def enqueue_inner_def enqueue_locked_def queue_new_def queue_config_default_def check_context_def
      BYTES_PER_TOKEN_ESTIMATE_def pq_new_def pq_len_def with_tx_def select_outcome_def send_reply_def Let_def)

theorem inference_answered_explicitly_witness:
  "\<exists>resp H'. handle_inference_controlled 0 sample_wait sample_inference sample_handler = Some (resp, H') \<and>
     resp_request_id resp = 9 \<and> resp_output resp = ''hi'' \<and> in_flight (ih_shutdown H') = 0 \<and>
     answers_reply 9 3 resp H' \<and> flags (ih_shared H') (next_flag shared_init)"
proof -
  obtain H' where run: "handle_inference_controlled 0 sample_wait sample_inference sample_handler = Some (response_success 9 ''hi'' 1 True, H')"
    using sample_inference_answered by blast
  have "in_flight (ih_shutdown sample_handler) < two32" by (simp add: sample_handler_def sd_new_def two32_def)
  moreover have "in_flight (ih_shutdown (aw_meanwhile sample_wait G)) = in_flight (ih_shutdown G)" for G
    by (simp add: sample_wait_def)
  ultimately show ?thesis
    using inference_answered_explicitly [OF run] run
    by (simp add: sample_inference_def sample_handler_def response_success_def sd_new_def is_accepting_def
        request_validate_def params_validate_def params_default_def f32_0_7_def f32_0_9_def f32_le_def)
qed

end
