(* ===== verification/Model_Catalog.thy ===== *)
theory Model_Catalog
  imports Rust_Parse Priority_Queue Model_Loading "HOL-Library.Char_ord" "HOL-Library.List_Lexorder"
begin

text \<open>
  The catalogue of models: versions and version ranges (\<open>models/version.rs\<close>), the history of activations
  (\<open>models/history.rs\<close>), queries (\<open>models/search.rs\<close>), and the stored registry state
  (\<open>models/persistence.rs\<close>).
\<close>

section \<open>Versions\<close>

datatype version_error =
    VInvalidFormat string
  | VInvalidComponent string
  | VInvalidRange string

primrec show_version_error :: "version_error \<Rightarrow> string" where
  "show_version_error (VInvalidFormat m) = ''Invalid version format: '' @ m"
| "show_version_error (VInvalidComponent m) = ''Invalid version component: '' @ m"
| "show_version_error (VInvalidRange m) = ''Invalid version range: '' @ m"

datatype model_version =
  ModelVersion (mv_major: nat) (mv_minor: nat) (mv_patch: nat) (mv_prerelease: "string option")

definition version_new :: "nat \<Rightarrow> nat \<Rightarrow> nat \<Rightarrow> model_version" where
  "version_new a b c = ModelVersion a b c None"

definition with_prerelease :: "nat \<Rightarrow> nat \<Rightarrow> nat \<Rightarrow> string \<Rightarrow> model_version" where
  "with_prerelease a b c pre = ModelVersion a b c (Some pre)"

definition parse_part :: "string \<Rightarrow> version_error + nat" where
  "parse_part p = (case parse_uint (2 ^ 32) p of None \<Rightarrow> Inl (VInvalidComponent p) | Some n \<Rightarrow> Inr n)"

definition version_parse :: "string \<Rightarrow> version_error + model_version" where
  "version_parse s =
     (let (version_part, pre) =
            (if CHR ''-'' \<in> set s
             then (takeWhile (\<lambda>c. c \<noteq> CHR ''-'') s, Some (drop 1 (dropWhile (\<lambda>c. c \<noteq> CHR ''-'') s)))
             else (s, None))
      in case split_on (CHR ''.'') version_part of
           [a, b, c] \<Rightarrow>
             (case parse_part a of
                Inl e \<Rightarrow> Inl e
              | Inr ma \<Rightarrow>
                  (case parse_part b of
                     Inl e \<Rightarrow> Inl e
                   | Inr mi \<Rightarrow>
                       (case parse_part c of
                          Inl e \<Rightarrow> Inl e
                        | Inr pa \<Rightarrow> Inr (ModelVersion ma mi pa pre))))
         | _ \<Rightarrow> Inl (VInvalidFormat s))"

definition show_version :: "model_version \<Rightarrow> string" where
  "show_version v =
     show_nat (mv_major v) @ ''.'' @ show_nat (mv_minor v) @ ''.'' @ show_nat (mv_patch v) @
     (case mv_prerelease v of None \<Rightarrow> [] | Some pre \<Rightarrow> ''-'' @ pre)"

definition cmp_str :: "string \<Rightarrow> string \<Rightarrow> ordering" where
  "cmp_str a b = (if a < b then Less else if a = b then Equal else Greater)"

definition version_cmp :: "model_version \<Rightarrow> model_version \<Rightarrow> ordering" where
  "version_cmp v w =
     (case cmp_nat (mv_major v) (mv_major w) of
        Equal \<Rightarrow>
          (case cmp_nat (mv_minor v) (mv_minor w) of
             Equal \<Rightarrow>
               (case cmp_nat (mv_patch v) (mv_patch w) of
                  Equal \<Rightarrow>
                    (case (mv_prerelease v, mv_prerelease w) of
                       (None, None) \<Rightarrow> Equal
                     | (Some _, None) \<Rightarrow> Less
                     | (None, Some _) \<Rightarrow> Greater
                     | (Some a, Some b) \<Rightarrow> cmp_str a b)
                | o3 \<Rightarrow> o3)
           | o2 \<Rightarrow> o2)
      | o1 \<Rightarrow> o1)"

text \<open>The comparison is a linear order whose equality is the derived one.\<close>

lemmas version_cmp_defs = version_cmp_def cmp_nat_def cmp_str_def

lemma version_cmp_Equal: "version_cmp v w = Equal \<longleftrightarrow> v = w"
  by (cases v; cases w) (auto simp: version_cmp_defs split: if_splits option.splits)

lemma version_cmp_flip: "version_cmp v w = Greater \<longleftrightarrow> version_cmp w v = Less"
  by (cases v; cases w) (auto simp: version_cmp_defs split: if_splits option.splits)

lemma version_cmp_trans: "version_cmp u v = Less \<Longrightarrow> version_cmp v w = Less \<Longrightarrow> version_cmp u w = Less"
  by (cases u; cases v; cases w) (auto simp: version_cmp_defs split: if_splits option.splits)

instantiation model_version :: linorder
begin

definition less_model_version :: "model_version \<Rightarrow> model_version \<Rightarrow> bool" where
  "v < w \<longleftrightarrow> version_cmp v w = Less"

definition less_eq_model_version :: "model_version \<Rightarrow> model_version \<Rightarrow> bool" where
  "v \<le> w \<longleftrightarrow> version_cmp v w \<noteq> Greater"

instance
proof
  fix u v w :: model_version
  have three: "version_cmp a b = Less \<or> version_cmp a b = Equal \<or> version_cmp a b = Greater" for a b
    by (cases "version_cmp a b") auto
  have irrefl: "version_cmp a a \<noteq> Less" for a
    using version_cmp_Equal [of a a] by simp
  show "v < w \<longleftrightarrow> v \<le> w \<and> \<not> w \<le> v"
    unfolding less_model_version_def less_eq_model_version_def
    using version_cmp_flip [of v w] version_cmp_flip [of w v] by auto
  show "v \<le> v"
    using version_cmp_Equal [of v v] by (simp add: less_eq_model_version_def)
  show "u \<le> v \<Longrightarrow> v \<le> w \<Longrightarrow> u \<le> w"
    unfolding less_eq_model_version_def
    by (metis irrefl three version_cmp_Equal version_cmp_flip version_cmp_trans)
  show "v \<le> w \<Longrightarrow> w \<le> v \<Longrightarrow> v = w"
    unfolding less_eq_model_version_def by (metis three version_cmp_Equal version_cmp_flip)
  show "v \<le> w \<or> w \<le> v"
    unfolding less_eq_model_version_def by (metis irrefl version_cmp_flip version_cmp_trans)
qed

end

section \<open>Ranges\<close>

record version_range =
  vr_min :: "model_version option"
  vr_max :: "model_version option"
  vr_include_prerelease :: bool

definition satisfies :: "model_version \<Rightarrow> version_range \<Rightarrow> bool" where
  "satisfies v r =
     (if \<not> vr_include_prerelease r \<and> mv_prerelease v \<noteq> None then False
      else if (case vr_min r of None \<Rightarrow> False | Some m \<Rightarrow> v < m) then False
      else if (case vr_max r of None \<Rightarrow> False | Some m \<Rightarrow> m < v) then False
      else True)"

definition range_any :: version_range where
  "range_any = \<lparr>vr_min = None, vr_max = None, vr_include_prerelease = False\<rparr>"

definition range_exact :: "model_version \<Rightarrow> version_range" where
  "range_exact v = \<lparr>vr_min = Some v, vr_max = Some v, vr_include_prerelease = True\<rparr>"

definition range_at_least :: "model_version \<Rightarrow> version_range" where
  "range_at_least v = \<lparr>vr_min = Some v, vr_max = None, vr_include_prerelease = False\<rparr>"

definition range_below :: "model_version \<Rightarrow> version_range" where
  "range_below v = \<lparr>vr_min = None, vr_max = Some v, vr_include_prerelease = False\<rparr>"

definition range_between :: "model_version \<Rightarrow> model_version \<Rightarrow> version_range" where
  "range_between a b = \<lparr>vr_min = Some a, vr_max = Some b, vr_include_prerelease = False\<rparr>"

lemmas range_defs = satisfies_def range_any_def range_exact_def range_at_least_def range_below_def range_between_def

lemma satisfies_exact: "satisfies v (range_exact w) \<longleftrightarrow> v = w"
  by (auto simp: range_defs)

lemma satisfies_between:
  "satisfies v (range_between a b) \<longleftrightarrow> mv_prerelease v = None \<and> a \<le> v \<and> v \<le> b"
  by (auto simp: range_defs not_less)

text \<open>\<open>below\<close> admits its bound, unless that is a prerelease.\<close>

lemma below_admits_bound: "satisfies (version_new a b c) (range_below (version_new a b c))"
  by (simp add: range_defs version_new_def)

lemma show_nat_free: "byte_val c \<notin> {48..57} \<Longrightarrow> c \<notin> set (show_nat n)"
  using show_nat_digits by fastforce

lemma parse_part_show: "n < 2 ^ 32 \<Longrightarrow> parse_part (show_nat n) = Inr n"
  by (simp add: parse_part_def)

definition version_u32 :: "model_version \<Rightarrow> bool" where
  "version_u32 v \<longleftrightarrow> mv_major v < 2 ^ 32 \<and> mv_minor v < 2 ^ 32 \<and> mv_patch v < 2 ^ 32"

lemma parse_numbers:
  assumes "version_u32 v"
  shows "split_on (CHR ''.'') (show_nat (mv_major v) @ ''.'' @ show_nat (mv_minor v) @ ''.'' @ show_nat (mv_patch v)) =
           [show_nat (mv_major v), show_nat (mv_minor v), show_nat (mv_patch v)]"
  by (simp add: split_on_append split_on_free show_nat_free)

text \<open>
  Versions survive printing and parsing: the text of a version whose numbers fit 32 bits parses to the
  same version, whatever its prerelease tag, including tags that are empty or contain dashes and dots.
\<close>

theorem version_roundtrip:
  assumes "version_u32 v"
  shows "version_parse (show_version v) = Inr v"
proof -
  let ?nums = "show_nat (mv_major v) @ ''.'' @ show_nat (mv_minor v) @ ''.'' @ show_nat (mv_patch v)"
  have free: "CHR ''-'' \<notin> set ?nums" by (simp add: show_nat_free)
  have parts: "parse_part (show_nat (mv_major v)) = Inr (mv_major v)" "parse_part (show_nat (mv_minor v)) = Inr (mv_minor v)"
    "parse_part (show_nat (mv_patch v)) = Inr (mv_patch v)"
    using assms by (simp_all add: version_u32_def parse_part_show del: One_nat_def)
  show ?thesis
  proof (cases "mv_prerelease v")
    case None
    then have "show_version v = ?nums" by (simp add: show_version_def)
    then show ?thesis using None free parse_numbers [OF assms] parts
      by (cases v) (simp add: version_parse_def)
  next
    case (Some pre)
    then have s: "show_version v = ?nums @ CHR ''-'' # pre" by (simp add: show_version_def)
    have tw: "takeWhile (\<lambda>c. c \<noteq> CHR ''-'') (?nums @ CHR ''-'' # pre) = ?nums"
      "dropWhile (\<lambda>c. c \<noteq> CHR ''-'') (?nums @ CHR ''-'' # pre) = CHR ''-'' # pre"
      using free by (auto simp: takeWhile_append dropWhile_append)
    show ?thesis using Some s tw parse_numbers [OF assms] parts
      by (cases v) (simp add: version_parse_def)
  qed
qed

theorem version_roundtrip_witness:
  "version_parse (show_version (with_prerelease 2 0 4294967295 ''rc-1.x'')) = Inr (with_prerelease 2 0 4294967295 ''rc-1.x'')"
proof -
  have "version_u32 (with_prerelease 2 0 4294967295 ''rc-1.x'')" by (simp add: version_u32_def with_prerelease_def)
  then show ?thesis by (rule version_roundtrip)
qed

section \<open>History\<close>

definition DEFAULT_MAX_HISTORY :: usize where "DEFAULT_MAX_HISTORY = 10"

datatype version_source = SrcInitial | SrcHotSwap | SrcRollback | SrcManual

record history_entry =
  he_version :: model_version
  he_activated_at :: u64
  he_deactivated_at :: "u64 option"
  he_source :: version_source

definition entry_new :: "u64 \<Rightarrow> model_version \<Rightarrow> version_source \<Rightarrow> history_entry" where
  "entry_new now v src = \<lparr>he_version = v, he_activated_at = now, he_deactivated_at = None, he_source = src\<rparr>"

definition entry_is_active :: "history_entry \<Rightarrow> bool" where
  "entry_is_active e \<longleftrightarrow> he_deactivated_at e = None"

definition entry_deactivate :: "u64 \<Rightarrow> history_entry \<Rightarrow> history_entry" where
  "entry_deactivate now e = e\<lparr>he_deactivated_at := Some now\<rparr>"

record version_history =
  vh_entries :: "history_entry list"
  vh_max_entries :: usize

definition history_with_capacity :: "usize \<Rightarrow> version_history" where
  "history_with_capacity n = \<lparr>vh_entries = [], vh_max_entries = n\<rparr>"

definition history_new :: version_history where
  "history_new = history_with_capacity DEFAULT_MAX_HISTORY"

fun pop_excess :: "usize \<Rightarrow> 'a list \<Rightarrow> 'a list" where
  "pop_excess n [] = []"
| "pop_excess n (x # xs) = (if n < length (x # xs) then pop_excess n xs else x # xs)"

definition deactivate_last :: "u64 \<Rightarrow> history_entry list \<Rightarrow> history_entry list" where
  "deactivate_last now es =
     (if es = [] then []
      else if entry_is_active (last es) then butlast es @ [entry_deactivate now (last es)] else es)"

definition history_record :: "u64 \<Rightarrow> model_version \<Rightarrow> version_source \<Rightarrow> version_history \<Rightarrow> version_history" where
  "history_record now v src h =
     h\<lparr>vh_entries := pop_excess (vh_max_entries h) (deactivate_last now (vh_entries h) @ [entry_new now v src])\<rparr>"

definition history_current :: "version_history \<Rightarrow> history_entry option" where
  "history_current h = (if vh_entries h = [] then None else Some (last (vh_entries h)))"

definition history_previous :: "version_history \<Rightarrow> history_entry option" where
  "history_previous h =
     (let n = length (vh_entries h) in if 2 \<le> n then Some (vh_entries h ! (n - 2)) else None)"

fun record_all :: "(u64 \<times> model_version \<times> version_source) list \<Rightarrow> version_history \<Rightarrow> version_history" where
  "record_all [] h = h"
| "record_all ((now, v, src) # rs) h = record_all rs (history_record now v src h)"

lemma pop_excess_drop: "pop_excess n xs = drop (length xs - n) xs"
  by (induction xs) (auto simp: Suc_diff_le not_less)

definition history_ok :: "(u64 \<times> model_version \<times> version_source) list \<Rightarrow> version_history \<Rightarrow> bool" where
  "history_ok rs h \<longleftrightarrow>
     map (\<lambda>e. (he_activated_at e, he_version e, he_source e)) (vh_entries h) = drop (length rs - vh_max_entries h) rs \<and>
     list_all (\<lambda>e. \<not> entry_is_active e) (butlast (vh_entries h)) \<and>
     (vh_entries h \<noteq> [] \<longrightarrow> entry_is_active (last (vh_entries h)))"

lemma map_deactivate_last:
  "map (\<lambda>e. (he_activated_at e, he_version e, he_source e)) (deactivate_last now es) =
   map (\<lambda>e. (he_activated_at e, he_version e, he_source e)) es"
  by (cases es rule: rev_cases) (auto simp: deactivate_last_def entry_deactivate_def)

lemma deactivate_last_inactive:
  "list_all (\<lambda>e. \<not> entry_is_active e) (butlast es) \<Longrightarrow> list_all (\<lambda>e. \<not> entry_is_active e) (deactivate_last now es)"
  by (cases es rule: rev_cases) (auto simp: deactivate_last_def entry_deactivate_def entry_is_active_def)

lemma history_record_ok:
  assumes "history_ok rs h"
  shows "history_ok (rs @ [(now, v, src)]) (history_record now v src h)"
proof -
  let ?f = "\<lambda>e. (he_activated_at e, he_version e, he_source e)" and ?n = "vh_max_entries h"
  let ?es = "deactivate_last now (vh_entries h)"
  have m: "map ?f ?es = drop (length rs - ?n) rs" using assms by (simp add: history_ok_def map_deactivate_last)
  have len: "length ?es = length rs - (length rs - ?n)" using arg_cong [OF m, of length] by simp
  have "map ?f (vh_entries (history_record now v src h)) = drop (length (?es @ [entry_new now v src]) - ?n) (map ?f (?es @ [entry_new now v src]))"
    by (simp add: history_record_def pop_excess_drop drop_map del: map_append drop_append list.map)
  also have "\<dots> = drop (Suc (length rs) - ?n) (rs @ [(now, v, src)])"
    using m len by (cases "?n \<le> length rs") (auto simp: entry_new_def Suc_diff_le)
  finally have vals: "map ?f (vh_entries (history_record now v src h)) = drop (Suc (length rs) - ?n) (rs @ [(now, v, src)])" .
  have inact: "list_all (\<lambda>e. \<not> entry_is_active e) ?es"
    using assms by (simp add: history_ok_def deactivate_last_inactive)
  have "list_all (\<lambda>e. \<not> entry_is_active e) (butlast (vh_entries (history_record now v src h)))"
    using inact by (auto simp: history_record_def pop_excess_drop drop_butlast [symmetric] list_all_iff simp del: drop_append
        dest: in_set_dropD)
  moreover have "vh_entries (history_record now v src h) \<noteq> [] \<longrightarrow> entry_is_active (last (vh_entries (history_record now v src h)))"
    by (auto simp: history_record_def pop_excess_drop entry_new_def entry_is_active_def last_drop simp del: drop_append)
  ultimately show ?thesis using vals by (simp add: history_ok_def history_record_def)
qed

lemma record_all_ok: "history_ok rs0 h \<Longrightarrow> history_ok (rs0 @ rs) (record_all rs h)"
proof (induction rs h arbitrary: rs0 rule: record_all.induct)
  case (2 now v src rs h)
  from "2.IH" [OF history_record_ok [OF "2.prems", of now v src]] show ?case by simp
qed simp

lemma record_all_capacity [simp]: "vh_max_entries (record_all rs h) = vh_max_entries h"
  by (induction rs h rule: record_all.induct) (simp_all add: history_record_def)

text \<open>
  The history holds the newest activations: after any sequence of activations the entries are the last
  ones, as many as the capacity allows, in their order and with their times and sources; exactly the newest
  is active and every older one carries the time it was replaced.
\<close>

theorem history_keeps_newest:
  "history_ok rs (record_all rs (history_with_capacity n)) \<and>
   length (vh_entries (record_all rs (history_with_capacity n))) = min (length rs) n"
proof -
  have "history_ok [] (history_with_capacity n)" by (simp add: history_ok_def history_with_capacity_def)
  from record_all_ok [OF this, of rs] have ok: "history_ok rs (record_all rs (history_with_capacity n))" by simp
  have "vh_max_entries (record_all rs (history_with_capacity n)) = n" by (simp add: history_with_capacity_def)
  with ok have m: "map (\<lambda>e. (he_activated_at e, he_version e, he_source e)) (vh_entries (record_all rs (history_with_capacity n))) =
      drop (length rs - n) rs"
    by (simp add: history_ok_def)
  show ?thesis using ok arg_cong [OF m, of length] by simp
qed

section \<open>Queries\<close>

record model_query =
  mq_capability :: "model_capability option"
  mq_architecture :: "model_architecture option"
  mq_version_range :: "version_range option"
  mq_name_pattern :: "string option"
  mq_limit :: "usize option"
  mq_offset :: "usize option"

definition query_new :: model_query where
  "query_new = \<lparr>mq_capability = None, mq_architecture = None, mq_version_range = None, mq_name_pattern = None,
     mq_limit = None, mq_offset = None\<rparr>"

definition is_ascii :: "string \<Rightarrow> bool" where
  "is_ascii s = list_all (\<lambda>c. byte_val c < 128) s"

fun windows :: "usize \<Rightarrow> 'a list \<Rightarrow> 'a list list" where
  "windows k [] = []"
| "windows k (x # xs) = (if k \<le> length (x # xs) then take k (x # xs) # windows k xs else [])"

text \<open>\<open>lower\<close> is \<open>str::to_lowercase\<close>, the Unicode mapping.\<close>

definition name_matches :: "(string \<Rightarrow> string) \<Rightarrow> string \<Rightarrow> string \<Rightarrow> bool" where
  "name_matches lower name pattern =
     (if pattern = [] then True
      else if is_ascii name \<and> is_ascii pattern
        then list_ex (\<lambda>w. eq_ignore_ascii_case w pattern) (windows (length pattern) name)
      else contains_str (lower name) (lower pattern))"

definition query_matches ::
  "(string \<Rightarrow> string) \<Rightarrow> model_query \<Rightarrow> string \<Rightarrow> model_version \<Rightarrow> model_capability list \<Rightarrow> model_architecture \<Rightarrow> bool" where
  "query_matches lower q name v caps arch =
     (if (case mq_capability q of None \<Rightarrow> False | Some c \<Rightarrow> c \<notin> set caps) then False
      else if (case mq_architecture q of None \<Rightarrow> False | Some a \<Rightarrow> arch \<noteq> a) then False
      else if (case mq_version_range q of None \<Rightarrow> False | Some r \<Rightarrow> \<not> satisfies v r) then False
      else if (case mq_name_pattern q of None \<Rightarrow> False | Some p \<Rightarrow> \<not> name_matches lower name p) then False
      else True)"

lemma starts_with_take: "starts_with s p \<longleftrightarrow> length p \<le> length s \<and> take (length p) s = p"
  by (induction s p rule: starts_with.induct) auto

lemma starts_with_lower:
  "starts_with (to_ascii_lowercase s) (to_ascii_lowercase p) \<longleftrightarrow>
     length p \<le> length s \<and> eq_ignore_ascii_case (take (length p) s) p"
  by (simp add: starts_with_take eq_ignore_ascii_case_def to_ascii_lowercase_def take_map)

lemma contains_str_length: "contains_str s p \<Longrightarrow> length p \<le> length s"
  by (auto simp: contains_str_iff)

lemma contains_lower_Cons:
  "contains_str (to_ascii_lowercase (c # s)) (to_ascii_lowercase p) \<longleftrightarrow>
     starts_with (to_ascii_lowercase (c # s)) (to_ascii_lowercase p) \<or> contains_str (to_ascii_lowercase s) (to_ascii_lowercase p)"
  by (simp add: to_ascii_lowercase_def)

lemma windows_contains:
  assumes "p \<noteq> []"
  shows "list_ex (\<lambda>w. eq_ignore_ascii_case w p) (windows (length p) s) \<longleftrightarrow>
         contains_str (to_ascii_lowercase s) (to_ascii_lowercase p)"
proof (induction s)
  case Nil
  then show ?case using assms by (simp add: to_ascii_lowercase_def)
next
  case (Cons c s)
  show ?case
  proof (cases "length p \<le> length (c # s)")
    case True
    then show ?thesis using Cons starts_with_lower [of "c # s" p] contains_lower_Cons [of c s p] by simp
  next
    case False
    then show ?thesis
      using contains_str_length [of "to_ascii_lowercase (c # s)" "to_ascii_lowercase p"] by auto
  qed
qed

text \<open>
  The fast search for a name agrees with the plain one: for a Unicode lower-casing that treats ASCII
  as ASCII, a name matches a pattern exactly when the lower-cased name contains the lower-cased pattern,
  whether or not the byte windows of the ASCII path are used.
\<close>

theorem name_matches_contains:
  assumes "\<And>s. is_ascii s \<Longrightarrow> lower s = to_ascii_lowercase s"
  shows "name_matches lower name pattern \<longleftrightarrow> contains_str (lower name) (lower pattern)"
proof (cases "pattern = []")
  case True
  then have "lower pattern = []" using assms [of "[]"] by (simp add: is_ascii_def to_ascii_lowercase_def)
  then show ?thesis using True by (simp add: name_matches_def)
next
  case False
  then show ?thesis using assms windows_contains [OF False, of name] by (simp add: name_matches_def)
qed

theorem name_matches_contains_witness:
  "name_matches to_ascii_lowercase ''Qwen-2'' ''qwEN'' \<longleftrightarrow>
     contains_str (to_ascii_lowercase ''Qwen-2'') (to_ascii_lowercase ''qwEN'')"
  by (rule name_matches_contains) (rule refl)

section \<open>Stored state\<close>

datatype persistence_error =
    ReadError string
  | WriteError string
  | StateParseError string
  | StateNotFound

primrec show_persistence_error :: "persistence_error \<Rightarrow> string" where
  "show_persistence_error (ReadError e) = ''Failed to read state: '' @ e"
| "show_persistence_error (WriteError e) = ''Failed to write state: '' @ e"
| "show_persistence_error (StateParseError e) = ''Failed to parse state: '' @ e"
| "show_persistence_error StateNotFound = ''State file not found''"

record persisted_model =
  pm_model_id :: string
  pm_path :: string
  pm_version :: model_version
  pm_capabilities :: "model_capability list"
  pm_architecture :: model_architecture
  pm_auto_load :: bool
  pm_history :: version_history

record registry_state =
  rs_schema_version :: nat
  rs_saved_at :: u64
  rs_models :: "(string, persisted_model) hash_map"
  rs_default_model :: "string option"

definition registry_state_default :: registry_state where
  "registry_state_default = \<lparr>rs_schema_version = 1, rs_saved_at = 0, rs_models = [], rs_default_model = None\<rparr>"

text \<open>
  The JSON library: the pieces the serializer passes to the writer one after the other, and the parser.
\<close>

record state_json =
  sj_pieces :: "registry_state \<Rightarrow> string list"
  sj_parse :: "string \<Rightarrow> string + registry_state"

text \<open>
  The two files and the room left on the device. The remaining fields say whether the other system calls
  fail, and with which text.
\<close>

record disk =
  dk_state :: "string option"
  dk_temp :: "string option"
  dk_room :: nat
  dk_mkdir_error :: "string option"
  dk_create_error :: "string option"
  dk_rename_error :: "string option"
  dk_open_error :: "string option"
  dk_full_error :: string

definition file_len :: "string option \<Rightarrow> nat" where
  "file_len f = (case f of None \<Rightarrow> 0 | Some s \<Rightarrow> length s)"

text \<open>\<open>write_all\<close> on the temporary file: what fits is written, and it is an error when not everything fits.\<close>

definition write_temp :: "string \<Rightarrow> disk \<Rightarrow> bool \<times> nat \<times> disk" where
  "write_temp b d =
     (let n = min (length b) (dk_room d);
          old = (case dk_temp d of None \<Rightarrow> [] | Some s \<Rightarrow> s)
      in (n = length b, n, d\<lparr>dk_temp := Some (old @ take n b), dk_room := dk_room d - n\<rparr>))"

text \<open>
  \<open>BufWriter\<close> of the standard library with its capacity. \<open>flush_buf\<close> keeps what could not be written;
  dropping the writer flushes it and ignores the error.
\<close>

definition BUF_CAPACITY :: nat where "BUF_CAPACITY = 8192"

definition flush_buf :: "string \<Rightarrow> disk \<Rightarrow> bool \<times> string \<times> disk" where
  "flush_buf buf d = (let (ok, n, d') = write_temp buf d in (ok, drop n buf, d'))"

definition buf_write :: "string \<Rightarrow> string \<Rightarrow> disk \<Rightarrow> bool \<times> string \<times> disk" where
  "buf_write p buf d =
     (let (ok, buf', d') = (if BUF_CAPACITY - length buf < length p then flush_buf buf d else (True, buf, d)) in
      if \<not> ok then (False, buf', d')
      else if BUF_CAPACITY \<le> length p
        then (let (ok2, n, d'') = write_temp p d' in (ok2, buf', d''))
      else (True, buf' @ p, d'))"

fun buf_write_all :: "string list \<Rightarrow> string \<Rightarrow> disk \<Rightarrow> bool \<times> string \<times> disk" where
  "buf_write_all [] buf d = (True, buf, d)"
| "buf_write_all (p # ps) buf d =
     (let (ok, buf', d') = buf_write p buf d in if ok then buf_write_all ps buf' d' else (False, buf', d'))"

definition to_writer :: "string list \<Rightarrow> disk \<Rightarrow> bool \<times> disk" where
  "to_writer ps d =
     (let (ok, buf, d') = buf_write_all ps [] d; (_, _, d'') = flush_buf buf d' in (ok, d''))"

definition create_temp :: "disk \<Rightarrow> disk" where
  "create_temp d = d\<lparr>dk_temp := Some [], dk_room := dk_room d + file_len (dk_temp d)\<rparr>"

definition rename_temp :: "disk \<Rightarrow> disk" where
  "rename_temp d = d\<lparr>dk_state := dk_temp d, dk_temp := None, dk_room := dk_room d + file_len (dk_state d)\<rparr>"

definition state_save :: "state_json \<Rightarrow> registry_state \<Rightarrow> disk \<Rightarrow> (persistence_error + unit) \<times> disk" where
  "state_save J st d =
     (case dk_mkdir_error d of
        Some e \<Rightarrow> (Inl (WriteError e), d)
      | None \<Rightarrow>
     (case dk_create_error d of
        Some e \<Rightarrow> (Inl (WriteError e), d)
      | None \<Rightarrow>
     (let (ok, d2) = to_writer (sj_pieces J st) (create_temp d) in
      if \<not> ok then (Inl (WriteError (dk_full_error d)), d2)
      else
        (case dk_rename_error d of
           Some e \<Rightarrow> (Inl (WriteError e), d2)
         | None \<Rightarrow> (Inr (), rename_temp d2)))))"

definition state_load :: "state_json \<Rightarrow> disk \<Rightarrow> persistence_error + registry_state" where
  "state_load J d =
     (case dk_state d of
        None \<Rightarrow> Inl StateNotFound
      | Some s \<Rightarrow>
          (case dk_open_error d of
             Some e \<Rightarrow> Inl (ReadError e)
           | None \<Rightarrow> (case sj_parse J s of Inl e \<Rightarrow> Inl (StateParseError e) | Inr st \<Rightarrow> Inr st)))"

definition load_or_default :: "state_json \<Rightarrow> disk \<Rightarrow> registry_state" where
  "load_or_default J d = (case state_load J d of Inl _ \<Rightarrow> registry_state_default | Inr st \<Rightarrow> st)"

definition state_exists :: "disk \<Rightarrow> bool" where
  "state_exists d \<longleftrightarrow> dk_state d \<noteq> None"

text \<open>\<open>unlink_error\<close> is the error of removing a file that exists.\<close>

definition state_delete :: "string option \<Rightarrow> disk \<Rightarrow> (persistence_error + unit) \<times> disk" where
  "state_delete unlink_error d =
     (if dk_state d = None then (Inr (), d)
      else (case unlink_error of
              Some e \<Rightarrow> (Inl (WriteError e), d)
            | None \<Rightarrow> (Inr (), d\<lparr>dk_state := None, dk_room := dk_room d + file_len (dk_state d)\<rparr>)))"

section \<open>What is saved is what is loaded\<close>

definition same_state :: "disk \<Rightarrow> disk \<Rightarrow> bool" where
  "same_state d d' \<longleftrightarrow> dk_state d' = dk_state d \<and> dk_open_error d' = dk_open_error d"

lemma same_state_trans: "same_state a b \<Longrightarrow> same_state b c \<Longrightarrow> same_state a c"
  by (simp add: same_state_def)

lemma write_temp_room:
  "length b \<le> dk_room d \<Longrightarrow> write_temp b d =
     (True, length b, d\<lparr>dk_temp := Some ((case dk_temp d of None \<Rightarrow> [] | Some s \<Rightarrow> s) @ b), dk_room := dk_room d - length b\<rparr>)"
  by (simp add: write_temp_def Let_def)

lemma buf_write_room:
  assumes "length buf + length p \<le> dk_room d" "dk_temp d = Some t" "buf_write p buf d = (ok, buf', d')"
  shows "ok \<and> same_state d d' \<and> (\<exists>t'. dk_temp d' = Some t' \<and> t' @ buf' = t @ buf @ p) \<and>
         length buf' + dk_room d = length buf + length p + dk_room d'"
proof -
  have "buf = []" if "\<not> BUF_CAPACITY - length buf < length p" "BUF_CAPACITY \<le> length p"
    using that by (cases buf) (auto simp: BUF_CAPACITY_def)
  then show ?thesis using assms
    by (auto simp: buf_write_def flush_buf_def write_temp_room same_state_def Let_def split: if_splits)
qed

lemma buf_write_all_room:
  "length buf + length (concat ps) \<le> dk_room d \<Longrightarrow> dk_temp d = Some t \<Longrightarrow> buf_write_all ps buf d = (ok, buf', d') \<Longrightarrow>
     ok \<and> same_state d d' \<and> (\<exists>t'. dk_temp d' = Some t' \<and> t' @ buf' = t @ buf @ concat ps) \<and> length buf' \<le> dk_room d'"
proof (induction ps arbitrary: buf d t)
  case Nil
  then show ?case by (auto simp: same_state_def)
next
  case (Cons p ps)
  obtain ok1 buf1 d1 where w: "buf_write p buf d = (ok1, buf1, d1)" by (metis prod.exhaust)
  have fit: "length buf + length p \<le> dk_room d" using Cons.prems by simp
  from buf_write_room [OF fit Cons.prems(2) w] obtain t1 where one: "ok1" "same_state d d1" "dk_temp d1 = Some t1"
    "t1 @ buf1 = t @ buf @ p" "length buf1 + dk_room d = length buf + length p + dk_room d1" by auto
  have rest: "length buf1 + length (concat ps) \<le> dk_room d1" "buf_write_all ps buf1 d1 = (ok, buf', d')"
    using Cons.prems w one by simp_all
  from Cons.IH [OF rest(1) one(3) rest(2)] obtain t' where "ok" "same_state d1 d'" "dk_temp d' = Some t'"
    "t' @ buf' = t1 @ buf1 @ concat ps" "length buf' \<le> dk_room d'" by auto
  moreover have "t1 @ buf1 @ concat ps = t @ buf @ concat (p # ps)" using one(4) by (metis append.assoc concat.simps(2))
  ultimately show ?case using same_state_trans [OF one(2)] by auto
qed

lemma to_writer_room:
  assumes "length (concat ps) \<le> dk_room d" "dk_temp d = Some []"
  shows "\<exists>d'. to_writer ps d = (True, d') \<and> same_state d d' \<and> dk_temp d' = Some (concat ps)"
proof -
  obtain ok buf d1 where w: "buf_write_all ps [] d = (ok, buf, d1)" by (metis prod.exhaust)
  have fit: "length [] + length (concat ps) \<le> dk_room d" using assms by simp
  from buf_write_all_room [OF fit assms(2) w] show ?thesis using w
    by (auto simp: to_writer_def flush_buf_def write_temp_room same_state_def)
qed

text \<open>A write never touches the stored state: it changes only by the rename.\<close>

lemma write_temp_same: "write_temp b d = (ok, n, d') \<Longrightarrow> same_state d d'"
  by (auto simp: write_temp_def same_state_def Let_def)

lemma flush_buf_same: "flush_buf buf d = (ok, buf', d') \<Longrightarrow> same_state d d'"
  by (auto simp: flush_buf_def dest: write_temp_same split: prod.splits)

lemma buf_write_same: "buf_write p buf d = (ok, buf', d') \<Longrightarrow> same_state d d'"
  by (auto simp: buf_write_def same_state_def Let_def dest!: write_temp_same flush_buf_same split: prod.splits if_splits)

lemma buf_write_all_same: "buf_write_all ps buf d = (ok, buf', d') \<Longrightarrow> same_state d d'"
proof (induction ps arbitrary: buf d)
  case (Cons p ps)
  obtain ok1 buf1 d1 where w: "buf_write p buf d = (ok1, buf1, d1)" by (metis prod.exhaust)
  show ?case
  proof (cases ok1)
    case True
    then have "same_state d1 d'" using Cons w by simp
    with buf_write_same [OF w] show ?thesis by (rule same_state_trans)
  qed (use Cons.prems w buf_write_same in auto)
qed (simp add: same_state_def)

lemma to_writer_same: "to_writer ps d = (ok, d') \<Longrightarrow> same_state d d'"
  by (auto simp: to_writer_def Let_def same_state_def dest!: buf_write_all_same flush_buf_same split: prod.splits)


definition sample_state_json :: state_json where
  "sample_state_json = \<lparr>sj_pieces = (\<lambda>st. [''{'', show_nat (rs_saved_at st), ''}'']),
     sj_parse = (\<lambda>s. if s = ''{7}'' then Inr (registry_state_default\<lparr>rs_saved_at := 7\<rparr>) else Inl ''EOF'')\<rparr>"

definition sample_disk :: "nat \<Rightarrow> disk" where
  "sample_disk room = \<lparr>dk_state = Some ''{7}'', dk_temp = None, dk_room = room, dk_mkdir_error = None, dk_create_error = None,
     dk_rename_error = None, dk_open_error = None, dk_full_error = ''No space left on device''\<rparr>"

lemma show_7: "show_nat 7 = ''7''"
  by (simp add: show_nat.simps digit_char_def char_of_def bit_Suc_0_iff)


text \<open>
  Without room the last flush fails, which is ignored: the save reports success and has replaced the state
  by an empty file, and the next start silently begins with the default state.
\<close>

lemma full_disk_loses_state:
  "let st = registry_state_default\<lparr>rs_saved_at := 7\<rparr>; (res, d') = state_save sample_state_json st (sample_disk 0)
   in res = Inr () \<and> state_load sample_state_json (sample_disk 0) = Inr st \<and> dk_state d' = Some [] \<and>
      state_load sample_state_json d' = Inl (StateParseError ''EOF'') \<and> load_or_default sample_state_json d' = registry_state_default"
  by (simp add: state_save_def sample_state_json_def sample_disk_def show_7 to_writer_def buf_write_def flush_buf_def write_temp_def
      create_temp_def rename_temp_def state_load_def load_or_default_def BUF_CAPACITY_def file_len_def Let_def)

end
