(* ===== verification/Model_Encryption.thy ===== *)
theory Model_Encryption
  imports Rust_Text GG_Prelude
begin

text \<open>
  Encryption of model files at rest (\<open>security/encryption_core.rs\<close>, \<open>security/encryption_io.rs\<close>) and the
  rotation of keys (\<open>security/key_rotation.rs\<close>).

  AES-256-GCM is a parameter; random nonces and keys are arguments. Bytes are characters. A panic is
  \<open>None\<close>: an index out of range, or an allocation of more than \<open>isize::MAX\<close> bytes.
\<close>

section \<open>The cipher and its nonces\<close>

definition KEY_SIZE :: usize where "KEY_SIZE = 32"
definition NONCE_SIZE :: usize where "NONCE_SIZE = 12"
definition MAX_NONCE_HISTORY :: usize where "MAX_NONCE_HISTORY = 10000"

datatype encryption_error =
    InvalidKeySize
  | EncryptionFailed string
  | DecryptionFailed string
  | InvalidCiphertext
  | EncIoError string
  | AuthenticationFailed
  | NonceReuseDetected

primrec show_encryption_error :: "encryption_error \<Rightarrow> string" where
  "show_encryption_error InvalidKeySize = ''Invalid key size''"
| "show_encryption_error (EncryptionFailed s) = ''Encryption failed: '' @ s"
| "show_encryption_error (DecryptionFailed s) = ''Decryption failed: '' @ s"
| "show_encryption_error InvalidCiphertext = ''Invalid ciphertext''"
| "show_encryption_error (EncIoError s) = ''IO error: '' @ s"
| "show_encryption_error AuthenticationFailed = ''Authentication failed''"
| "show_encryption_error NonceReuseDetected = ''CRITICAL: Nonce reuse detected - possible RNG failure''"

text \<open>The authenticated cipher: key, nonce and text.\<close>

record aead =
  ae_encrypt :: "string \<Rightarrow> string \<Rightarrow> string \<Rightarrow> string + string"
  ae_decrypt :: "string \<Rightarrow> string \<Rightarrow> string \<Rightarrow> string option"

text \<open>The set of used nonces, in the order its iterator visits them.\<close>

definition check_and_register_nonce :: "string \<Rightarrow> string list \<Rightarrow> (encryption_error + unit) \<times> string list" where
  "check_and_register_nonce n used =
     (if n \<in> set used then (Inl NonceReuseDetected, used)
      else
        let used' = (if MAX_NONCE_HISTORY \<le> length used then drop (MAX_NONCE_HISTORY div 2) used else used)
        in (Inr (), used' @ [n]))"

definition me_encrypt ::
  "aead \<Rightarrow> string \<Rightarrow> string \<Rightarrow> string \<Rightarrow> string list \<Rightarrow> (encryption_error + string \<times> string) \<times> string list" where
  "me_encrypt A key nonce plaintext used =
     (case check_and_register_nonce nonce used of
        (Inl e, used') \<Rightarrow> (Inl e, used')
      | (Inr _, used') \<Rightarrow>
          ((case ae_encrypt A key nonce plaintext of
              Inl e \<Rightarrow> Inl (EncryptionFailed e)
            | Inr ct \<Rightarrow> Inr (nonce, ct)), used'))"

definition me_decrypt :: "aead \<Rightarrow> string \<Rightarrow> string \<Rightarrow> string \<Rightarrow> encryption_error + string" where
  "me_decrypt A key nonce ct =
     (if length nonce \<noteq> NONCE_SIZE then Inl (DecryptionFailed ''Invalid nonce size'')
      else (case ae_decrypt A key nonce ct of None \<Rightarrow> Inl AuthenticationFailed | Some pt \<Rightarrow> Inr pt))"

text \<open>
  What the cipher promises: with a nonce of its size, decryption inverts encryption under the same key and
  nonce.
\<close>

definition aead_inverts :: "aead \<Rightarrow> bool" where
  "aead_inverts A \<longleftrightarrow>
     (\<forall>key nonce pt ct. length nonce = NONCE_SIZE \<longrightarrow> ae_encrypt A key nonce pt = Inr ct \<longrightarrow> ae_decrypt A key nonce ct = Some pt)"

section \<open>Encrypted files\<close>

definition u_le :: "nat \<Rightarrow> nat \<Rightarrow> string" where
  "u_le k n = map char_of (le_bytes k n)"

definition of_le :: "string \<Rightarrow> nat" where
  "of_le s = of_le_bytes (map of_char s)"

lemma u_le_length [simp]: "length (u_le k n) = k"
  by (simp add: u_le_def)

lemma of_le_u_le: "n < 256 ^ k \<Longrightarrow> of_le (u_le k n) = n"
proof -
  assume n: "n < 256 ^ k"
  have "map of_char (u_le k n) = le_bytes k n"
    by (auto simp: u_le_def comp_def intro!: map_idI dest: le_bytes_less)
  then show ?thesis using n by (simp add: of_le_def of_le_bytes_le_bytes)
qed

definition write_encrypted_file :: "string \<Rightarrow> string \<Rightarrow> string" where
  "write_encrypted_file nonce ct = ''GGGCM'' @ [CHR 0x02, CHR 0x00] @ nonce @ u_le 8 (length ct) @ ct"

definition EOF_ERROR :: encryption_error where
  "EOF_ERROR = EncIoError ''failed to fill whole buffer''"

definition take_exact :: "usize \<Rightarrow> string \<Rightarrow> encryption_error + string \<times> string" where
  "take_exact n s = (if length s < n then Inl EOF_ERROR else Inr (take n s, drop n s))"

definition ISIZE_MAX :: nat where "ISIZE_MAX = 2 ^ 63 - 1"

text \<open>\<open>vec![0u8; len]\<close> before the bytes are read.\<close>

definition read_sized :: "string \<Rightarrow> (encryption_error + string) option" where
  "read_sized s =
     (case take_exact 8 s of
        Inl e \<Rightarrow> Some (Inl e)
      | Inr (lb, s1) \<Rightarrow>
          if ISIZE_MAX < of_le lb then None
          else (case take_exact (of_le lb) s1 of Inl e \<Rightarrow> Some (Inl e) | Inr (ct, _) \<Rightarrow> Some (Inr ct)))"

definition read_gcm_payload :: "aead \<Rightarrow> string \<Rightarrow> string \<Rightarrow> string \<Rightarrow> (encryption_error + string) option" where
  "read_gcm_payload A key nonce s =
     map_option (\<lambda>r. case r of Inl e \<Rightarrow> Inl e | Inr ct \<Rightarrow> me_decrypt A key nonce ct) (read_sized s)"

definition legacy_error :: encryption_error where
  "legacy_error = DecryptionFailed ''Legacy ECB format no longer supported. Please re-encrypt your files.''"

definition read_legacy_ecb_payload :: "string \<Rightarrow> (encryption_error + string) option" where
  "read_legacy_ecb_payload s =
     (case take_exact 16 s of
        Inl e \<Rightarrow> Some (Inl e)
      | Inr (_, s1) \<Rightarrow> map_option (\<lambda>r. case r of Inl e \<Rightarrow> Inl e | Inr _ \<Rightarrow> Inl legacy_error) (read_sized s1))"

definition read_and_decrypt_file :: "aead \<Rightarrow> string \<Rightarrow> string \<Rightarrow> (encryption_error + string) option" where
  "read_and_decrypt_file A key s =
     (case take_exact 5 s of
        Inl e \<Rightarrow> Some (Inl e)
      | Inr (magic, s1) \<Rightarrow>
          if magic \<notin> {''GGGCM'', ''HLGCM'', ''HLINK''} then Some (Inl InvalidCiphertext)
          else
            (case take_exact 2 s1 of
               Inl e \<Rightarrow> Some (Inl e)
             | Inr (_, s2) \<Rightarrow>
                 (case take_exact NONCE_SIZE s2 of
                    Inl e \<Rightarrow> Some (Inl e)
                  | Inr (nonce, s3) \<Rightarrow>
                      if magic \<in> {''GGGCM'', ''HLGCM''} then read_gcm_payload A key nonce s3
                      else read_legacy_ecb_payload s3)))"

text \<open>\<open>encrypt_file\<close> and \<open>decrypt_file\<close> on the contents of their files.\<close>

definition encrypt_file ::
  "aead \<Rightarrow> string \<Rightarrow> string \<Rightarrow> string \<Rightarrow> string list \<Rightarrow> (encryption_error + string) \<times> string list" where
  "encrypt_file A key nonce plaintext used =
     (case me_encrypt A key nonce plaintext used of
        (Inl e, used') \<Rightarrow> (Inl e, used')
      | (Inr (n, ct), used') \<Rightarrow> (Inr (write_encrypted_file n ct), used'))"

lemma me_encrypt_Inr:
  "me_encrypt A key nonce pt used = (Inr (n, ct), used') \<Longrightarrow> n = nonce \<and> ae_encrypt A key nonce pt = Inr ct \<and> nonce \<notin> set used"
  by (auto simp: me_encrypt_def check_and_register_nonce_def Let_def split: prod.splits sum.splits if_splits)

lemma take_exact_append [simp]: "length a = n \<Longrightarrow> take_exact n (a @ b) = Inr (a, b)"
  by (auto simp: take_exact_def)

lemma read_sized_written: "length ct \<le> ISIZE_MAX \<Longrightarrow> read_sized (u_le 8 (length ct) @ ct) = Some (Inr ct)"
proof -
  assume len: "length ct \<le> ISIZE_MAX"
  then have "length ct < 256 ^ 8" by (simp add: ISIZE_MAX_def)
  then have "of_le (u_le 8 (length ct)) = length ct" by (rule of_le_u_le)
  then show ?thesis using len take_exact_append [of ct "length ct" "[]"] by (simp add: read_sized_def)
qed

text \<open>
  An encrypted file gives back its contents: if encryption succeeds with a nonce of the right size and a
  ciphertext that fits the address space, then reading and decrypting the written file with the same key
  returns the original bytes, without an error and without a panic.
\<close>

theorem encrypted_file_roundtrip:
  assumes "aead_inverts A" "length nonce = NONCE_SIZE"
    and enc: "me_encrypt A key nonce pt used = (Inr (n, ct), used')" and "length ct \<le> ISIZE_MAX"
  shows "read_and_decrypt_file A key (write_encrypted_file n ct) = Some (Inr pt)"
proof -
  have n: "n = nonce" and c: "ae_encrypt A key nonce pt = Inr ct" using me_encrypt_Inr [OF enc] by auto
  have "ae_decrypt A key nonce ct = Some pt" using assms c unfolding aead_inverts_def by blast
  then have "read_gcm_payload A key nonce (u_le 8 (length ct) @ ct) = Some (Inr pt)"
    using assms by (simp add: read_gcm_payload_def read_sized_written me_decrypt_def)
  then show ?thesis
    using assms n take_exact_append [of "''GGGCM''" 5] take_exact_append [of "[CHR 0x02, CHR 0x00]" 2]
    by (simp add: read_and_decrypt_file_def write_encrypted_file_def)
qed

text \<open>A length field of more than \<open>isize::MAX\<close> panics before a byte of the payload is read.\<close>

definition max_length :: string where
  "max_length = [CHR 0xFF, CHR 0xFF, CHR 0xFF, CHR 0xFF, CHR 0xFF, CHR 0xFF, CHR 0xFF, CHR 0xFF]"

lemma huge_length_panics:
  assumes "length nonce = NONCE_SIZE"
  shows "read_and_decrypt_file A key (''GGGCM'' @ [CHR 0x02, CHR 0x00] @ nonce @ max_length) = None"
proof -
  have "of_le max_length = 18446744073709551615"
    by (simp add: of_le_def max_length_def)
  then have "read_gcm_payload A key nonce max_length = None"
    using take_exact_append [of max_length 8 "[]"]
    by (simp add: read_gcm_payload_def read_sized_def ISIZE_MAX_def max_length_def)
  then show ?thesis
    using assms take_exact_append [of "''GGGCM''" 5] take_exact_append [of "[CHR 0x02, CHR 0x00]" 2]
    by (simp add: read_and_decrypt_file_def)
qed

section \<open>Used nonces\<close>

definition nonce_history_ok :: "string list \<Rightarrow> bool" where
  "nonce_history_ok used \<longleftrightarrow> distinct used \<and> length used \<le> MAX_NONCE_HISTORY"

lemma nonce_history_kept:
  "nonce_history_ok used \<Longrightarrow> nonce_history_ok (snd (check_and_register_nonce n used))"
  by (auto simp: nonce_history_ok_def check_and_register_nonce_def MAX_NONCE_HISTORY_def Let_def distinct_drop dest: in_set_dropD)

text \<open>A full history forgets half of its nonces, and a forgotten nonce is accepted again.\<close>

lemma forgotten_nonce_accepted:
  assumes "nonce_history_ok used" "length used = MAX_NONCE_HISTORY" "n \<notin> set used"
  shows "hd used \<noteq> n \<and> fst (check_and_register_nonce (hd used) (snd (check_and_register_nonce n used))) = Inr ()"
proof (cases used)
  case Nil
  then show ?thesis using assms by (simp add: MAX_NONCE_HISTORY_def)
next
  case (Cons x xs)
  then show ?thesis using assms
    by (auto simp: check_and_register_nonce_def nonce_history_ok_def MAX_NONCE_HISTORY_def Let_def drop_Cons' dest: in_set_dropD)
qed

section \<open>Key rotation\<close>

type_synonym key_id = nat

definition FORMAT_VERSION :: nat where "FORMAT_VERSION = 3"

datatype key_rotation_error =
    KeyNotFound key_id
  | KrEncryption encryption_error
  | NoActiveKey
  | KrIoError string
  | KrInvalidFormat string

primrec show_key_rotation_error :: "key_rotation_error \<Rightarrow> string" where
  "show_key_rotation_error (KeyNotFound i) = ''Key not found: '' @ show_nat i"
| "show_key_rotation_error (KrEncryption e) = ''Encryption error: '' @ show_encryption_error e"
| "show_key_rotation_error NoActiveKey = ''No active encryption key configured''"
| "show_key_rotation_error (KrIoError s) = ''IO error: '' @ s"
| "show_key_rotation_error (KrInvalidFormat s) = ''Invalid format: '' @ s"

record key_entry =
  ke_key :: string
  ke_created_at :: nat
  ke_is_active :: bool

record key_manager =
  km_keys :: "(key_id, key_entry) hash_map"
  km_active :: "key_id option"
  km_next :: key_id

definition km_new :: key_manager where
  "km_new = \<lparr>km_keys = [], km_active = None, km_next = 1\<rparr>"

definition add_key :: "nat \<Rightarrow> string \<Rightarrow> bool \<Rightarrow> key_manager \<Rightarrow> key_id \<times> key_manager" where
  "add_key now key make_active K =
     (let i = km_next K in
      (i, K\<lparr>km_next := (i + 1) mod 2 ^ 32,
            km_keys := AList.update i \<lparr>ke_key = key, ke_created_at = now, ke_is_active = make_active\<rparr> (km_keys K),
            km_active := (if make_active then Some i else km_active K)\<rparr>))"

definition rotate_key :: "nat \<Rightarrow> string \<Rightarrow> key_manager \<Rightarrow> key_id \<times> key_manager" where
  "rotate_key now fresh K =
     (let old = km_active K; (i, K1) = add_key now fresh True K in
      (i, case old of
            None \<Rightarrow> K1
          | Some o' \<Rightarrow>
              (case map_of (km_keys K1) o' of
                 None \<Rightarrow> K1
               | Some e \<Rightarrow> K1\<lparr>km_keys := AList.update o' (e\<lparr>ke_is_active := False\<rparr>) (km_keys K1)\<rparr>)))"

definition km_encrypt ::
  "aead \<Rightarrow> string \<Rightarrow> string \<Rightarrow> key_manager \<Rightarrow> string list \<Rightarrow> (key_rotation_error + string) \<times> string list" where
  "km_encrypt A nonce plaintext K used =
     (case km_active K of
        None \<Rightarrow> (Inl NoActiveKey, used)
      | Some i \<Rightarrow>
          (case map_of (km_keys K) i of
             None \<Rightarrow> (Inl (KeyNotFound i), used)
           | Some e \<Rightarrow>
               (case me_encrypt A (ke_key e) nonce plaintext used of
                  (Inl x, used') \<Rightarrow> (Inl (KrEncryption x), used')
                | (Inr (n, ct), used') \<Rightarrow>
                    (Inr (''GGGCM'' @ [char_of FORMAT_VERSION] @ u_le 4 i @ n @ u_le 8 (length ct) @ ct), used'))))"

text \<open>\<open>None\<close> is the panic of the last slice; its end is computed with wrap-around.\<close>

definition parse_header :: "string \<Rightarrow> (key_rotation_error + key_id \<times> string \<times> string) option" where
  "parse_header d =
     (if length d < 5 + 1 + 4 + NONCE_SIZE + 8 then Some (Inl (KrInvalidFormat ''Data too short''))
      else if take 5 d \<noteq> ''GGGCM'' then Some (Inl (KrInvalidFormat ''Invalid magic''))
      else if of_char (d ! 5) < (3 :: nat) then Some (Inl (KrInvalidFormat ''Version too old''))
      else
        let i = of_le (take 4 (drop 6 d));
            nonce = take NONCE_SIZE (drop 10 d);
            len_start = 10 + NONCE_SIZE;
            ct_len = of_le (take 8 (drop len_start d));
            ct_start = len_start + 8;
            ct_end = wrap_add ct_start ct_len
        in if length d < ct_end then Some (Inl (KrInvalidFormat ''Truncated data''))
           else if ct_end < ct_start then None
           else Some (Inr (i, nonce, take (ct_end - ct_start) (drop ct_start d))))"

definition km_decrypt :: "aead \<Rightarrow> string \<Rightarrow> key_manager \<Rightarrow> (key_rotation_error + string) option" where
  "km_decrypt A d K =
     map_option
       (\<lambda>r. case r of
              Inl e \<Rightarrow> Inl e
            | Inr (i, nonce, ct) \<Rightarrow>
                (case map_of (km_keys K) i of
                   None \<Rightarrow> Inl (KeyNotFound i)
                 | Some e \<Rightarrow>
                     (case me_decrypt A (ke_key e) nonce ct of Inl x \<Rightarrow> Inl (KrEncryption x) | Inr pt \<Rightarrow> Inr pt)))
       (parse_header d)"

text \<open>\<open>migrate_file\<close> on the contents of its files.\<close>

definition migrate_data ::
  "aead \<Rightarrow> string \<Rightarrow> string \<Rightarrow> key_manager \<Rightarrow> string list \<Rightarrow> ((key_rotation_error + string) \<times> string list) option" where
  "migrate_data A nonce d K used =
     map_option (\<lambda>r. case r of Inl e \<Rightarrow> (Inl e, used) | Inr pt \<Rightarrow> km_encrypt A nonce pt K used) (km_decrypt A d K)"

datatype key_op = AddKey nat string bool | RotateKey nat string

primrec key_step :: "key_op \<Rightarrow> key_manager \<Rightarrow> key_manager" where
  "key_step (AddKey now key act) K = snd (add_key now key act K)"
| "key_step (RotateKey now key) K = snd (rotate_key now key K)"

lemma header_layout:
  assumes "length nonce = NONCE_SIZE" "i < 2 ^ 32" "length ct \<le> ISIZE_MAX"
  shows "parse_header (''GGGCM'' @ [char_of FORMAT_VERSION] @ u_le 4 i @ nonce @ u_le 8 (length ct) @ ct) = Some (Inr (i, nonce, ct))"
proof -
  have "of_le (u_le 4 i) = i" "of_le (u_le 8 (length ct)) = length ct"
    using assms by (auto intro!: of_le_u_le simp: ISIZE_MAX_def)
  moreover have "wrap_add (10 + 12 + 8) (length ct) = 30 + length ct"
    using assms(3) wrap_add_exact [of 30 "length ct"] by (simp add: ISIZE_MAX_def two64_numeral)
  ultimately show ?thesis using assms(1)
    by (simp add: parse_header_def FORMAT_VERSION_def NONCE_SIZE_def Let_def)
qed

text \<open>Every id is below the next one, so that a new key never replaces an old one.\<close>

definition keys_ok :: "key_manager \<Rightarrow> bool" where
  "keys_ok K \<longleftrightarrow> (\<forall>i. map_of (km_keys K) i \<noteq> None \<longrightarrow> i < km_next K) \<and>
     (\<forall>i. km_active K = Some i \<longrightarrow> map_of (km_keys K) i \<noteq> None) \<and> km_next K < 2 ^ 32"

definition key_of :: "key_manager \<Rightarrow> key_id \<Rightarrow> string option" where
  "key_of K i = map_option ke_key (map_of (km_keys K) i)"

lemma keys_ok_new: "keys_ok km_new"
  by (simp add: keys_ok_def km_new_def)

lemma key_step_keeps:
  assumes "keys_ok K" "km_next K + 1 < 2 ^ 32"
  shows "keys_ok (key_step op K) \<and> km_next (key_step op K) = km_next K + 1 \<and>
         (\<forall>i k. key_of K i = Some k \<longrightarrow> key_of (key_step op K) i = Some k)"
  using assms
  by (cases op) (auto simp: keys_ok_def add_key_def rotate_key_def key_of_def Let_def less_Suc_eq split: option.splits)

lemma key_run_keeps:
  "keys_ok K \<Longrightarrow> km_next K + length ops < 2 ^ 32 \<Longrightarrow>
     keys_ok (fold key_step ops K) \<and> (\<forall>i k. key_of K i = Some k \<longrightarrow> key_of (fold key_step ops K) i = Some k)"
proof (induction ops arbitrary: K)
  case (Cons op ops)
  then show ?case using key_step_keeps [of K op] by auto
qed simp

lemma km_encrypt_Inr:
  "km_encrypt A nonce pt K used = (Inr d, used') \<Longrightarrow>
     \<exists>i k ct. key_of K i = Some k \<and> km_active K = Some i \<and> ae_encrypt A k nonce pt = Inr ct \<and>
       d = ''GGGCM'' @ [char_of FORMAT_VERSION] @ u_le 4 i @ nonce @ u_le 8 (length ct) @ ct"
  by (auto simp: km_encrypt_def key_of_def split: option.splits prod.splits sum.splits dest!: me_encrypt_Inr)

lemma km_decrypt_parsed:
  assumes "aead_inverts A" "length nonce = NONCE_SIZE" "parse_header d = Some (Inr (i, nonce, ct))" "key_of K i = Some k"
    "ae_encrypt A k nonce pt = Inr ct"
  shows "km_decrypt A d K = Some (Inr pt)"
proof -
  have "ae_decrypt A k nonce ct = Some pt" using assms unfolding aead_inverts_def by blast
  then show ?thesis using assms by (auto simp: km_decrypt_def key_of_def me_decrypt_def)
qed

text \<open>
  C30: Rotation loses no data: what was encrypted under the active key at any time decrypts to the same bytes
  after any number of later key additions and rotations, because the header names the key and no key is
  ever replaced. The hypotheses bound the number of keys by the range of key ids and the data by the
  address space.
\<close>

theorem rotation_keeps_data_readable:
  assumes "aead_inverts A" "length nonce = NONCE_SIZE"
    and hist: "K = fold key_step ops0 km_new" and room: "length ops0 + length ops + 1 < 2 ^ 32"
    and enc: "km_encrypt A nonce pt K used = (Inr d, used')" and "length d \<le> ISIZE_MAX"
  shows "km_decrypt A d (fold key_step ops K) = Some (Inr pt)"
proof -
  have next_id: "keys_ok (fold key_step os k0) \<and> km_next (fold key_step os k0) = km_next k0 + length os"
    if "keys_ok k0" "km_next k0 + length os < 2 ^ 32" for os k0
    using that
  proof (induction os arbitrary: k0)
    case (Cons op os)
    then show ?case using key_step_keeps [of k0 op] by auto
  qed simp
  have K: "keys_ok K" "km_next K = 1 + length ops0"
    using next_id [OF keys_ok_new, of ops0] room hist by (simp_all add: km_new_def)
  obtain i k ct where e: "key_of K i = Some k" "ae_encrypt A k nonce pt = Inr ct"
    "d = ''GGGCM'' @ [char_of FORMAT_VERSION] @ u_le 4 i @ nonce @ u_le 8 (length ct) @ ct"
    using km_encrypt_Inr [OF enc] by blast
  have "i < 2 ^ 32" using e(1) K(1) by (fastforce simp: keys_ok_def key_of_def)
  moreover have "length ct \<le> ISIZE_MAX" using e(3) assms(6) by simp
  ultimately have "parse_header d = Some (Inr (i, nonce, ct))" using header_layout [OF assms(2)] e(3) by simp
  moreover have "key_of (fold key_step ops K) i = Some k" using key_run_keeps [of K ops] K room e(1) by simp
  ultimately show ?thesis using km_decrypt_parsed [OF assms(1,2)] e(2) by blast
qed

text \<open>A length field close to the largest integer passes the check and panics at the slice.\<close>

lemma crafted_header_panics:
  assumes "length nonce = NONCE_SIZE"
  shows "parse_header (''GGGCM'' @ [char_of FORMAT_VERSION] @ u_le 4 i @ nonce @ max_length) = None"
proof -
  have "of_le max_length = 18446744073709551615" "length max_length = 8"
    by (simp_all add: of_le_def max_length_def)
  then show ?thesis using assms
    by (simp add: parse_header_def FORMAT_VERSION_def NONCE_SIZE_def wrap_add_def two64_numeral Let_def)
qed

section \<open>Examples\<close>

text \<open>A cipher that shows its key and text.\<close>

definition sample_aead :: aead where
  "sample_aead = \<lparr>ae_encrypt = (\<lambda>k n p. Inr (k @ p)), ae_decrypt = (\<lambda>k n c. if take (length k) c = k then Some (drop (length k) c) else None)\<rparr>"

lemma sample_aead_inverts: "aead_inverts sample_aead"
  by (auto simp: aead_inverts_def sample_aead_def)

definition sample_nonce :: string where "sample_nonce = ''0123456789ab''"

theorem encrypted_file_roundtrip_witness:
  "\<exists>n ct. me_encrypt sample_aead ''key'' sample_nonce ''weights'' [] = (Inr (n, ct), [sample_nonce]) \<and>
     read_and_decrypt_file sample_aead ''key'' (write_encrypted_file n ct) = Some (Inr ''weights'')"
proof -
  have e: "me_encrypt sample_aead ''key'' sample_nonce ''weights'' [] = (Inr (sample_nonce, ''keyweights''), [sample_nonce])"
    by (simp add: me_encrypt_def check_and_register_nonce_def sample_aead_def MAX_NONCE_HISTORY_def)
  have "length sample_nonce = NONCE_SIZE" "length ''keyweights'' \<le> ISIZE_MAX"
    by (simp_all add: sample_nonce_def NONCE_SIZE_def ISIZE_MAX_def)
  then show ?thesis using encrypted_file_roundtrip [OF sample_aead_inverts _ e] e by blast
qed

theorem rotation_keeps_data_readable_witness:
  "\<exists>d. fst (km_encrypt sample_aead sample_nonce ''weights'' (fold key_step [AddKey 0 ''k1'' True] km_new) []) = Inr d \<and>
     km_decrypt sample_aead d (fold key_step [RotateKey 5 ''k2'', AddKey 7 ''k3'' False] (fold key_step [AddKey 0 ''k1'' True] km_new))
       = Some (Inr ''weights'')"
proof -
  let ?K = "fold key_step [AddKey 0 ''k1'' True] km_new"
  obtain d used' where e: "km_encrypt sample_aead sample_nonce ''weights'' ?K [] = (Inr d, used')" "length d = 39"
    by (simp add: km_encrypt_def km_new_def add_key_def me_encrypt_def check_and_register_nonce_def sample_aead_def
        MAX_NONCE_HISTORY_def sample_nonce_def)
  have "length sample_nonce = NONCE_SIZE" "length d \<le> ISIZE_MAX"
    using e(2) by (simp_all add: sample_nonce_def NONCE_SIZE_def ISIZE_MAX_def)
  moreover have "length [AddKey 0 ''k1'' True] + length [RotateKey 5 ''k2'', AddKey 7 ''k3'' False] + 1 < (2 :: nat) ^ 32" by simp
  ultimately show ?thesis
    using rotation_keeps_data_readable [OF sample_aead_inverts _ refl _ e(1), of "[RotateKey 5 ''k2'', AddKey 7 ''k3'' False]"] e by simp
qed

end
