(* ===== verification/Model_Pool.thy ===== *)
theory Model_Pool
  imports Model_Lifecycle
begin

text \<open>
  The pool of preloaded models (\<open>models/pool.rs\<close>, \<open>models/pool_types.rs\<close>).

  A preload takes the lock of the table several times: it looks, gives the lock up to evict, and takes it
  again to insert. The pieces between two acquisitions are definitions of their own, and \<open>pool_preload\<close> is
  their composition when nobody else runs in between. \<open>u64\<close> arithmetic wraps.
\<close>

section \<open>State\<close>

datatype pool_error =
    PoolCapacityExceeded usize usize
  | PoolModelNotFound string
  | PoolAlreadyLoaded string
  | EvictionFailed

primrec show_pool_error :: "pool_error \<Rightarrow> string" where
  "show_pool_error (PoolCapacityExceeded c m) = ''Pool capacity exceeded: '' @ show_nat c @ ''/'' @ show_nat m"
| "show_pool_error (PoolModelNotFound m) = ''Model not in pool: '' @ m"
| "show_pool_error (PoolAlreadyLoaded m) = ''Model already in pool: '' @ m"
| "show_pool_error EvictionFailed = ''Eviction failed: no evictable models''"

datatype model_tier = TierTesting | TierDefault | TierQuality

primrec tier_code :: "model_tier \<Rightarrow> nat" where
  "tier_code TierTesting = 0"
| "tier_code TierDefault = 1"
| "tier_code TierQuality = 2"

record pool_config =
  pc_max_models :: usize
  pc_max_memory_bytes :: usize
  pc_warmup_prompt :: string
  pc_enable_preload :: bool

definition pool_config_default :: pool_config where
  "pool_config_default = \<lparr>pc_max_models = 3, pc_max_memory_bytes = 8 * 1024 * 1024 * 1024, pc_warmup_prompt = ''Hello'',
     pc_enable_preload = True\<rparr>"

record pool_metrics =
  px_hits :: u64
  px_misses :: u64
  px_evictions :: u64
  px_warmups_completed :: u64
  px_avg_switch_latency_ns :: u64

record pooled_model =
  po_handle :: model_handle
  po_tier :: model_tier
  po_memory_bytes :: usize
  po_loaded_at :: instant
  po_last_used :: instant
  po_use_count :: u64
  po_warmup_complete :: bool

record model_pool =
  mp_config :: pool_config
  mp_registry :: model_registry
  mp_models :: "(string, pooled_model) hash_map"
  mp_active :: "string option"
  mp_metrics :: pool_metrics

definition pool_new :: "pool_config \<Rightarrow> model_registry \<Rightarrow> model_pool" where
  "pool_new cfg R = \<lparr>mp_config = cfg, mp_registry = R, mp_models = [], mp_active = None,
     mp_metrics = \<lparr>px_hits = 0, px_misses = 0, px_evictions = 0, px_warmups_completed = 0, px_avg_switch_latency_ns = 0\<rparr>\<rparr>"

section \<open>Eviction\<close>

definition eviction_score :: "instant \<Rightarrow> pooled_model \<Rightarrow> u64" where
  "eviction_score now m =
     (let tier_weight = tier_code (po_tier m) * 1000000;
          recency_weight = (now - po_last_used m) div 1000000000;
          usage_weight = min (po_use_count m) 1000
      in wrap_sub (tier_weight + usage_weight) (min recency_weight 999))"

definition evictable :: "model_pool \<Rightarrow> (string \<times> pooled_model) list" where
  "evictable P = filter (\<lambda>(i, _). mp_active P \<noteq> Some i) (mp_models P)"

definition evict_one :: "instant \<Rightarrow> model_pool \<Rightarrow> (pool_error + string) \<times> model_pool" where
  "evict_one now P =
     (case min_by_key (\<lambda>(_, m). eviction_score now m) (evictable P) of
        None \<Rightarrow> (Inl EvictionFailed, P)
      | Some (i, m) \<Rightarrow>
          (Inr i, P\<lparr>mp_models := AList.delete i (mp_models P),
                    mp_registry := snd (unregister (po_handle m) (mp_registry P)),
                    mp_metrics := (mp_metrics P)\<lparr>px_evictions := wrap_add (px_evictions (mp_metrics P)) 1\<rparr>\<rparr>))"

definition pool_memory :: "model_pool \<Rightarrow> usize" where
  "pool_memory P = sum_list (map (po_memory_bytes \<circ> snd) (mp_models P)) mod two64"

lemma evict_one_Inr:
  assumes "evict_one now P = (Inr i, P')"
  obtains m where "(i, m) \<in> set (mp_models P)" "mp_active P \<noteq> Some i" "mp_models P' = AList.delete i (mp_models P)"
    "mp_active P' = mp_active P" "mp_config P' = mp_config P"
    "\<forall>j k. (j, k) \<in> set (mp_models P) \<and> mp_active P \<noteq> Some j \<longrightarrow> eviction_score now m \<le> eviction_score now k"
proof -
  obtain m where m: "min_by_key (\<lambda>(_, m). eviction_score now m) (evictable P) = Some (i, m)"
    and P': "mp_models P' = AList.delete i (mp_models P)" "mp_active P' = mp_active P" "mp_config P' = mp_config P"
    using assms by (auto simp: evict_one_def split: option.splits)
  from min_by_key_Some [OF m] P' show thesis
    by (intro that [of m]) (auto simp: evictable_def)
qed

lemma evict_one_Inl: "evict_one now P = (Inl e, P') \<Longrightarrow> P' = P \<and> evictable P = []"
  by (auto simp: evict_one_def split: option.splits)

lemma length_delete_less: "(i, m) \<in> set xs \<Longrightarrow> length (AList.delete i xs) < length xs"
  by (induction xs) (auto simp: le_imp_less_Suc length_delete_le intro: le_less_trans [OF length_delete_le])

text \<open>\<open>evict_for_memory\<close>: one eviction per round, so it ends after as many rounds as there are models.\<close>

function evict_for_memory :: "instant \<Rightarrow> usize \<Rightarrow> model_pool \<Rightarrow> (pool_error + unit) \<times> model_pool" where
  "evict_for_memory now needed P =
     (if wrap_add (pool_memory P) needed \<le> pc_max_memory_bytes (mp_config P) then (Inr (), P)
      else
        (case evict_one now P of
           (Inl e, P') \<Rightarrow> (Inl e, P')
         | (Inr _, P') \<Rightarrow> evict_for_memory now needed P'))"
  by pat_completeness auto
termination
proof (relation "measure (\<lambda>(_, _, P). length (mp_models P))", goal_cases)
  case (2 now needed P x P' i)
  then have "evict_one now P = (Inr i, P')" by simp
  then show ?case by (rule evict_one_Inr) (simp add: length_delete_less)
qed simp

declare evict_for_memory.simps [simp del]

section \<open>Preload and switch\<close>

text \<open>The first look: whether the id is free, and whether the table is full.\<close>

definition preload_look :: "string \<Rightarrow> model_pool \<Rightarrow> pool_error + bool" where
  "preload_look i P =
     (if map_of (mp_models P) i \<noteq> None then Inl (PoolAlreadyLoaded i)
      else Inr (pc_max_models (mp_config P) \<le> length (mp_models P)))"

definition memory_short :: "usize \<Rightarrow> model_pool \<Rightarrow> bool" where
  "memory_short needed P \<longleftrightarrow> pc_max_memory_bytes (mp_config P) < wrap_add (pool_memory P) needed"

definition pool_insert :: "instant \<Rightarrow> string \<Rightarrow> model_handle \<Rightarrow> model_tier \<Rightarrow> usize \<Rightarrow> model_pool \<Rightarrow> model_pool" where
  "pool_insert now i h t mem P =
     P\<lparr>mp_models := AList.update i \<lparr>po_handle = h, po_tier = t, po_memory_bytes = mem, po_loaded_at = now, po_last_used = now,
         po_use_count = 0, po_warmup_complete = False\<rparr> (mp_models P)\<rparr>"

definition pool_preload ::
  "instant \<Rightarrow> string \<Rightarrow> model_handle \<Rightarrow> model_tier \<Rightarrow> usize \<Rightarrow> model_pool \<Rightarrow> (pool_error + unit) \<times> model_pool" where
  "pool_preload now i h t mem P =
     (case preload_look i P of
        Inl e \<Rightarrow> (Inl e, P)
      | Inr full \<Rightarrow>
     (case (if full then evict_one now P else (Inr [], P)) of
        (Inl e, P1) \<Rightarrow> (Inl e, P1)
      | (Inr _, P1) \<Rightarrow>
     (case (if memory_short mem P1 then evict_for_memory now mem P1 else (Inr (), P1)) of
        (Inl e, P2) \<Rightarrow> (Inl e, P2)
      | (Inr _, P2) \<Rightarrow> (Inr (), pool_insert now i h t mem P2))))"

text \<open>
  A switch, with the time it took as measured. The average divides by the number of hits, which is positive
  until the counter wraps.
\<close>

record switch_result =
  sr_handle :: model_handle
  sr_switch_latency :: nat
  sr_was_preloaded :: bool
  sr_was_warmed :: bool

definition pool_switch_to :: "instant \<Rightarrow> u64 \<Rightarrow> string \<Rightarrow> model_pool \<Rightarrow> (pool_error + switch_result) \<times> model_pool" where
  "pool_switch_to now latency_ns i P =
     (case map_of (mp_models P) i of
        None \<Rightarrow> (Inl (PoolModelNotFound i), P)
      | Some m \<Rightarrow>
          (let m' = m\<lparr>po_last_used := now, po_use_count := wrap_add (po_use_count m) 1\<rparr>;
               X = mp_metrics P;
               hits = wrap_add (px_hits X) 1;
               avg = wrap_add ((px_avg_switch_latency_ns X * (hits - 1)) mod two64) latency_ns div hits
           in (Inr \<lparr>sr_handle = po_handle m, sr_switch_latency = latency_ns, sr_was_preloaded = True, sr_was_warmed = po_warmup_complete m\<rparr>,
               P\<lparr>mp_models := AList.update i m' (mp_models P), mp_active := Some i,
                 mp_metrics := X\<lparr>px_hits := hits, px_avg_switch_latency_ns := avg\<rparr>\<rparr>)))"

definition mark_warmed :: "string \<Rightarrow> model_pool \<Rightarrow> model_pool" where
  "mark_warmed i P =
     (case map_of (mp_models P) i of
        None \<Rightarrow> P
      | Some m \<Rightarrow>
          P\<lparr>mp_models := AList.update i (m\<lparr>po_warmup_complete := True\<rparr>) (mp_models P),
            mp_metrics := (mp_metrics P)\<lparr>px_warmups_completed := wrap_add (px_warmups_completed (mp_metrics P)) 1\<rparr>\<rparr>)"

definition pool_remove :: "string \<Rightarrow> model_pool \<Rightarrow> model_handle option \<times> model_pool" where
  "pool_remove i P =
     (case map_of (mp_models P) i of
        None \<Rightarrow> (None, P)
      | Some m \<Rightarrow>
          (Some (po_handle m),
           P\<lparr>mp_models := AList.delete i (mp_models P), mp_active := (if mp_active P = Some i then None else mp_active P)\<rparr>))"

record pool_status =
  pst_model_count :: usize
  pst_total_memory_bytes :: usize
  pst_active_model :: "string option"
  pst_loaded_models :: "string list"
  pst_metrics :: pool_metrics

definition pool_status_of :: "model_pool \<Rightarrow> pool_status" where
  "pool_status_of P =
     \<lparr>pst_model_count = length (mp_models P), pst_total_memory_bytes = pool_memory P, pst_active_model = mp_active P,
      pst_loaded_models = map fst (mp_models P), pst_metrics = mp_metrics P\<rparr>"

definition pool_contains :: "model_pool \<Rightarrow> string \<Rightarrow> bool" where
  "pool_contains P i \<longleftrightarrow> map_of (mp_models P) i \<noteq> None"

text \<open>The calls on a pool, one after the other.\<close>

datatype pool_op =
    OpPreload instant string model_handle model_tier usize
  | OpSwitch instant u64 string
  | OpWarmed string
  | OpRemove string

primrec pool_step :: "pool_op \<Rightarrow> model_pool \<Rightarrow> model_pool" where
  "pool_step (OpPreload now i h t mem) P = snd (pool_preload now i h t mem P)"
| "pool_step (OpSwitch now ns i) P = snd (pool_switch_to now ns i P)"
| "pool_step (OpWarmed i) P = mark_warmed i P"
| "pool_step (OpRemove i) P = snd (pool_remove i P)"

section \<open>The pool stays within its limits\<close>

definition mem_sum :: "(string, pooled_model) hash_map \<Rightarrow> nat" where
  "mem_sum m = sum_list (map (po_memory_bytes \<circ> snd) m)"

definition pool_ok :: "model_pool \<Rightarrow> bool" where
  "pool_ok P \<longleftrightarrow>
     wf_map (mp_models P) \<and> length (mp_models P) \<le> pc_max_models (mp_config P) \<and>
     mem_sum (mp_models P) \<le> pc_max_memory_bytes (mp_config P) \<and>
     (\<forall>i. mp_active P = Some i \<longrightarrow> map_of (mp_models P) i \<noteq> None)"

primrec op_fits :: "pool_config \<Rightarrow> pool_op \<Rightarrow> bool" where
  "op_fits cfg (OpPreload now i h t mem) = (pc_max_memory_bytes cfg + mem < two64)"
| "op_fits cfg (OpSwitch now ns i) = True"
| "op_fits cfg (OpWarmed i) = True"
| "op_fits cfg (OpRemove i) = True"

lemma mem_sum_delete_le: "mem_sum (AList.delete i m) \<le> mem_sum m"
  by (simp add: mem_sum_def AList.delete_eq sum_list_filter_le)

lemma mem_sum_update_new: "map_of m i = None \<Longrightarrow> mem_sum (AList.update i v m) = mem_sum m + po_memory_bytes v"
  by (induction m) (auto simp: mem_sum_def split: if_splits)

lemma mem_sum_update_same:
  "map_of m i = Some v \<Longrightarrow> po_memory_bytes v' = po_memory_bytes v \<Longrightarrow> mem_sum (AList.update i v' m) = mem_sum m"
  by (induction m) (auto simp: mem_sum_def split: if_splits)

lemma length_update_same: "map_of m i = Some v \<Longrightarrow> length (AList.update i v' m) = length m"
  by (induction m) (auto split: if_splits)

lemma length_update_new: "map_of m i = None \<Longrightarrow> length (AList.update i v m) = Suc (length m)"
  by (induction m) (auto split: if_splits)

text \<open>What an eviction keeps: fewer models, none of them new, and the active one among them.\<close>

definition shrunk :: "model_pool \<Rightarrow> model_pool \<Rightarrow> bool" where
  "shrunk P P' \<longleftrightarrow>
     wf_map (mp_models P') \<and> length (mp_models P') \<le> length (mp_models P) \<and> mem_sum (mp_models P') \<le> mem_sum (mp_models P) \<and>
     mp_active P' = mp_active P \<and> mp_config P' = mp_config P \<and>
     (\<forall>i. mp_active P = Some i \<longrightarrow> map_of (mp_models P') i = map_of (mp_models P) i) \<and>
     (\<forall>i. map_of (mp_models P) i = None \<longrightarrow> map_of (mp_models P') i = None)"

lemma shrunk_refl: "wf_map (mp_models P) \<Longrightarrow> shrunk P P"
  by (simp add: shrunk_def)

lemma shrunk_trans: "shrunk P Q \<Longrightarrow> shrunk Q R \<Longrightarrow> shrunk P R"
  by (auto simp: shrunk_def)

lemma evict_one_shrunk:
  assumes "wf_map (mp_models P)" "evict_one now P = (res, P')"
  shows "shrunk P P' \<and> (\<forall>i. res = Inr i \<longrightarrow> length (mp_models P') < length (mp_models P))"
proof (cases res)
  case (Inl e)
  then show ?thesis using assms evict_one_Inl [of now P e P'] shrunk_refl by auto
next
  case (Inr i)
  with assms have "evict_one now P = (Inr i, P')" by simp
  then show ?thesis
    by (rule evict_one_Inr) (use assms Inr in \<open>auto simp: shrunk_def length_delete_le mem_sum_delete_le length_delete_less\<close>)
qed

lemma evict_for_memory_shrunk:
  "wf_map (mp_models P) \<Longrightarrow> evict_for_memory now needed P = (res, P') \<Longrightarrow>
     shrunk P P' \<and> (res = Inr () \<longrightarrow> wrap_add (pool_memory P') needed \<le> pc_max_memory_bytes (mp_config P'))"
proof (induction now needed P arbitrary: res P' rule: evict_for_memory.induct)
  case (1 now needed P)
  show ?case
  proof (cases "wrap_add (pool_memory P) needed \<le> pc_max_memory_bytes (mp_config P)")
    case True
    then show ?thesis using 1 by (auto simp: evict_for_memory.simps [of now needed P] shrunk_refl)
  next
    case False
    obtain r P1 where e: "evict_one now P = (r, P1)" by (metis prod.exhaust)
    have s: "shrunk P P1" using evict_one_shrunk [OF "1.prems"(1) e] by blast
    show ?thesis
    proof (cases r)
      case (Inl x)
      then show ?thesis using "1.prems" False e s by (auto simp: evict_for_memory.simps [of now needed P])
    next
      case (Inr i)
      then have "evict_for_memory now needed P1 = (res, P')"
        using "1.prems" False e by (simp add: evict_for_memory.simps [of now needed P])
      moreover have "wf_map (mp_models P1)" using s by (simp add: shrunk_def)
      ultimately show ?thesis using "1.IH" [OF False e [symmetric] Inr] shrunk_trans [OF s, of P'] by simp
    qed
  qed
qed

lemma shrunk_ok: "pool_ok P \<Longrightarrow> shrunk P P' \<Longrightarrow> pool_ok P'"
  by (auto simp: pool_ok_def shrunk_def)

lemma pool_memory_exact: "mem_sum (mp_models P) < two64 \<Longrightarrow> pool_memory P = mem_sum (mp_models P)"
  by (simp add: pool_memory_def mem_sum_def)

lemma preload_ok:
  assumes ok: "pool_ok P" and max: "1 \<le> pc_max_models (mp_config P)" and fits: "pc_max_memory_bytes (mp_config P) + mem < two64"
    and run: "pool_preload now i h t mem P = (res, P')"
  shows "pool_ok P' \<and> mp_config P' = mp_config P"
proof (cases "preload_look i P")
  case (Inl e)
  then show ?thesis using ok run by (simp add: pool_preload_def)
next
  case (Inr full)
  then have new: "map_of (mp_models P) i = None" and full: "full \<longleftrightarrow> pc_max_models (mp_config P) \<le> length (mp_models P)"
    by (auto simp: preload_look_def split: if_splits)
  obtain r1 P1 where e1: "(if full then evict_one now P else (Inr [], P)) = (r1, P1)" by (metis prod.exhaust)
  have wf: "wf_map (mp_models P)" using ok by (simp add: pool_ok_def)
  have s1: "shrunk P P1" "\<not> isl r1 \<Longrightarrow> length (mp_models P1) < pc_max_models (mp_config P)"
    using e1 full max wf evict_one_shrunk [OF wf, of now r1 P1] shrunk_refl [OF wf] ok
    by (auto simp: pool_ok_def isl_def split: if_splits)
      (metis Inl_Inr_False le_antisym less_le_trans sum.exhaust_sel sum.disc(2))+
  obtain r2 P2 where e2: "(if memory_short mem P1 then evict_for_memory now mem P1 else (Inr (), P1)) = (r2, P2)"
    by (metis prod.exhaust)
  have wf1: "wf_map (mp_models P1)" using s1(1) by (simp add: shrunk_def)
  have s2: "shrunk P1 P2" "r2 = Inr () \<Longrightarrow> wrap_add (pool_memory P2) mem \<le> pc_max_memory_bytes (mp_config P2)"
    using e2 evict_for_memory_shrunk [OF wf1, of now mem r2 P2] shrunk_refl [OF wf1]
    by (auto simp: memory_short_def split: if_splits)
  have s: "shrunk P P2" using shrunk_trans [OF s1(1) s2(1)] .
  have ok2: "pool_ok P2" "mp_config P2 = mp_config P" using shrunk_ok [OF ok s] s by (auto simp: shrunk_def)
  show ?thesis
  proof (cases "isl r1 \<or> isl r2")
    case True
    then show ?thesis using run Inr e1 e2 s1 ok2 shrunk_ok [OF ok s1(1)]
      by (auto simp: pool_preload_def isl_def shrunk_def split: sum.splits)
  next
    case False
    then have P': "P' = pool_insert now i h t mem P2" and r2: "r2 = Inr ()"
      using run Inr e1 e2 by (auto simp: pool_preload_def isl_def split: sum.splits)
    have new2: "map_of (mp_models P2) i = None" using new s by (simp add: shrunk_def)
    have "length (mp_models P2) < pc_max_models (mp_config P)" using s1(2) False s2(1) by (auto simp: shrunk_def)
    moreover have "mem_sum (mp_models P2) + mem \<le> pc_max_memory_bytes (mp_config P)"
      using s2(2) [OF r2] ok2 fits wrap_add_exact [of "mem_sum (mp_models P2)" mem]
      by (simp add: pool_ok_def pool_memory_exact)
    ultimately show ?thesis using ok2 new2 P'
      by (auto simp: pool_ok_def pool_insert_def length_update_new mem_sum_update_new)
  qed
qed

lemma pool_step_ok:
  assumes "pool_ok P" "1 \<le> pc_max_models (mp_config P)" "op_fits (mp_config P) op"
  shows "pool_ok (pool_step op P) \<and> mp_config (pool_step op P) = mp_config P"
proof (cases op)
  case (OpPreload now i h t mem)
  obtain res P' where "pool_preload now i h t mem P = (res, P')" by (metis prod.exhaust)
  then show ?thesis using preload_ok [OF assms(1,2), of mem now i h t res P'] assms OpPreload by simp
next
  case (OpSwitch now ns i)
  then show ?thesis using assms(1)
    by (auto simp: pool_switch_to_def pool_ok_def Let_def length_update_same mem_sum_update_same split: option.splits)
next
  case (OpWarmed i)
  then show ?thesis using assms(1)
    by (auto simp: mark_warmed_def pool_ok_def length_update_same mem_sum_update_same split: option.splits)
next
  case (OpRemove i)
  then show ?thesis using assms(1) mem_sum_delete_le [of i "mp_models P"] length_delete_le [of i "mp_models P"]
    by (auto simp: pool_remove_def pool_ok_def split: option.splits)
qed

text \<open>
  C28: Used by one caller at a time, the pool never holds more models or memory than configured, and the
  active model is always in it: no preload evicts it, and removing it clears it. Evictions end, since each
  round takes one model out.
\<close>

theorem pool_within_limits:
  assumes "1 \<le> pc_max_models cfg" and "list_all (op_fits cfg) ops"
  shows "pool_ok (fold pool_step ops (pool_new cfg R))"
proof -
  have "pool_ok (fold pool_step os P) \<and> mp_config (fold pool_step os P) = cfg"
    if "pool_ok P" "mp_config P = cfg" "list_all (op_fits cfg) os" for os P
    using that
  proof (induction os arbitrary: P)
    case (Cons op os)
    have "pool_ok (pool_step op P) \<and> mp_config (pool_step op P) = cfg"
      using pool_step_ok [of P op] Cons.prems assms(1) by simp
    then show ?case using Cons by simp
  qed simp
  moreover have "pool_ok (pool_new cfg R)" "mp_config (pool_new cfg R) = cfg"
    by (simp_all add: pool_new_def pool_ok_def mem_sum_def)
  ultimately show ?thesis using assms(2) by simp
qed

definition sample_pool_config :: pool_config where
  "sample_pool_config = pool_config_default\<lparr>pc_max_models := 1\<rparr>"

definition sample_pool_ops :: "pool_op list" where
  "sample_pool_ops = [OpPreload 0 ''a'' 1 TierTesting 10, OpPreload 5 ''b'' 2 TierDefault 20, OpSwitch 6 1 ''b'', OpPreload 7 ''c'' 3 TierQuality 5]"

theorem pool_within_limits_witness:
  "pool_ok (fold pool_step sample_pool_ops (pool_new sample_pool_config registry_new))"
  by (rule pool_within_limits) (simp_all add: sample_pool_config_def sample_pool_ops_def pool_config_default_def two64_def)

section \<open>What the eviction does not promise\<close>

text \<open>A request for more memory than evictions can free empties the pool of everything but the active model, and then fails.\<close>

lemma evict_for_memory_Inl:
  "evict_for_memory now needed P = (Inl e, P') \<Longrightarrow> e = EvictionFailed \<and> evictable P' = []"
proof (induction now needed P arbitrary: P' rule: evict_for_memory.induct)
  case (1 now needed P)
  from "1.prems" have short: "\<not> wrap_add (pool_memory P) needed \<le> pc_max_memory_bytes (mp_config P)"
    by (auto simp: evict_for_memory.simps [of now needed P])
  obtain r P1 where e: "evict_one now P = (r, P1)" by (metis prod.exhaust)
  show ?case
  proof (cases r)
    case (Inl x)
    then show ?thesis using "1.prems" short e evict_one_Inl [of now P x P1]
      by (auto simp: evict_for_memory.simps [of now needed P] evict_one_def)
  next
    case (Inr i)
    then show ?thesis using "1.prems" "1.IH" [OF short e [symmetric] Inr] short e
      by (simp add: evict_for_memory.simps [of now needed P])
  qed
qed

text \<open>
  A testing model that was never switched to and has idled for a second has a negative score, which wraps to
  the largest there is: it is evicted after every quality model, not before.
\<close>

definition idle_testing :: pooled_model where
  "idle_testing = \<lparr>po_handle = 1, po_tier = TierTesting, po_memory_bytes = 0, po_loaded_at = 0, po_last_used = 0, po_use_count = 0,
     po_warmup_complete = False\<rparr>"

lemma idle_testing_evicted_last:
  assumes "1000000000 \<le> now" "po_tier m \<noteq> TierTesting"
  shows "eviction_score now m < eviction_score now idle_testing"
proof -
  define r where "r = min (now div 1000000000) 999"
  have r: "1 \<le> r" "r \<le> 999" using div_le_mono [OF assms(1), of 1000000000] by (auto simp: r_def)
  have "eviction_score now idle_testing = two64 - r"
    using r by (simp add: eviction_score_def idle_testing_def Let_def r_def [symmetric] wrap_sub_def two64_def)
  moreover have "eviction_score now m \<le> 2001000"
    using assms(2) wrap_sub_exact [of "min ((now - po_last_used m) div 1000000000) 999" "tier_code (po_tier m) * 1000000 + min (po_use_count m) 1000"]
    by (cases "po_tier m") (auto simp: eviction_score_def Let_def two64_def)
  ultimately show ?thesis using r by (simp add: two64_def)
qed

text \<open>
  Two preloads in a full pool of one: the first evicts, the second enters while the lock is free, and the
  first inserts without looking again.
\<close>

lemma interleaved_preloads_exceed:
  fixes P defines "P \<equiv> snd (pool_preload 0 ''a'' 1 TierDefault 10 (pool_new sample_pool_config registry_new))"
  shows "preload_look ''b'' P = Inr True \<and>
    (let P1 = snd (evict_one 0 P); P2 = snd (pool_preload 0 ''c'' 3 TierDefault 10 P1); P3 = pool_insert 0 ''b'' 2 TierDefault 10 P2
     in \<not> memory_short 10 P2 \<and> length (mp_models P3) = 2 \<and> pc_max_models (mp_config P3) = 1)"
  by (simp add: P_def pool_preload_def preload_look_def pool_new_def sample_pool_config_def pool_config_default_def memory_short_def
      pool_memory_def wrap_add_def two64_def pool_insert_def evict_one_def evictable_def Let_def unregister_def registry_new_def)

end
