(* ===== verification/Memory_Arena.thy ===== *)
theory Memory_Arena
  imports GG_Prelude "HOL-Library.Word"
begin

unbundle bit_operations_syntax

text \<open>
  Raw memory: the bump arena and the pool of arenas (\<open>memory/arena.rs\<close>), and the pool of byte buffers
  (\<open>memory/pool.rs\<close>).

  The arena masks offsets bitwise and adds sizes that callers choose, so a \<open>usize\<close> is a 64-bit word here.
  Any number of threads allocate at once; the step relation has one step per atomic instruction, and the
  weak compare-and-exchange may fail for no reason. A pointer is the offset into the buffer.
\<close>

section \<open>One allocation\<close>

type_synonym word64 = "64 word"

definition align_up :: "word64 \<Rightarrow> word64 \<Rightarrow> word64" where
  "align_up current align = (current + align - 1) AND NOT (align - 1)"

text \<open>One round of the loop of \<open>alloc\<close> up to the exchange: where the block starts and the offset after it.\<close>

definition alloc_attempt :: "word64 \<Rightarrow> word64 \<Rightarrow> word64 \<Rightarrow> word64 \<Rightarrow> (word64 \<times> word64) option" where
  "alloc_attempt capacity current sz align =
     (let aligned = align_up current align; new_offset = aligned + sz
      in if capacity < new_offset then None else Some (aligned, new_offset))"

text \<open>The layouts the arena is right for: an alignment that is a power of two, and no sum that overflows.\<close>

definition layout_ok :: "word64 \<Rightarrow> word64 \<Rightarrow> word64 \<Rightarrow> bool" where
  "layout_ok capacity sz align \<longleftrightarrow>
     (\<exists>k < 64. align = 2 ^ k) \<and> unat capacity + unat align + unat sz \<le> 2 ^ 64"

lemma and_not_mask_word: "(x :: word64) AND NOT (mask k) = x - take_bit k x"
proof -
  have "x AND NOT (mask k) = push_bit k (drop_bit k x)"
    by (rule bit_word_eqI) (auto simp: bit_simps)
  then show ?thesis using bits_ident [of k x] by (simp add: eq_diff_eq)
qed

lemma unat_and_not_mask: "unat ((x :: word64) AND NOT (mask k)) = unat x - unat x mod 2 ^ k"
proof -
  have "unat (take_bit k x) = unat x mod 2 ^ k"
    by (simp add: unsigned_take_bit_eq take_bit_eq_mod [of k "unat x"])
  moreover from this have "take_bit k x \<le> x"
    by (simp add: word_le_nat_alt)
  ultimately show ?thesis
    by (simp add: and_not_mask_word unat_sub)
qed

lemma unat_pow_two: "k < 64 \<Longrightarrow> unat ((2 :: word64) ^ k) = 2 ^ k"
  using unat_of_nat [of "2 ^ k", where ?'a = 64] power_strict_increasing [of k 64 "2 :: nat"] by simp

lemma align_up_bounds:
  assumes k: "k < 64" and room: "unat c + 2 ^ k \<le> 2 ^ 64"
  shows "unat c \<le> unat (align_up c (2 ^ k)) \<and> unat (align_up c (2 ^ k)) < unat c + 2 ^ k \<and> 2 ^ k dvd unat (align_up c (2 ^ k))"
proof -
  have m: "(2 :: word64) ^ k - 1 = mask k" by (simp add: mask_eq_decr_exp)
  define y where "y = unat c + (2 ^ k - 1)"
  have u: "unat (c + 2 ^ k - 1) = y"
  proof -
    have "(2 :: word64) ^ k \<noteq> 0" using unat_pow_two [OF k] by (metis power_not_zero unat_0 zero_neq_numeral)
    then have "unat (mask k :: word64) = 2 ^ k - 1" using unat_pow_two [OF k] by (simp add: m [symmetric] unat_minus_one)
    moreover have "y < 2 ^ 64" using room one_le_power [of "2 :: nat" k] unfolding y_def by linarith
    ultimately have "unat (c + mask k) = y" by (simp add: unat_word_ariths y_def)
    then show ?thesis by (simp add: m [symmetric] add_diff_eq)
  qed
  define r where "r = y mod 2 ^ k"
  have A: "unat (align_up c (2 ^ k)) = y - r"
    by (simp only: align_up_def m unat_and_not_mask u r_def)
  have "r < 2 ^ k" "r \<le> y" "2 ^ k dvd y - r" "1 \<le> (2 :: nat) ^ k" by (simp_all add: r_def)
  then show ?thesis unfolding A using y_def by linarith
qed

lemma alloc_attempt_Some:
  assumes ok: "layout_ok capacity sz align" and le: "current \<le> capacity"
    and at: "alloc_attempt capacity current sz align = Some (a, n)"
  shows "unat current \<le> unat a \<and> unat n = unat a + unat sz \<and> n \<le> capacity \<and> unat align dvd unat a"
proof -
  obtain k where k: "k < 64" "align = 2 ^ k" using ok by (auto simp: layout_ok_def)
  have p: "unat align = 2 ^ k" using k by (simp add: unat_pow_two)
  have sum: "unat capacity + 2 ^ k + unat sz \<le> 2 ^ 64" using ok p by (simp add: layout_ok_def)
  have cur: "unat current \<le> unat capacity" using le by (simp add: word_le_nat_alt)
  have b: "unat current \<le> unat (align_up current align)" "unat (align_up current align) < unat current + 2 ^ k"
    "2 ^ k dvd unat (align_up current align)"
    using align_up_bounds [OF k(1), of current] cur sum by (auto simp: k(2))
  have "unat (align_up current align) + unat sz < 2 ^ 64" using b(2) cur sum by linarith
  then have "unat (align_up current align + sz) = unat (align_up current align) + unat sz"
    by (simp add: unat_word_ariths)
  then show ?thesis using at b p by (auto simp: alloc_attempt_def Let_def split: if_splits)
qed

section \<open>Threads that allocate at once\<close>

datatype alloc_phase =
    Idle
  | Called word64 word64
  | Loaded word64 word64 word64
  | Panicked

text \<open>A block that was handed out: its start, its size and the alignment that was asked for.\<close>

type_synonym block = "word64 \<times> word64 \<times> word64"

record 't arena_sys =
  as_offset :: word64
  as_threads :: "'t \<Rightarrow> alloc_phase"
  as_blocks :: "block list"

definition arena_start :: "'t arena_sys" where
  "arena_start = \<lparr>as_offset = 0, as_threads = (\<lambda>_. Idle), as_blocks = []\<rparr>"

text \<open>
  \<open>asks\<close> says which layouts the callers ask for. Indexing the buffer at its end panics, which happens after
  the offset was moved. \<open>reset\<close> may only run when its caller knows that no block is in use any more.
\<close>

inductive arena_step :: "(word64 \<Rightarrow> word64 \<Rightarrow> bool) \<Rightarrow> word64 \<Rightarrow> 't arena_sys \<Rightarrow> 't arena_sys \<Rightarrow> bool" for asks capacity where
  alloc_call: "as_threads s t = Idle \<Longrightarrow> asks sz align \<Longrightarrow>
    arena_step asks capacity s (s\<lparr>as_threads := (as_threads s)(t := Called sz align)\<rparr>)"
| alloc_load: "as_threads s t = Called sz align \<Longrightarrow>
    arena_step asks capacity s (s\<lparr>as_threads := (as_threads s)(t := Loaded (as_offset s) sz align)\<rparr>)"
| alloc_exhausted: "as_threads s t = Loaded current sz align \<Longrightarrow> alloc_attempt capacity current sz align = None \<Longrightarrow>
    arena_step asks capacity s (s\<lparr>as_threads := (as_threads s)(t := Idle)\<rparr>)"
| alloc_retry: "as_threads s t = Loaded current sz align \<Longrightarrow> alloc_attempt capacity current sz align = Some (a, n) \<Longrightarrow>
    arena_step asks capacity s (s\<lparr>as_threads := (as_threads s)(t := Called sz align)\<rparr>)"
| alloc_won: "as_threads s t = Loaded current sz align \<Longrightarrow> alloc_attempt capacity current sz align = Some (a, n) \<Longrightarrow>
    as_offset s = current \<Longrightarrow> a < capacity \<Longrightarrow>
    arena_step asks capacity s
      (s\<lparr>as_threads := (as_threads s)(t := Idle), as_offset := n, as_blocks := (a, sz, align) # as_blocks s\<rparr>)"
| alloc_panic: "as_threads s t = Loaded current sz align \<Longrightarrow> alloc_attempt capacity current sz align = Some (a, n) \<Longrightarrow>
    as_offset s = current \<Longrightarrow> \<not> a < capacity \<Longrightarrow>
    arena_step asks capacity s (s\<lparr>as_threads := (as_threads s)(t := Panicked), as_offset := n\<rparr>)"
| blocks_dropped: "arena_step asks capacity s (s\<lparr>as_blocks := []\<rparr>)"
| arena_reset: "as_blocks s = [] \<Longrightarrow> arena_step asks capacity s (s\<lparr>as_offset := 0\<rparr>)"

inductive_cases arena_stepE: "arena_step asks capacity s s'"

definition bytes_of :: "block \<Rightarrow> nat set" where
  "bytes_of b = (case b of (a, sz, _) \<Rightarrow> {unat a ..< unat a + unat sz})"

definition block_fits :: "word64 \<Rightarrow> block \<Rightarrow> bool" where
  "block_fits limit b \<longleftrightarrow> (case b of (a, sz, align) \<Rightarrow> unat a + unat sz \<le> unat limit \<and> unat align dvd unat a)"

primrec asked :: "(word64 \<Rightarrow> word64 \<Rightarrow> bool) \<Rightarrow> alloc_phase \<Rightarrow> bool" where
  "asked asks Idle = True"
| "asked asks (Called sz align) = asks sz align"
| "asked asks (Loaded current sz align) = asks sz align"
| "asked asks Panicked = True"

definition arena_ok :: "(word64 \<Rightarrow> word64 \<Rightarrow> bool) \<Rightarrow> word64 \<Rightarrow> 't arena_sys \<Rightarrow> bool" where
  "arena_ok asks capacity s \<longleftrightarrow>
     as_offset s \<le> capacity \<and> (\<forall>t. asked asks (as_threads s t)) \<and>
     (\<forall>b \<in> set (as_blocks s). block_fits (as_offset s) b) \<and>
     pairwise (\<lambda>i j. bytes_of (as_blocks s ! i) \<inter> bytes_of (as_blocks s ! j) = {}) {..<length (as_blocks s)}"

lemma pairwise_Cons_disjoint:
  assumes "pairwise (\<lambda>i j. f (xs ! i) \<inter> f (xs ! j) = {}) {..<length xs}" and "\<forall>y \<in> set xs. f x \<inter> f y = {}"
  shows "pairwise (\<lambda>i j. f ((x # xs) ! i) \<inter> f ((x # xs) ! j) = {}) {..<length (x # xs)}"
  using assms by (auto simp: pairwise_def nth_Cons' in_set_conv_nth all_set_conv_all_nth Int_commute)

lemma arena_ok_won:
  assumes ok: "arena_ok asks capacity s" and lay: "layout_ok capacity sz align"
    and at: "alloc_attempt capacity (as_offset s) sz align = Some (a, n)"
  shows "unat (as_offset s) \<le> unat n \<and> n \<le> capacity \<and> block_fits n (a, sz, align) \<and>
    (\<forall>b \<in> set (as_blocks s). block_fits n b \<and> bytes_of (a, sz, align) \<inter> bytes_of b = {})"
proof -
  have n: "unat (as_offset s) \<le> unat a" "unat n = unat a + unat sz" "n \<le> capacity" "unat align dvd unat a"
    using alloc_attempt_Some [OF lay _ at] ok by (auto simp: arena_ok_def)
  have "block_fits n b \<and> bytes_of (a, sz, align) \<inter> bytes_of b = {}" if "b \<in> set (as_blocks s)" for b
    using ok that n by (cases b) (force simp: arena_ok_def block_fits_def bytes_of_def)
  then show ?thesis using n by (auto simp: block_fits_def)
qed

lemma asked_called: "\<forall>t. asked asks (th t) \<Longrightarrow> th t = Called sz align \<Longrightarrow> asks sz align"
  by (metis asked.simps(2))

lemma asked_loaded: "\<forall>t. asked asks (th t) \<Longrightarrow> th t = Loaded current sz align \<Longrightarrow> asks sz align"
  by (metis asked.simps(3))

lemma arena_step_ok:
  assumes "arena_step asks capacity s s'" and "arena_ok asks capacity s"
    and lay: "\<forall>sz align. asks sz align \<longrightarrow> layout_ok capacity sz align"
  shows "arena_ok asks capacity s'"
  using assms(1)
proof cases
  case (alloc_won t current sz align a n)
  have "asks sz align" using assms(2) alloc_won by (auto simp: arena_ok_def dest: asked_loaded)
  then have w: "n \<le> capacity" "block_fits n (a, sz, align)"
    "\<forall>b \<in> set (as_blocks s). block_fits n b \<and> bytes_of (a, sz, align) \<inter> bytes_of b = {}"
    using arena_ok_won [OF assms(2), of sz align a n] lay alloc_won by auto
  then show ?thesis using assms(2) alloc_won(1) pairwise_Cons_disjoint [of bytes_of "as_blocks s" "(a, sz, align)"]
    by (simp add: arena_ok_def)
next
  case (alloc_panic t current sz align a n)
  have "asks sz align" using assms(2) alloc_panic by (auto simp: arena_ok_def dest: asked_loaded)
  then show ?thesis using arena_ok_won [OF assms(2), of sz align a n] lay alloc_panic assms(2) by (auto simp: arena_ok_def)
qed (use assms(2) in \<open>auto simp: arena_ok_def dest: asked_called asked_loaded\<close>)

text \<open>
  C40: However the atomic instructions of any number of allocating threads interleave, the blocks that
  are in use lie inside the buffer, start at multiples of their alignment, and do not overlap. This
  holds across resets, also for a thread that read the offset before one and exchanges it after. The
  callers ask for alignments that are powers of two and for sizes whose sums do not overflow.
\<close>

theorem arena_blocks_disjoint:
  assumes "(arena_step asks capacity)\<^sup>*\<^sup>* arena_start s"
    and "\<forall>sz align. asks sz align \<longrightarrow> layout_ok capacity sz align"
  shows "(\<forall>b \<in> set (as_blocks s). block_fits capacity b) \<and>
    pairwise (\<lambda>i j. bytes_of (as_blocks s ! i) \<inter> bytes_of (as_blocks s ! j) = {}) {..<length (as_blocks s)}"
proof -
  have "arena_ok asks capacity s"
    using assms(1)
  proof (induction rule: rtranclp_induct)
    case base
    show ?case by (simp add: arena_ok_def arena_start_def)
  next
    case (step s1 s2)
    then show ?case using arena_step_ok assms(2) by blast
  qed
  then show ?thesis
    by (force simp: arena_ok_def block_fits_def word_le_nat_alt)
qed

definition sample_asks :: "word64 \<Rightarrow> word64 \<Rightarrow> bool" where
  "sample_asks sz align \<longleftrightarrow> sz = 8 \<and> align = 8 \<or> sz = 3 \<and> align = 1"

text \<open>Both threads read the offset 0; the first exchange wins, and the other thread goes round again.\<close>

definition sample_arena :: "bool arena_sys" where
  "sample_arena = \<lparr>as_offset = 11, as_threads = (\<lambda>_. Idle), as_blocks = [(8, 3, 1), (0, 8, 8)]\<rparr>"

lemma sample_attempts:
  "alloc_attempt 64 0 8 8 = Some (0, 8)" "alloc_attempt 64 0 3 1 = Some (0, 3)" "alloc_attempt 64 8 3 1 = Some (8, 11)"
  by (simp_all add: alloc_attempt_def align_up_def)

lemma sample_arena_run: "(arena_step sample_asks 64)\<^sup>*\<^sup>* arena_start sample_arena"
proof -
  let ?s = "\<lambda>off f t bs. \<lparr>as_offset = off, as_threads = (\<lambda>x. if x then t else f), as_blocks = bs\<rparr> :: bool arena_sys"
  let ?st = "arena_step sample_asks 64"
  have [simp]: "(\<lambda>x. if x then t else f)(True := t') = (\<lambda>x. if x then t' else f)"
    "(\<lambda>x. if x then t else f)(False := f') = (\<lambda>x. if x then t else f')"
    "(\<lambda>_. t)(False := f) = (\<lambda>x. if x then t else f)" "(\<lambda>_. f)(True := t) = (\<lambda>x. if x then t else f)" for t f t' f' :: alloc_phase
    by auto
  have "?st (?s 0 Idle Idle []) (?s 0 (Called 8 8) Idle [])"
    using alloc_call [of "?s 0 Idle Idle []" False sample_asks 8 8 64] by (simp add: sample_asks_def)
  moreover have "?st (?s 0 (Called 8 8) Idle []) (?s 0 (Called 8 8) (Called 3 1) [])"
    using alloc_call [of "?s 0 (Called 8 8) Idle []" True sample_asks 3 1 64] by (simp add: sample_asks_def)
  moreover have "?st (?s 0 (Called 8 8) (Called 3 1) []) (?s 0 (Loaded 0 8 8) (Called 3 1) [])"
    using alloc_load [of "?s 0 (Called 8 8) (Called 3 1) []" False 8 8 sample_asks 64] by simp
  moreover have "?st (?s 0 (Loaded 0 8 8) (Called 3 1) []) (?s 0 (Loaded 0 8 8) (Loaded 0 3 1) [])"
    using alloc_load [of "?s 0 (Loaded 0 8 8) (Called 3 1) []" True 3 1 sample_asks 64] by simp
  moreover have "?st (?s 0 (Loaded 0 8 8) (Loaded 0 3 1) []) (?s 8 Idle (Loaded 0 3 1) [(0, 8, 8)])"
    using alloc_won [of "?s 0 (Loaded 0 8 8) (Loaded 0 3 1) []" False 0 8 8 64 0 8 sample_asks] by (simp add: sample_attempts)
  moreover have "?st (?s 8 Idle (Loaded 0 3 1) [(0, 8, 8)]) (?s 8 Idle (Called 3 1) [(0, 8, 8)])"
    using alloc_retry [of "?s 8 Idle (Loaded 0 3 1) [(0, 8, 8)]" True 0 3 1 64 0 3 sample_asks] by (simp add: sample_attempts)
  moreover have "?st (?s 8 Idle (Called 3 1) [(0, 8, 8)]) (?s 8 Idle (Loaded 8 3 1) [(0, 8, 8)])"
    using alloc_load [of "?s 8 Idle (Called 3 1) [(0, 8, 8)]" True 3 1 sample_asks 64] by simp
  moreover have "?st (?s 8 Idle (Loaded 8 3 1) [(0, 8, 8)]) (?s 11 Idle Idle [(8, 3, 1), (0, 8, 8)])"
    using alloc_won [of "?s 8 Idle (Loaded 8 3 1) [(0, 8, 8)]" True 8 3 1 64 8 11 sample_asks] by (simp add: sample_attempts)
  ultimately have "?st\<^sup>*\<^sup>* (?s 0 Idle Idle []) (?s 11 Idle Idle [(8, 3, 1), (0, 8, 8)])"
    by (meson converse_rtranclp_into_rtranclp rtranclp.rtrancl_refl)
  then show ?thesis by (simp add: arena_start_def sample_arena_def)
qed

lemma sample_layouts: "sample_asks sz align \<Longrightarrow> layout_ok 64 sz align"
  by (auto simp: sample_asks_def layout_ok_def intro: exI [of _ "3 :: nat"] exI [of _ "0 :: nat"])

theorem arena_blocks_disjoint_witness:
  "block_fits 64 (8, 3, 1) \<and> block_fits 64 (0, 8, 8) \<and> bytes_of (8, 3, 1) \<inter> bytes_of (0, 8, 8) = {} \<and>
   as_blocks sample_arena = [(8, 3, 1), (0, 8, 8)]"
proof -
  have blocks: "as_blocks sample_arena = [(8, 3, 1), (0, 8, 8)]" by (simp add: sample_arena_def)
  have all: "(\<forall>b \<in> set (as_blocks sample_arena). block_fits 64 b) \<and>
    pairwise (\<lambda>i j. bytes_of (as_blocks sample_arena ! i) \<inter> bytes_of (as_blocks sample_arena ! j) = {}) {..<length (as_blocks sample_arena)}"
    by (rule arena_blocks_disjoint [OF sample_arena_run]) (blast intro: sample_layouts)
  then have "bytes_of (as_blocks sample_arena ! 0) \<inter> bytes_of (as_blocks sample_arena ! 1) = {}"
    by (elim conjE) (erule pairwiseD, simp_all add: blocks)
  with all show ?thesis by (simp add: blocks)
qed

section \<open>A thread alone\<close>

text \<open>
  \<open>alloc\<close> as its caller sees it when no other thread runs and the exchange does not fail for no reason. The
  outer \<open>None\<close> is the panic of indexing the buffer at its end.
\<close>

definition alloc :: "word64 \<Rightarrow> word64 \<Rightarrow> word64 \<Rightarrow> word64 \<Rightarrow> word64 option option \<times> word64" where
  "alloc capacity sz align off =
     (case alloc_attempt capacity off sz align of
        None \<Rightarrow> (Some None, off)
      | Some (a, n) \<Rightarrow> (if a < capacity then Some (Some a) else None, n))"

lemma alloc_is_run:
  assumes "as_threads s t = Idle" "asks sz align" "alloc capacity sz align (as_offset s) = (r, off')"
  shows "(arena_step asks capacity)\<^sup>*\<^sup>* s
    (s\<lparr>as_threads := (as_threads s)(t := (if r = None then Panicked else Idle)), as_offset := off',
       as_blocks := (case r of Some (Some a) \<Rightarrow> [(a, sz, align)] | _ \<Rightarrow> []) @ as_blocks s\<rparr>)" (is "_\<^sup>*\<^sup>* _ ?s'")
proof -
  let ?s1 = "s\<lparr>as_threads := (as_threads s)(t := Called sz align)\<rparr>"
  let ?s2 = "s\<lparr>as_threads := (as_threads s)(t := Loaded (as_offset s) sz align)\<rparr>"
  have "arena_step asks capacity s ?s1" using assms by (simp add: alloc_call)
  moreover have "arena_step asks capacity ?s1 ?s2" using alloc_load [of ?s1 t sz align asks capacity] by simp
  moreover have "arena_step asks capacity ?s2 ?s'"
  proof (cases "alloc_attempt capacity (as_offset s) sz align")
    case None
    then show ?thesis using assms(3) alloc_exhausted [of ?s2 t "as_offset s" sz align capacity asks] by (auto simp: alloc_def)
  next
    case (Some an)
    then obtain a n where an: "alloc_attempt capacity (as_offset s) sz align = Some (a, n)" by (cases an) auto
    then show ?thesis
      using assms(3) alloc_won [of ?s2 t "as_offset s" sz align capacity a n asks] alloc_panic [of ?s2 t "as_offset s" sz align capacity a n asks]
      by (auto simp: alloc_def split: if_splits)
  qed
  ultimately show ?thesis by (meson converse_rtranclp_into_rtranclp rtranclp.rtrancl_refl)
qed

text \<open>\<open>ArenaSlice::new\<close>: the size in bytes is a product of words, the length of the slice is what was asked for.\<close>

definition slice_new :: "word64 \<Rightarrow> word64 \<Rightarrow> word64 \<Rightarrow> word64 \<Rightarrow> word64 \<Rightarrow> (word64 \<times> word64) option option \<times> word64" where
  "slice_new capacity size_of align_of len off =
     (case alloc capacity (len * size_of) align_of off of
        (r, off') \<Rightarrow> (map_option (map_option (\<lambda>a. (a, len))) r, off'))"

definition slice_bytes :: "word64 \<Rightarrow> word64 \<times> word64 \<Rightarrow> nat set" where
  "slice_bytes size_of s = {unat (fst s) ..< unat (fst s) + unat (snd s) * unat size_of}"

lemma slice_in_arena:
  assumes "layout_ok capacity (len * size_of) align_of" "off \<le> capacity" "unat len * unat size_of < 2 ^ 64"
    and "slice_new capacity size_of align_of len off = (Some (Some s), off')"
  shows "slice_bytes size_of s \<subseteq> {unat off ..< unat off'} \<and> off' \<le> capacity"
proof -
  obtain a where s: "s = (a, len)" and at: "alloc_attempt capacity off (len * size_of) align_of = Some (a, off')"
    using assms(4) by (auto simp: slice_new_def alloc_def split: prod.splits option.splits if_splits)
  have "unat (len * size_of) = unat len * unat size_of" using assms(3) by (simp add: unat_word_ariths)
  then show ?thesis using alloc_attempt_Some [OF assms(1,2) at] by (auto simp: s slice_bytes_def)
qed

text \<open>
  Nothing checks the two assumptions. A size near the top of the range moves the offset back into a block in
  use; a slice whose size in bytes wraps to nothing is granted, with a length far beyond the buffer; an
  alignment of zero hands out the start of the buffer again; and an empty block at the end panics.
\<close>

lemma overflowing_size_overlaps:
  "alloc 64 32 1 0 = (Some (Some 0), 32)" "alloc 64 (- 1) 1 32 = (Some (Some 32), 31)" "alloc 64 1 1 31 = (Some (Some 31), 32)"
  by (simp_all add: alloc_def alloc_attempt_def align_up_def)

lemma slice_beyond_buffer:
  "slice_new 64 8 8 (2 ^ 61) 0 = (Some (Some (0, 2 ^ 61)), 0) \<and> 2 ^ 63 \<in> slice_bytes 8 (0, 2 ^ 61)"
  by (simp add: slice_new_def alloc_def alloc_attempt_def align_up_def slice_bytes_def unat_pow_two)

lemma zero_alignment_restarts: "align_up current 0 = 0"
  by (simp add: align_up_def)

lemma empty_block_at_end_panics: "alloc capacity 0 1 capacity = (None, capacity)"
  by (simp add: alloc_def alloc_attempt_def align_up_def)

section \<open>The pool of arenas\<close>

record arena =
  ar_offset :: word64
  ar_capacity :: word64

definition arena_new :: "word64 \<Rightarrow> arena" where
  "arena_new capacity = \<lparr>ar_offset = 0, ar_capacity = capacity\<rparr>"

definition reset :: "arena \<Rightarrow> arena" where
  "reset A = A\<lparr>ar_offset := 0\<rparr>"

record arena_pool =
  ap_arenas :: "arena list"
  ap_arena_size :: word64
  ap_max_arenas :: usize

definition arena_pool_new :: "word64 \<Rightarrow> usize \<Rightarrow> arena_pool" where
  "arena_pool_new sz mx = \<lparr>ap_arenas = [], ap_arena_size = sz, ap_max_arenas = mx\<rparr>"

definition arena_acquire :: "arena_pool \<Rightarrow> arena \<times> arena_pool" where
  "arena_acquire P =
     (case ap_arenas P of
        [] \<Rightarrow> (arena_new (ap_arena_size P), P)
      | A # As \<Rightarrow> (A, P\<lparr>ap_arenas := As\<rparr>))"

definition arena_release :: "arena \<Rightarrow> arena_pool \<Rightarrow> arena_pool" where
  "arena_release A P =
     (if length (ap_arenas P) < ap_max_arenas P then P\<lparr>ap_arenas := ap_arenas P @ [reset A]\<rparr> else P)"

inductive arena_pool_reach :: "arena_pool \<Rightarrow> bool" where
  "arena_pool_reach (arena_pool_new sz mx)"
| "arena_pool_reach P \<Longrightarrow> arena_acquire P = (A, P') \<Longrightarrow> arena_pool_reach P'"
| "arena_pool_reach P \<Longrightarrow> arena_pool_reach (arena_release A P)"

lemma pooled_arenas_ready:
  "arena_pool_reach P \<Longrightarrow> length (ap_arenas P) \<le> ap_max_arenas P \<and> (\<forall>A \<in> set (ap_arenas P). ar_offset A = 0)"
  by (induction rule: arena_pool_reach.induct)
    (auto simp: arena_pool_new_def arena_acquire_def arena_release_def reset_def split: list.splits)

lemma acquired_arena_empty: "arena_pool_reach P \<Longrightarrow> ar_offset (fst (arena_acquire P)) = 0"
  by (drule pooled_arenas_ready) (auto simp: arena_acquire_def arena_new_def split: list.split)

section \<open>The pool of buffers\<close>

record memory_pool_config =
  mc_buffer_size :: usize
  mc_max_buffers :: usize

definition memory_pool_config_default :: memory_pool_config where
  "memory_pool_config_default = \<lparr>mc_buffer_size = 4096, mc_max_buffers = 64\<rparr>"

record memory_pool =
  mb_buffers :: "string list"
  mb_config :: memory_pool_config

definition memory_pool_new :: "memory_pool_config \<Rightarrow> memory_pool" where
  "memory_pool_new cfg = \<lparr>mb_buffers = [], mb_config = cfg\<rparr>"

definition buffer_acquire :: "memory_pool \<Rightarrow> string \<times> memory_pool" where
  "buffer_acquire P =
     (case mb_buffers P of
        [] \<Rightarrow> (replicate (mc_buffer_size (mb_config P)) (CHR 0x00), P)
      | b # bs \<Rightarrow> (b, P\<lparr>mb_buffers := bs\<rparr>))"

definition buffer_drop :: "string \<Rightarrow> memory_pool \<Rightarrow> memory_pool" where
  "buffer_drop b P = P\<lparr>mb_buffers := mb_buffers P @ [b]\<rparr>"

definition buffers_ok :: "memory_pool \<Rightarrow> bool" where
  "buffers_ok P \<longleftrightarrow> (\<forall>b \<in> set (mb_buffers P). length b = mc_buffer_size (mb_config P))"

lemma buffer_acquire_ok:
  "buffers_ok P \<Longrightarrow> buffer_acquire P = (b, P') \<Longrightarrow> buffers_ok P' \<and> length b = mc_buffer_size (mb_config P) \<and> mb_config P' = mb_config P"
  by (auto simp: buffers_ok_def buffer_acquire_def split: list.splits)

lemma buffer_drop_ok: "buffers_ok P \<Longrightarrow> length b = mc_buffer_size (mb_config P) \<Longrightarrow> buffers_ok (buffer_drop b P)"
  by (auto simp: buffers_ok_def buffer_drop_def)

text \<open>Returned buffers are kept, however many there are, and come back in order with the bytes they had.\<close>

lemma buffers_all_kept: "mb_buffers (fold buffer_drop bs P) = mb_buffers P @ bs"
  by (induction bs arbitrary: P) (simp_all add: buffer_drop_def)

lemma max_buffers_ignored: "length (mb_buffers (fold buffer_drop bs (memory_pool_new cfg))) = length bs"
  by (simp add: buffers_all_kept memory_pool_new_def)

end
