(* ===== verification/Spec2Isabelle.thy ===== *)
theory Spec2Isabelle
  imports Worker Model_Swap KV_Cache Evicting_Caches Ipc_Handler Model_Catalog Model_Encryption Model_Pool Memory_Arena
begin

text \<open>
  Verification of the GG-CORE runtime (\<open>src/core-runtime/src\<close>), an inference daemon that serves language
  models to local clients.

  \<^bold>\<open>The program.\<close> A client connects over a socket, authenticates with a token, and sends length-prefixed
  messages. The handler checks the session and puts inference requests on a bounded priority queue. One
  worker takes them off, scans the prompt, acquires the resource limits, runs the model, cleans the output
  and answers; a streaming request is answered frame by frame while it runs. Models are loaded from disk
  under a containment check and a manifest hash, kept in a registry, routed to and swapped while requests
  are in flight. Around this are the KV cache and other caches, metrics, health, shutdown, configuration,
  and the start of the daemon.

  \<^bold>\<open>Conventions.\<close> A \<open>usize\<close> or \<open>u64\<close> is a natural number below \<open>2 ^ 64\<close>, and wrap-around is written out
  where the code can reach it; the arena, which masks bits, uses 64-bit words. Strings and byte vectors are
  lists of bytes. A \<open>Result\<close> is a sum with the error on the left, and a panic is \<open>None\<close>. A hash table is an
  association list with distinct keys. Clock readings are arguments, in nanoseconds. An \<open>f32\<close> or \<open>f64\<close> is an
  exact rational, an infinity or not-a-number; only comparisons are fixed, and rounding operations are
  parameters. A call that holds a lock throughout is one state transformer. Where the code gives a lock up or
  uses atomic instructions, a step relation interleaves the pieces of any number of threads. Code outside the
  sources (llama.cpp, serde_json, regex, Aho-Corasick, SHA-256, AES-GCM, Unicode tables, the file system) is
  a parameter, and what a theorem needs of it is one of its hypotheses.

  \<^bold>\<open>Shared theories.\<close>
  \<^item> \<open>GG_Prelude\<close>: machine types, wrapping arithmetic, iterator and map operations, IEEE comparisons, and the
    rule collections.
  \<^item> \<open>Rust_Text\<close> and \<open>Rust_Parse\<close>: the string and parsing functions of the standard library.
  \<^item> \<open>Engine_Types\<close>: errors, parameters and their validation, stop controls, stream frames
    (\<open>engine/inference_types.rs\<close>, \<open>error.rs\<close>, \<open>config.rs\<close>, \<open>request_control.rs\<close>, \<open>degraded_mode.rs\<close>, \<open>streaming.rs\<close>).

  \<^bold>\<open>Scheduler.\<close>
  \<^item> \<open>Priority_Queue\<close> (\<open>scheduler/priority.rs\<close>): the heap implements four FIFO lanes, the contract of the locale
    \<open>prio_queue\<close>.
  \<^item> \<open>Request_Queue\<close> (\<open>queue.rs\<close>, \<open>queued_request.rs\<close>, \<open>streaming_queue.rs\<close>): the queue is bounded with unique
    ids, dequeue serves the first live request and rejects the dead ones before it, and no wake-up is lost
    between producers and the waiting worker.
  \<^item> \<open>Batching\<close> (\<open>batch.rs\<close>, \<open>continuous.rs\<close>): batches partition the requests, and the continuous batcher
    neither loses nor duplicates one.
  \<^item> \<open>Worker\<close> (\<open>worker.rs\<close>, \<open>worker_streaming.rs\<close>): each request that is taken gets exactly one answer, which is
    the sanitized output of the model or the error of the first check that failed; limits are given back on
    every path; a stream ends with one terminal frame.

  \<^bold>\<open>Engine.\<close>
  \<^item> \<open>Gguf_Backend\<close> (\<open>engine/gguf/backend.rs\<close>, \<open>generator.rs\<close>, \<open>input.rs\<close>, \<open>output.rs\<close>): chunked decoding with
    sampling equals the autoregressive reference; calls into the native library stay within its context; a
    stop is honoured within one checkpoint.
  \<^item> \<open>Inference_Engine\<close> (\<open>engine/inference.rs\<close>, its degraded and streaming parts, \<open>model.rs\<close>, \<open>filter.rs\<close>): the model
    table, context checks, controlled runs and the output filter.

  \<^bold>\<open>Memory.\<close>
  \<^item> \<open>Resource_Limits\<close> (\<open>memory/limits.rs\<close>, \<open>gpu.rs\<close>, \<open>ipc/connections.rs\<close>): admission by atomic counters respects
    the limits in every interleaving. The locale \<open>gauge\<close> is proved once and interpreted for memory, slots, GPU
    memory, connections, and the request counter of the shutdown.
  \<^item> \<open>Paged_Memory\<close> and \<open>KV_Cache\<close> (\<open>memory/paged.rs\<close>, \<open>kv_cache_*.rs\<close>): pages belong to one sequence and are zero
    when reused; the operations are the obvious ones on lists of rows. The locale is \<open>page_pool\<close>.
  \<^item> \<open>Evicting_Caches\<close> (\<open>memory/cache.rs\<close>, \<open>prompt_cache.rs\<close>, \<open>scheduler/dedup.rs\<close>): bounded caches without stale
    hits, by the locale \<open>evicting_cache\<close>; prefix lookup finds the longest stored prefix.
  \<^item> \<open>Memory_Arena\<close> (\<open>memory/arena.rs\<close>, \<open>pool.rs\<close>): blocks of the bump arena are in range, aligned and disjoint
    in every interleaving, under stated bounds on the layouts; what happens outside these bounds.

  \<^bold>\<open>Security.\<close>
  \<^item> \<open>Security_Ingress\<close> (\<open>security/prompt_injection.rs\<close>, \<open>mod.rs\<close>): prompts with a high-risk pattern are refused.
  \<^item> \<open>Security_Egress\<close> (\<open>output_sanitizer.rs\<close>, \<open>pii_detector.rs\<close>, \<open>pii_patterns.rs\<close>, \<open>sanitizer_rules.rs\<close>,
    \<open>pipeline.rs\<close>): redaction replaces exactly the detected ranges.
  \<^item> \<open>Stream_Sanitizer\<close> (\<open>stream_sanitizer.rs\<close>): the released pieces concatenate to the sanitized whole.
  \<^item> \<open>Model_Encryption\<close> (\<open>encryption_core.rs\<close>, \<open>encryption_io.rs\<close>, \<open>key_rotation.rs\<close>): files and versioned blobs
    decrypt to what was encrypted, also after any number of key rotations.

  \<^bold>\<open>Inter-process communication.\<close>
  \<^item> \<open>Wire_Codec\<close> (\<open>ipc/protocol_*.rs\<close>, \<open>encoding.rs\<close>): round trips of frames and token encodings, size limits.
  \<^item> \<open>Session_Auth\<close> (\<open>ipc/auth.rs\<close>, \<open>auth_session.rs\<close>): only issued sessions validate; guesses and requests per
    window are bounded, by the locale \<open>window_limit\<close>.
  \<^item> \<open>Stream_Server\<close> (\<open>ipc/server.rs\<close>, \<open>stream_bridge.rs\<close>): one connection with its tasks as a step relation; one
    final frame per request, and no frame of a stream after its cancellation was acknowledged.
  \<^item> \<open>Ipc_Handler\<close> (\<open>ipc/handler*.rs\<close>, \<open>health_handler.rs\<close>): an unauthenticated message changes nothing, and
    every inference request is answered with a result or a classified error.

  \<^bold>\<open>Models.\<close>
  \<^item> \<open>Model_Lifecycle\<close> (\<open>models/registry.rs\<close>, \<open>lifecycle.rs\<close>): registry, index and engine stay in step.
  \<^item> \<open>Model_Loading\<close> (\<open>loader.rs\<close>, \<open>containment.rs\<close>, \<open>manifest.rs\<close>, \<open>integrity.rs\<close>, \<open>backend_dispatch.rs\<close>,
    \<open>model_ops.rs\<close>): a validated path is inside an allowed directory, and the loaded bytes have the pinned hash.
  \<^item> \<open>Model_Swap\<close> (\<open>router.rs\<close>, \<open>drain.rs\<close>, \<open>preload.rs\<close>, \<open>swap.rs\<close>): routes lead to registered models while
    swaps and requests interleave, and the drain ends.
  \<^item> \<open>Model_Catalog\<close> (\<open>version.rs\<close>, \<open>history.rs\<close>, \<open>search.rs\<close>, \<open>persistence.rs\<close>): versions with their linear order
    and text, the history, queries, and the stored state.
  \<^item> \<open>Model_Pool\<close> (\<open>pool.rs\<close>, \<open>pool_types.rs\<close>): the pool keeps to its limits and never evicts the active model.

  \<^bold>\<open>The process.\<close>
  \<^item> \<open>Env_Config\<close> (\<open>config.rs\<close>, \<open>cli/config_cmd.rs\<close>): whatever the environment holds, the loaded configuration is
    well formed.
  \<^item> \<open>Daemon_Boot\<close> (\<open>main.rs\<close>, \<open>runtime_init.rs\<close>, \<open>auth_boot.rs\<close>, \<open>sandbox_boot.rs\<close>, \<open>runtime_facade.rs\<close>): the daemon
    starts only with a credential or an explicit opt-out, and with the sandbox its mode demands.
  \<^item> \<open>Shutdown_Health\<close> (\<open>shutdown.rs\<close>, \<open>health.rs\<close>): a completed shutdown has no tracked request left unless it
    timed out, and the drain notification is not lost.
  \<^item> \<open>Telemetry\<close> (\<open>telemetry/store.rs\<close>, \<open>buckets.rs\<close>, \<open>prometheus.rs\<close>, \<open>span_export.rs\<close>): the printed histogram is
    the exact cumulative count of the observations.

  \<^bold>\<open>Bounds and fuel.\<close> Loops are total functions with a measure: the length of the queue, of the rest of the
  input, of the pool, or the tokens left to generate. The one loop with fuel is the drain of \<open>Model_Swap\<close>,
  which polls the outside world; it is shown to end within a number of polls given by its deadline. Loops
  whose end depends on other threads are step relations. Hypotheses that sums stay below \<open>2 ^ 64\<close> are written
  at the theorems that need them.

  \<^bold>\<open>Not modelled.\<close>
  \<^item> Numeric kernels, quantisation, GPU and multi-GPU execution, mixture of experts, ONNX evaluation, canary and
    A/B statistics, the token bucket of the shim: floating-point arithmetic whose result depends on rounding,
    or calls of device drivers.
  \<^item> Speculative decoding and the quantised side store of the KV cache: features outside the default build. Draft
    verification of the backend is modelled.
  \<^item> The tokenizers of \<open>engine/\<close>: SIMD scanning, not on the path of the GGUF backend.
  \<^item> The thread pool, the socket listener, the sandbox system calls, FFI and Python bindings, logging: calls of
    the operating system, of foreign pointers, or of libraries, without logic of their own.
  \<^item> Key derivation and the audit log: calls of cryptographic libraries and files.
  \<^item> Smart loading and tier synergy, Kubernetes resource types, the remaining commands of the command line: data
    and choices over callbacks that nothing on the inference path uses.
\<close>

end
